(* ===== verification/Ioda_Prelude.thy ===== *)
theory Ioda_Prelude
  imports Complex_Main
begin

text \<open>
  Shared material of the development: the error values of the modelled code, lists selected by a
  mask of flags (the ``patch'' selection that several parts of ioda perform), exclusive prefix sums,
  and positions inside concatenated lists. Nothing in this theory models a file of the repository.

  Conventions. A \<open>std::size_t\<close> or \<open>Dimensions_t\<close> that only counts or indexes is a \<open>nat\<close>; where a
  fixed width matters it is written out. A \<open>double\<close> or \<open>float\<close> is a \<open>real\<close> without rounding, infinities
  and NaN, except where infinity is used explicitly. A thrown exception, a failed \<open>ASSERT\<close> and an
  out-of-range \<open>at()\<close> are values \<open>Inl e\<close> of a sum; an out-of-range \<open>operator[]\<close>, which is undefined in
  C++, is \<open>xs ! i\<close> outside the list, about which nothing can be proved.
\<close>

section \<open>Errors as values\<close>

datatype error =
    AssertionFailed
  | OutOfRange
  | InvalidArgument
  | UserError
  | BadParameter
  | NotImplemented
  | SeriousBug
  | OutOfFuel
  | Exception string

type_synonym 'a result = "error + 'a"

fun bind_result :: "'a result \<Rightarrow> ('a \<Rightarrow> 'b result) \<Rightarrow> 'b result" where
  "bind_result (Inl e) f = Inl e"
| "bind_result (Inr x) f = f x"

lemma bind_result_eq_Inr [simp]:
  "bind_result m f = Inr y \<longleftrightarrow> (\<exists>x. m = Inr x \<and> f x = Inr y)"
  by (cases m) auto

text \<open>A loop whose body may throw: the first error stops it.\<close>

fun fold_result :: "('a \<Rightarrow> 's \<Rightarrow> 's result) \<Rightarrow> 'a list \<Rightarrow> 's \<Rightarrow> 's result" where
  "fold_result f [] s = Inr s"
| "fold_result f (x # xs) s = bind_result (f x s) (fold_result f xs)"

fun map_result :: "('a \<Rightarrow> 'b result) \<Rightarrow> 'a list \<Rightarrow> 'b list result" where
  "map_result f [] = Inr []"
| "map_result f (x # xs) =
     bind_result (f x) (\<lambda>y. bind_result (map_result f xs) (\<lambda>ys. Inr (y # ys)))"

lemma fold_result_append:
  "fold_result f (xs @ ys) s = bind_result (fold_result f xs s) (fold_result f ys)"
proof (induction xs arbitrary: s)
  case Nil
  then show ?case by simp
next
  case (Cons x xs)
  then show ?case by (cases "f x s") simp_all
qed

lemma map_result_Inr:
  "(\<And>x. x \<in> set xs \<Longrightarrow> f x = Inr (g x)) \<Longrightarrow> map_result f xs = Inr (map g xs)"
  by (induction xs) auto

lemma map_result_map: "map_result f (map g xs) = map_result (\<lambda>x. f (g x)) xs"
  by (induction xs) simp_all

lemma fold_result_total:
  "(\<And>x s. x \<in> set xs \<Longrightarrow> f x s = Inr (g x s)) \<Longrightarrow> fold_result f xs s = Inr (fold g xs s)"
  by (induction xs arbitrary: s) auto

section \<open>Selection by a mask of flags\<close>

named_theorems mask_simps \<open>facts about lists selected by a mask\<close>

fun select_mask :: "bool list \<Rightarrow> 'a list \<Rightarrow> 'a list" where
  "select_mask (b # bs) (x # xs) = (if b then x # select_mask bs xs else select_mask bs xs)"
| "select_mask _ _ = []"

lemma select_mask_Nil2 [simp]: "select_mask bs [] = []"
  by (cases bs) auto

lemma select_mask_map [mask_simps]: "select_mask bs (map f xs) = map f (select_mask bs xs)"
  by (induction bs xs rule: select_mask.induct) auto

lemma length_select_mask [mask_simps]:
  "length bs = length xs \<Longrightarrow> length (select_mask bs xs) = length (filter id bs)"
  by (induction bs xs rule: list_induct2) auto

lemma in_select_mask:
  "length bs = length xs \<Longrightarrow>
   x \<in> set (select_mask bs xs) \<longleftrightarrow> (\<exists>i < length xs. bs ! i \<and> xs ! i = x)"
proof (induction bs xs rule: list_induct2)
  case Nil
  then show ?case by simp
next
  case (Cons b bs y xs)
  then show ?case by (auto simp: Ex_less_Suc2)
qed

lemma select_mask_subset: "set (select_mask bs xs) \<subseteq> set xs"
  by (induction bs xs rule: select_mask.induct) auto

lemma distinct_select_mask [mask_simps]: "distinct xs \<Longrightarrow> distinct (select_mask bs xs)"
  by (induction bs xs rule: select_mask.induct) (auto dest: subsetD [OF select_mask_subset])

lemma select_mask_by_pred: "select_mask (map P xs) xs = filter P xs"
  by (induction xs) auto

lemma select_mask_all [simp]: "select_mask (replicate (length xs) True) xs = xs"
  by (induction xs) auto

lemma select_mask_none [simp]: "select_mask (replicate n False) xs = []"
proof (induction n arbitrary: xs)
  case (Suc n)
  then show ?case by (cases xs) simp_all
qed simp

lemma select_mask_append:
  "length bs = length xs \<Longrightarrow>
   select_mask (bs @ bs') (xs @ xs') = select_mask bs xs @ select_mask bs' xs'"
  by (induction bs xs rule: list_induct2) auto

lemma sum_list_select_mask:
  "length bs = length xs \<Longrightarrow>
   sum_list (map f (select_mask bs xs))
     = (\<Sum>i < length xs. if bs ! i then f (xs ! i) else (0 :: 'a :: comm_monoid_add))"
proof (induction bs xs rule: list_induct2)
  case Nil
  then show ?case by simp
next
  case (Cons b bs x xs)
  have "(\<Sum>i < length (x # xs). if (b # bs) ! i then f ((x # xs) ! i) else 0)
      = (if b then f x else 0) + (\<Sum>i < length xs. if bs ! i then f (xs ! i) else 0)"
    by (simp add: sum.lessThan_Suc_shift del: sum.lessThan_Suc cong: if_cong)
  with Cons.IH show ?case by simp
qed

section \<open>Prefix sums and concatenated blocks\<close>

text \<open>Entry \<open>r\<close> is the sum of the entries before it: an exclusive scan.\<close>

definition exscan :: "nat list \<Rightarrow> nat list" where
  "exscan xs = map (\<lambda>r. sum_list (take r xs)) [0..<length xs]"

lemma length_exscan [simp]: "length (exscan xs) = length xs"
  by (simp add: exscan_def)

lemma exscan_nth [simp]: "r < length xs \<Longrightarrow> exscan xs ! r = sum_list (take r xs)"
  by (simp add: exscan_def)

definition block_start :: "'a list list \<Rightarrow> nat \<Rightarrow> nat" where
  "block_start xss r = sum_list (map length (take r xss))"

lemma block_start_Suc:
  "r < length xss \<Longrightarrow> block_start xss (Suc r) = block_start xss r + length (xss ! r)"
  by (simp add: block_start_def take_Suc_conv_app_nth)

lemma block_start_0 [simp]: "block_start xss 0 = 0"
  by (simp add: block_start_def)

lemma block_start_length: "block_start xss (length xss) = length (concat xss)"
  by (simp add: block_start_def length_concat)

lemma block_start_Cons [simp]: "block_start (xs # xss) (Suc r) = length xs + block_start xss r"
  by (simp add: block_start_def)

lemma concat_nth_block:
  "r < length xss \<Longrightarrow> i < length (xss ! r) \<Longrightarrow> concat xss ! (block_start xss r + i) = xss ! r ! i"
proof (induction xss arbitrary: r)
  case Nil
  then show ?case by simp
next
  case (Cons xs xss)
  then show ?case by (cases r) (auto simp: nth_append)
qed

lemma block_index_less:
  "r < length xss \<Longrightarrow> i < length (xss ! r) \<Longrightarrow> block_start xss r + i < length (concat xss)"
proof (induction xss arbitrary: r)
  case Nil
  then show ?case by simp
next
  case (Cons xs xss)
  then show ?case by (cases r) auto
qed

lemma distinct_concat_map_upt:
  assumes "\<And>r. r < n \<Longrightarrow> distinct (g r)"
    and "\<And>r r' x. \<lbrakk> r < n; r' < n; x \<in> set (g r); x \<in> set (g r') \<rbrakk> \<Longrightarrow> r = r'"
  shows "distinct (concat (map g [0..<n]))"
  using assms
proof (induction n)
  case 0
  then show ?case by simp
next
  case (Suc n)
  have "distinct (concat (map g [0..<n]))"
    using Suc.prems by (intro Suc.IH) (meson less_SucI)+
  moreover have "set (concat (map g [0..<n])) \<inter> set (g n) = {}"
    using Suc.prems(2) by (fastforce simp: less_Suc_eq)
  ultimately show ?case using Suc.prems(1) [of n] by simp
qed

lemma sum_list_concat: "sum_list (concat xss) = sum_list (map sum_list xss)"
  by (induction xss) (auto simp: add.assoc)

lemma sum_list_map_upt:
  "sum_list (map f [0..<n]) = (\<Sum>r < n. f r :: 'a :: comm_monoid_add)"
  by (simp add: sum_set_upt_conv_sum_list_nat [symmetric] atLeast0LessThan)

text \<open>Two nested loops that append.\<close>

lemma in_map_upt: "x \<in> set (map f [0..<b]) \<longleftrightarrow> (\<exists>j < b. x = f j)"
  by (simp add: image_iff Bex_def)

lemma in_concat_map_upt:
  "x \<in> set (concat (map (\<lambda>k. map (f k) [0..<b]) [0..<c])) \<longleftrightarrow> (\<exists>k < c. \<exists>j < b. x = f k j)"
proof -
  have "x \<in> set (concat (map (\<lambda>k. map (f k) [0..<b]) [0..<c])) \<longleftrightarrow> (\<exists>k < c. x \<in> set (map (f k) [0..<b]))"
    by auto
  then show ?thesis unfolding in_map_upt .
qed

lemma length_concat_map_upt: "length (concat (map (\<lambda>k. map (f k) [0..<b]) [0..<c])) = c * b"
  by (induction c) auto

section \<open>Loops that assign to array elements\<close>

lemma length_fold_update [simp]: "length (fold (\<lambda>i v. v[p i := y i v]) is v) = length v"
  by (induction "is" arbitrary: v) simp_all

lemma fold_update_other:
  "(\<And>i. i \<in> set is \<Longrightarrow> p i \<noteq> j) \<Longrightarrow> fold (\<lambda>i v. v[p i := y i v]) is v ! j = v ! j"
  by (induction "is" arbitrary: v) simp_all

lemma fold_update_at:
  "inj_on p {..<m} \<Longrightarrow> i < m \<Longrightarrow> p i < length v \<Longrightarrow>
   fold (\<lambda>i v. v[p i := y i]) [0..<m] v ! p i = y i"
proof (induction m)
  case 0
  then show ?case by simp
next
  case (Suc m)
  show ?case
  proof (cases "i = m")
    case True
    then show ?thesis using Suc.prems by simp
  next
    case False
    then have "p m \<noteq> p i" using Suc.prems inj_on_eq_iff [OF Suc.prems(1), of m i] by simp
    moreover have "fold (\<lambda>i v. v[p i := y i]) [0..<m] v ! p i = y i"
    proof (rule Suc.IH)
      show "inj_on p {..<m}" by (rule inj_on_subset [OF Suc.prems(1)]) simp
    qed (use Suc.prems False in simp_all)
    ultimately show ?thesis by simp
  qed
qed

lemma fold_modify_all:
  "m \<le> length v \<Longrightarrow>
   fold (\<lambda>i v. v[i := v ! i + f i]) [0..<m] v = map (\<lambda>i. v ! i + f i) [0..<m] @ drop m v"
proof (induction m)
  case 0
  then show ?case by simp
next
  case (Suc m)
  then have "drop m v = v ! m # drop (Suc m) v" by (simp add: Cons_nth_drop_Suc)
  with Suc show ?case by (simp add: nth_append list_update_append)
qed

text \<open>The loop that computes an exclusive scan in place.\<close>

lemma exscan_loop:
  fixes count :: "nat list"
  assumes "m \<le> length count" "m > 0"
  shows "fold (\<lambda>rank prev. prev[rank := prev ! (rank - 1) + count ! (rank - 1)])
      [1..<m] (replicate (length count) 0)
    = map (\<lambda>r. sum_list (take r count)) [0..<m] @ replicate (length count - m) 0"
  using assms
proof (induction m)
  case 0
  then show ?case by simp
next
  case (Suc m)
  show ?case
  proof (cases "m = 0")
    case True
    then show ?thesis using Suc.prems by (simp add: Suc_diff_le replicate_Suc [symmetric] del: replicate_Suc)
  next
    case False
    then obtain k where k: "m = Suc k" by (cases m) auto
    have "length count - m = Suc (length count - Suc m)" using Suc.prems by simp
    then show ?thesis
      using Suc k by (simp add: nth_append list_update_append take_Suc_conv_app_nth)
  qed
qed

section \<open>Strictly increasing lists of numbers\<close>

lemma strict_sorted_as_filter:
  fixes xs :: "nat list"
  assumes "sorted_wrt (<) xs" "set xs \<subseteq> {..<k}"
  shows "xs = filter (\<lambda>g. g \<in> set xs) [0..<k]"
proof (rule sorted_distinct_set_unique)
  show "sorted xs" "distinct xs" using assms(1) strict_sorted_iff by blast+
  show "sorted (filter (\<lambda>g. g \<in> set xs) [0..<k])" by (simp add: sorted_wrt_filter)
  show "distinct (filter (\<lambda>g. g \<in> set xs) [0..<k])" by simp
  show "set xs = set (filter (\<lambda>g. g \<in> set xs) [0..<k])" using assms(2) by auto
qed

lemma strict_sorted_less_last:
  fixes xs :: "nat list"
  assumes "sorted_wrt (<) xs" "x \<in> set xs"
  shows "x \<le> last xs"
proof -
  from assms(2) obtain i where i: "i < length xs" "xs ! i = x" by (auto simp: in_set_conv_nth)
  then have "last xs = xs ! (length xs - 1)" by (intro last_conv_nth) auto
  moreover have "xs ! i \<le> xs ! (length xs - 1)"
    using assms(1) i by (cases "i = length xs - 1") (auto simp: sorted_wrt_iff_nth_less intro: less_imp_le)
  ultimately show ?thesis using i by simp
qed

text \<open>The position of a number among the selected numbers below \<open>k\<close> is the count of those before it.\<close>

lemma filter_upt_nth:
  assumes "P g" "g < k"
  shows "length (filter P [0..<g]) < length (filter P [0..<k])"
    and "filter P [0..<k] ! length (filter P [0..<g]) = g"
proof -
  have "[0..<k] = [0..<g] @ g # [Suc g..<k]" using assms(2) upt_add_eq_append [of 0 g "k - g"] by (simp add: upt_conv_Cons)
  then have "filter P [0..<k] = filter P [0..<g] @ g # filter P [Suc g..<k]" using assms(1) by simp
  then show "length (filter P [0..<g]) < length (filter P [0..<k])"
    and "filter P [0..<k] ! length (filter P [0..<g]) = g"
    by simp_all
qed

end
