(* ===== verification/Ioda_Mpi.thy ===== *)
theory Ioda_Mpi
  imports Ioda_Prelude
begin

text \<open>
  The message passing library (\<open>eckit::mpi\<close>, \<open>oops::mpi\<close>) is not part of the repository. A parallel
  run of \<open>n\<close> processes is modelled by the list of the \<open>n\<close> process states, in the order of the MPI
  ranks, and a collective operation is a parameter: a function from the contributions of the ranks to
  the common result. The predicates below state the documented behaviour of the operations the code
  calls; they are hypotheses of the theorems that rest on them. The functions \<open>seq_...\<close> are sequential
  operations with that behaviour; they occur in closed examples only.
\<close>

section \<open>Documented behaviour of the collective operations\<close>

definition mpi_max :: "('a :: linorder list \<Rightarrow> 'a) \<Rightarrow> bool" where
  "mpi_max f \<longleftrightarrow> (\<forall>xs. xs \<noteq> [] \<longrightarrow> f xs \<in> set xs \<and> (\<forall>x \<in> set xs. x \<le> f xs))"

definition mpi_min :: "('a :: linorder list \<Rightarrow> 'a) \<Rightarrow> bool" where
  "mpi_min f \<longleftrightarrow> (\<forall>xs. xs \<noteq> [] \<longrightarrow> f xs \<in> set xs \<and> (\<forall>x \<in> set xs. f xs \<le> x))"

definition mpi_sum :: "('a :: comm_monoid_add list \<Rightarrow> 'a) \<Rightarrow> bool" where
  "mpi_sum f \<longleftrightarrow> (\<forall>xs. f xs = sum_list xs)"

text \<open>\<open>oops::mpi::exclusiveScan\<close>: rank \<open>r\<close> receives the sum over the ranks below it, rank 0 zero.\<close>

definition mpi_exscan :: "(nat list \<Rightarrow> nat list) \<Rightarrow> bool" where
  "mpi_exscan f \<longleftrightarrow> (\<forall>xs. f xs = exscan xs)"

text \<open>\<open>oops::mpi::allGatherv\<close>: the vectors of all ranks, joined in the order of the ranks.\<close>

definition mpi_allGatherv :: "('a list list \<Rightarrow> 'a list) \<Rightarrow> bool" where
  "mpi_allGatherv f \<longleftrightarrow> (\<forall>xss. f xss = concat xss)"

text \<open>
  \<open>MPI_MINLOC\<close> on vectors of pairs (value, rank): at each position the smallest value, and among the
  ranks that contribute it the smallest rank.
\<close>

definition loc_le :: "'a :: linorder \<times> nat \<Rightarrow> 'a \<times> nat \<Rightarrow> bool" where
  "loc_le p q \<longleftrightarrow> fst p < fst q \<or> fst p = fst q \<and> snd p \<le> snd q"

definition mpi_minloc :: "(('a :: linorder \<times> nat) list list \<Rightarrow> ('a \<times> nat) list) \<Rightarrow> bool" where
  "mpi_minloc f \<longleftrightarrow>
     (\<forall>xss m. xss \<noteq> [] \<longrightarrow> (\<forall>xs \<in> set xss. length xs = m) \<longrightarrow>
        length (f xss) = m \<and>
        (\<forall>j < m. (\<exists>xs \<in> set xss. f xss ! j = xs ! j) \<and> (\<forall>xs \<in> set xss. loc_le (f xss ! j) (xs ! j))))"

lemma mpi_max_in: "mpi_max f \<Longrightarrow> xs \<noteq> [] \<Longrightarrow> f xs \<in> set xs"
  by (simp add: mpi_max_def)

lemma mpi_max_ge: "mpi_max f \<Longrightarrow> x \<in> set xs \<Longrightarrow> x \<le> f xs"
  unfolding mpi_max_def by (drule spec [of _ xs]) auto

lemma mpi_max_eqI:
  "mpi_max f \<Longrightarrow> m \<in> set xs \<Longrightarrow> (\<And>x. x \<in> set xs \<Longrightarrow> x \<le> m) \<Longrightarrow> f xs = m"
proof (rule antisym)
  assume f: "mpi_max f" and m: "m \<in> set xs" and le: "\<And>x. x \<in> set xs \<Longrightarrow> x \<le> m"
  from m have "xs \<noteq> []" by auto
  with f have "f xs \<in> set xs" by (rule mpi_max_in)
  then show "f xs \<le> m" by (rule le)
  from f m show "m \<le> f xs" by (rule mpi_max_ge)
qed

lemma mpi_minlocD:
  assumes "mpi_minloc f" "xss \<noteq> []" "\<And>xs. xs \<in> set xss \<Longrightarrow> length xs = m"
  shows "length (f xss) = m \<and>
      (\<forall>j < m. (\<exists>xs \<in> set xss. f xss ! j = xs ! j) \<and> (\<forall>xs \<in> set xss. loc_le (f xss ! j) (xs ! j)))"
proof -
  have "\<forall>xs \<in> set xss. length xs = m" using assms(3) by blast
  then show ?thesis
    by (rule assms(1) [unfolded mpi_minloc_def, THEN spec, THEN spec, THEN mp, THEN mp, OF assms(2)])
qed

lemmas mpi_minloc_length = mpi_minlocD [THEN conjunct1]
lemmas mpi_minloc_mem = mpi_minlocD [THEN conjunct2, rule_format, THEN conjunct1]
lemmas mpi_minloc_le = mpi_minlocD [THEN conjunct2, rule_format, THEN conjunct2, rule_format]

section \<open>Sequential operations with that behaviour\<close>

fun seq_max :: "'a :: linorder list \<Rightarrow> 'a" where
  "seq_max [x] = x"
| "seq_max (x # y # xs) = max x (seq_max (y # xs))"

fun seq_min :: "'a :: linorder list \<Rightarrow> 'a" where
  "seq_min [x] = x"
| "seq_min (x # y # xs) = min x (seq_min (y # xs))"

definition minloc_pair :: "'a :: linorder \<times> nat \<Rightarrow> 'a \<times> nat \<Rightarrow> 'a \<times> nat" where
  "minloc_pair p q = (if loc_le p q then p else q)"

fun seq_minloc :: "('a :: linorder \<times> nat) list list \<Rightarrow> ('a \<times> nat) list" where
  "seq_minloc [xs] = xs"
| "seq_minloc (xs # ys # xss) = map2 minloc_pair xs (seq_minloc (ys # xss))"

lemma mpi_max_seq_max: "mpi_max seq_max"
proof -
  have "xs \<noteq> [] \<longrightarrow> seq_max xs \<in> set xs \<and> (\<forall>x \<in> set xs. x \<le> seq_max xs)" for xs :: "'a list"
    by (induction xs rule: seq_max.induct) (auto simp: max_def)
  then show ?thesis by (simp add: mpi_max_def)
qed

lemma mpi_min_seq_min: "mpi_min seq_min"
proof -
  have "xs \<noteq> [] \<longrightarrow> seq_min xs \<in> set xs \<and> (\<forall>x \<in> set xs. seq_min xs \<le> x)" for xs :: "'a list"
    by (induction xs rule: seq_min.induct) (auto simp: min_def)
  then show ?thesis by (simp add: mpi_min_def)
qed

lemma mpi_sum_sum_list: "mpi_sum sum_list"
  by (simp add: mpi_sum_def)

lemma mpi_exscan_exscan: "mpi_exscan exscan"
  by (simp add: mpi_exscan_def)

lemma mpi_allGatherv_concat: "mpi_allGatherv concat"
  by (simp add: mpi_allGatherv_def)

lemma minloc_pair_cases: "minloc_pair p q = p \<or> minloc_pair p q = q"
  by (simp add: minloc_pair_def)

lemma minloc_pair_le: "loc_le (minloc_pair p q) p" "loc_le (minloc_pair p q) q"
  by (auto simp: minloc_pair_def loc_le_def)

lemma loc_le_trans: "loc_le p q \<Longrightarrow> loc_le q r \<Longrightarrow> loc_le p r"
  by (cases p; cases q; cases r) (auto simp: loc_le_def)

lemma seq_minloc_length:
  "xss \<noteq> [] \<Longrightarrow> (\<forall>xs \<in> set xss. length xs = m) \<Longrightarrow> length (seq_minloc xss) = m"
  by (induction xss rule: seq_minloc.induct) auto

lemma seq_minloc_nth:
  "(\<forall>zs \<in> set (xs # ys # xss). length zs = m) \<Longrightarrow> j < m \<Longrightarrow>
   seq_minloc (xs # ys # xss) ! j = minloc_pair (xs ! j) (seq_minloc (ys # xss) ! j)"
  using seq_minloc_length [of "ys # xss" m] by simp

lemma seq_minloc_mem:
  "xss \<noteq> [] \<Longrightarrow> (\<forall>xs \<in> set xss. length xs = m) \<Longrightarrow> j < m \<Longrightarrow>
   \<exists>xs \<in> set xss. seq_minloc xss ! j = xs ! j"
proof (induction xss rule: seq_minloc.induct)
  case (2 xs ys xss)
  then have "\<exists>zs \<in> set (ys # xss). seq_minloc (ys # xss) ! j = zs ! j" by simp
  moreover have "seq_minloc (xs # ys # xss) ! j = xs ! j \<or>
      seq_minloc (xs # ys # xss) ! j = seq_minloc (ys # xss) ! j"
    unfolding seq_minloc_nth [OF 2(3,4)] by (rule minloc_pair_cases)
  ultimately show ?case by auto
qed auto

lemma seq_minloc_le:
  "(\<forall>xs \<in> set xss. length xs = m) \<Longrightarrow> j < m \<Longrightarrow> zs \<in> set xss \<Longrightarrow>
   loc_le (seq_minloc xss ! j) (zs ! j)"
proof (induction xss rule: seq_minloc.induct)
  case (1 xs)
  then show ?case by (simp add: loc_le_def)
next
  case (2 xs ys xss)
  have eq: "seq_minloc (xs # ys # xss) ! j = minloc_pair (xs ! j) (seq_minloc (ys # xss) ! j)"
    using 2 by (intro seq_minloc_nth) auto
  show ?case
  proof (cases "zs = xs")
    case True
    then show ?thesis unfolding eq by (simp only: minloc_pair_le(1))
  next
    case False
    then have "loc_le (seq_minloc (ys # xss) ! j) (zs ! j)" using 2 by simp
    then show ?thesis unfolding eq by (rule loc_le_trans [OF minloc_pair_le(2)])
  qed
qed auto

lemma mpi_minloc_seq_minloc: "mpi_minloc seq_minloc"
  unfolding mpi_minloc_def 
proof (intro allI impI)
  fix xss :: "('a \<times> nat) list list" and m
  assume ne: "xss \<noteq> []" and len: "\<forall>xs \<in> set xss. length xs = m"
  show "length (seq_minloc xss) = m \<and>
      (\<forall>j < m. (\<exists>xs \<in> set xss. seq_minloc xss ! j = xs ! j) \<and>
               (\<forall>xs \<in> set xss. loc_le (seq_minloc xss ! j) (xs ! j)))"
    using seq_minloc_length [OF ne len] seq_minloc_mem [OF ne len] seq_minloc_le [OF len] by simp
qed

lemmas seq_mpi =
  mpi_max_seq_max mpi_min_seq_min mpi_sum_sum_list mpi_exscan_exscan mpi_allGatherv_concat
  mpi_minloc_seq_minloc

section \<open>The communicator\<close>

text \<open>
  A distance, or the value \<open>std::numeric_limits<double>::infinity()\<close> that stands for none.
\<close>

datatype distance = Dist real | Infinity

instantiation distance :: linorder
begin

fun less_eq_distance :: "distance \<Rightarrow> distance \<Rightarrow> bool" where
  "less_eq_distance (Dist a) (Dist b) = (a \<le> b)"
| "less_eq_distance _ Infinity = True"
| "less_eq_distance Infinity (Dist b) = False"

definition less_distance :: "distance \<Rightarrow> distance \<Rightarrow> bool" where
  "less_distance a b = (a \<le> b \<and> \<not> b \<le> a)"

instance
proof
  fix a b c :: distance
  show "(a < b) = (a \<le> b \<and> \<not> b \<le> a)" by (simp add: less_distance_def)
  show "a \<le> a" by (cases a) auto
  show "a \<le> b \<Longrightarrow> b \<le> c \<Longrightarrow> a \<le> c" by (cases a; cases b; cases c) auto
  show "a \<le> b \<Longrightarrow> b \<le> a \<Longrightarrow> a = b" by (cases a; cases b) auto
  show "a \<le> b \<or> b \<le> a" by (cases a; cases b) auto
qed

end

lemma less_Infinity [simp]: "a < Infinity \<longleftrightarrow> a \<noteq> Infinity"
  by (cases a) (auto simp: less_distance_def)

lemma Dist_less_iff [simp]: "Dist a < Dist b \<longleftrightarrow> a < b"
  by (auto simp: less_distance_def)

lemma not_Infinity_less [simp]: "\<not> Infinity < a"
  by (cases a) (auto simp: less_distance_def)

text \<open>
  The operations of \<open>eckit::mpi::Comm\<close> and \<open>oops::mpi\<close> that the distributions call, at the types they
  call them with: \<open>'x\<close> is the type of the gathered values, \<open>'v\<close> that of the reduced ones.
\<close>

record ('x, 'v) comm =
  c_size :: nat
  c_allGatherv :: "'x list list \<Rightarrow> 'x list"
  c_sum :: "'v list \<Rightarrow> 'v"
  c_min :: "'v list \<Rightarrow> 'v"
  c_max :: "'v list \<Rightarrow> 'v"
  c_exclusiveScan :: "nat list \<Rightarrow> nat list"
  c_max_size :: "nat list \<Rightarrow> nat"
  c_allGatherv_size :: "nat list list \<Rightarrow> nat list"
  c_minloc :: "(distance \<times> nat) list list \<Rightarrow> (distance \<times> nat) list"

definition comm_ok :: "('x, 'v :: {comm_monoid_add, linorder}) comm \<Rightarrow> bool" where
  "comm_ok c \<longleftrightarrow> c_size c > 0 \<and> mpi_allGatherv (c_allGatherv c) \<and> mpi_sum (c_sum c) \<and>
     mpi_min (c_min c) \<and> mpi_max (c_max c) \<and> mpi_exscan (c_exclusiveScan c) \<and>
     mpi_max (c_max_size c) \<and> mpi_allGatherv (c_allGatherv_size c) \<and> mpi_minloc (c_minloc c)"

definition seq_comm :: "nat \<Rightarrow> ('x, 'v :: {comm_monoid_add, linorder}) comm" where
  "seq_comm n = \<lparr> c_size = n, c_allGatherv = concat, c_sum = sum_list, c_min = seq_min, c_max = seq_max,
     c_exclusiveScan = exscan, c_max_size = seq_max, c_allGatherv_size = concat, c_minloc = seq_minloc \<rparr>"

lemma comm_ok_seq_comm: "n > 0 \<Longrightarrow> comm_ok (seq_comm n)"
  by (simp add: comm_ok_def seq_comm_def seq_mpi)

lemma mpi_allGatherv_eq: "mpi_allGatherv f \<Longrightarrow> f xss = concat xss"
  by (simp add: mpi_allGatherv_def)

lemma mpi_sum_eq: "mpi_sum f \<Longrightarrow> f xs = sum_list xs"
  by (simp add: mpi_sum_def)

lemma mpi_min_Min: "mpi_min f \<Longrightarrow> xs \<noteq> [] \<Longrightarrow> f xs = Min (set xs)"
  unfolding mpi_min_def by (drule spec [of _ xs]) (auto intro!: Min_eqI [symmetric])

lemma mpi_max_Max: "mpi_max f \<Longrightarrow> xs \<noteq> [] \<Longrightarrow> f xs = Max (set xs)"
  unfolding mpi_max_def by (drule spec [of _ xs]) (auto intro!: Max_eqI [symmetric])

end
