(* ===== verification/Ioda_Distribution.thy ===== *)
theory Ioda_Distribution
  imports Ioda_Mpi
begin

text \<open>
  The contract of \<open>ioda::Distribution\<close> (\<open>distribution/Distribution.h\<close>), the accumulators
  (\<open>distribution/*Accumulator.h\<close>) and the functions of \<open>distribution/DistributionUtils.cc\<close> that work
  with any distribution.

  The locale \<open>distribution\<close> states what the class comment promises: the patch observations form a
  complete, non-overlapping partition of the global set of observations. \<open>gathering_distribution\<close> adds
  \<open>allGatherv()\<close> and \<open>globalUniqueConsecutiveLocationIndex()\<close>, \<open>summing_distribution\<close> an accumulator, and
  \<open>record_assigner\<close> the protocol of \<open>assignRecord()\<close> and \<open>isMyRecord()\<close>. The concrete distributions
  interpret them in the theories that follow.
\<close>

section \<open>Locations held by the ranks\<close>

type_synonym point2 = "real \<times> real"

text \<open>One call \<open>assignRecord(RecNum, LocNum, point)\<close>; all ranks receive the same calls.\<close>

type_synonym assign_call = "nat \<times> nat \<times> point2"

definition call_rec :: "assign_call \<Rightarrow> nat" where "call_rec c = fst c"
definition call_loc :: "assign_call \<Rightarrow> nat" where "call_loc c = fst (snd c)"
definition call_point :: "assign_call \<Rightarrow> point2" where "call_point c = snd (snd c)"

lemma call_simps [simp]:
  "call_rec (r, l, p) = r" "call_loc (r, l, p) = l" "call_point (r, l, p) = p"
  by (simp_all add: call_rec_def call_loc_def call_point_def)

text \<open>The global location numbers a rank keeps: those whose record is its own.\<close>

definition kept_locs :: "(nat \<Rightarrow> bool) \<Rightarrow> assign_call list \<Rightarrow> nat list" where
  "kept_locs isMy calls = map call_loc (filter (\<lambda>c. isMy (call_rec c)) calls)"

definition gathered_locs :: "nat \<Rightarrow> (nat \<Rightarrow> 'l list) \<Rightarrow> (nat \<Rightarrow> bool list) \<Rightarrow> 'l list" where
  "gathered_locs n held patch = concat (map (\<lambda>r. select_mask (patch r) (held r)) [0..<n])"

definition all_locs :: "nat \<Rightarrow> (nat \<Rightarrow> 'l list) \<Rightarrow> 'l set" where
  "all_locs n held = (\<Union>r < n. set (held r))"

lemma kept_locs_append [simp]: "kept_locs P (xs @ ys) = kept_locs P xs @ kept_locs P ys"
  by (simp add: kept_locs_def)

lemma kept_locs_Nil [simp]: "kept_locs P [] = []"
  by (simp add: kept_locs_def)

lemma kept_locs_Cons [simp]:
  "kept_locs P (c # cs) = (if P (call_rec c) then [call_loc c] else []) @ kept_locs P cs"
  by (simp add: kept_locs_def)

lemma set_kept_locs: "set (kept_locs P calls) = {call_loc c | c. c \<in> set calls \<and> P (call_rec c)}"
  unfolding kept_locs_def set_map set_filter by blast

lemma sorted_kept_locs:
  "sorted_wrt (<) (map call_loc calls) \<Longrightarrow> sorted_wrt (<) (kept_locs P calls)"
  by (simp add: kept_locs_def sorted_wrt_map sorted_wrt_filter)

lemma distinct_kept_locs: "distinct (map call_loc calls) \<Longrightarrow> distinct (kept_locs P calls)"
  by (simp add: kept_locs_def distinct_map_filter)

text \<open>The point of the first location of a record; distributions by position place the record by it.\<close>

fun first_point :: "assign_call list \<Rightarrow> nat \<Rightarrow> point2" where
  "first_point [] rec = (0, 0)"
| "first_point (c # cs) rec = (if call_rec c = rec then call_point c else first_point cs rec)"

lemma first_point_append:
  "first_point (cs @ cs') rec
    = (if rec \<in> call_rec ` set cs then first_point cs rec else first_point cs' rec)"
  by (induction cs) auto

lemma finite_all_locs [simp]: "finite (all_locs n held)"
  by (simp add: all_locs_def)

lemma Min_all_locs:
  fixes q :: "'l \<Rightarrow> 'v :: linorder"
  assumes "n > 0" "\<And>r. r < n \<Longrightarrow> held r \<noteq> []"
  shows "Min (set (map (\<lambda>r. Min (q ` set (held r))) [0..<n])) = Min (q ` all_locs n held)"
proof -
  have "q ` all_locs n held = (\<Union>r \<in> {0..<n}. q ` set (held r))"
    by (auto simp: all_locs_def image_UN)
  moreover have "Min (\<Union>r \<in> {0..<n}. q ` set (held r)) = Min ((\<lambda>r. Min (q ` set (held r))) ` {0..<n})"
  proof (rule Min_eqI)
    show "Min ((\<lambda>r. Min (q ` set (held r))) ` {0..<n}) \<le> y"
      if "y \<in> (\<Union>r \<in> {0..<n}. q ` set (held r))" for y
    proof -
      from that obtain r where r: "r < n" "y \<in> q ` set (held r)" by auto
      then have "Min ((\<lambda>r. Min (q ` set (held r))) ` {0..<n}) \<le> Min (q ` set (held r))" by simp
      also have "\<dots> \<le> y" using r by simp
      finally show ?thesis .
    qed
    have "Min ((\<lambda>r. Min (q ` set (held r))) ` {0..<n}) \<in> (\<lambda>r. Min (q ` set (held r))) ` {0..<n}"
      using assms(1) by (intro Min_in) auto
    then obtain r where "r < n" "Min ((\<lambda>r. Min (q ` set (held r))) ` {0..<n}) = Min (q ` set (held r))"
      by auto
    moreover have "Min (q ` set (held r)) \<in> q ` set (held r)" using assms(2) [OF \<open>r < n\<close>] by (intro Min_in) auto
    ultimately show "Min ((\<lambda>r. Min (q ` set (held r))) ` {0..<n}) \<in> (\<Union>r \<in> {0..<n}. q ` set (held r))"
      by force
  qed auto
  ultimately show ?thesis by simp
qed

lemma Max_all_locs:
  fixes q :: "'l \<Rightarrow> 'v :: linorder"
  assumes "n > 0" "\<And>r. r < n \<Longrightarrow> held r \<noteq> []"
  shows "Max (set (map (\<lambda>r. Max (q ` set (held r))) [0..<n])) = Max (q ` all_locs n held)"
proof -
  have "q ` all_locs n held = (\<Union>r \<in> {0..<n}. q ` set (held r))"
    by (auto simp: all_locs_def image_UN)
  moreover have "Max (\<Union>r \<in> {0..<n}. q ` set (held r)) = Max ((\<lambda>r. Max (q ` set (held r))) ` {0..<n})"
  proof (rule Max_eqI)
    show "y \<le> Max ((\<lambda>r. Max (q ` set (held r))) ` {0..<n})"
      if "y \<in> (\<Union>r \<in> {0..<n}. q ` set (held r))" for y
    proof -
      from that obtain r where r: "r < n" "y \<in> q ` set (held r)" by auto
      then have "y \<le> Max (q ` set (held r))" by simp
      also have "\<dots> \<le> Max ((\<lambda>r. Max (q ` set (held r))) ` {0..<n})" using r by simp
      finally show ?thesis .
    qed
    have "Max ((\<lambda>r. Max (q ` set (held r))) ` {0..<n}) \<in> (\<lambda>r. Max (q ` set (held r))) ` {0..<n}"
      using assms(1) by (intro Max_in) auto
    then obtain r where "r < n" "Max ((\<lambda>r. Max (q ` set (held r))) ` {0..<n}) = Max (q ` set (held r))"
      by auto
    moreover have "Max (q ` set (held r)) \<in> q ` set (held r)" using assms(2) [OF \<open>r < n\<close>] by (intro Max_in) auto
    ultimately show "Max ((\<lambda>r. Max (q ` set (held r))) ` {0..<n}) \<in> (\<Union>r \<in> {0..<n}. q ` set (held r))"
      by force
  qed auto
  ultimately show ?thesis by simp
qed

section \<open>Record assignment\<close>

text \<open>
  \<open>assignRecord()\<close> and \<open>isMyRecord()\<close> of one rank. Law: once a location of a record has been passed to
  \<open>assignRecord()\<close>, later calls do not change the answer of \<open>isMyRecord()\<close> for that record. The reader
  relies on it: it asks after every frame, while assignment goes on in the next frame.
\<close>

locale record_assigner =
  fixes assign :: "assign_call \<Rightarrow> 's \<Rightarrow> 's result"
    and isMy :: "'s \<Rightarrow> nat \<Rightarrow> bool"
    and start :: 's
  assumes stable: "fold_result assign calls start = Inr s \<Longrightarrow> assign c s = Inr s' \<Longrightarrow>
    rec \<in> call_rec ` set calls \<Longrightarrow> isMy s' rec = isMy s rec"
begin

lemma stable_later:
  assumes "fold_result assign calls start = Inr s" "fold_result assign calls' s = Inr s'"
    and "rec \<in> call_rec ` set calls"
  shows "isMy s' rec = isMy s rec"
  using assms
proof (induction calls' arbitrary: calls s)
  case Nil
  then show ?case by simp
next
  case (Cons c calls')
  from Cons.prems(2) obtain t where t: "assign c s = Inr t" "fold_result assign calls' t = Inr s'"
    by auto
  have "fold_result assign (calls @ [c]) start = Inr t"
    using Cons.prems(1) t(1) by (simp add: fold_result_append)
  then have "isMy s' rec = isMy t rec" using t(2) Cons.prems(3) by (intro Cons.IH [of "calls @ [c]"]) auto
  with stable [OF Cons.prems(1) t(1) Cons.prems(3)] show ?case by simp
qed

text \<open>The locations kept frame by frame are the locations kept at the end.\<close>

lemma kept_locs_frames:
  assumes "fold_result assign calls start = Inr s" "fold_result assign calls' s = Inr s'"
  shows "kept_locs (isMy s') (calls @ calls') = kept_locs (isMy s) calls @ kept_locs (isMy s') calls'"
proof -
  have "filter (\<lambda>c. isMy s' (call_rec c)) calls = filter (\<lambda>c. isMy s (call_rec c)) calls"
    using stable_later [OF assms] by (intro filter_cong) auto
  then show ?thesis by (simp add: kept_locs_def)
qed

end

section \<open>The contract of a distribution\<close>

locale distribution =
  fixes inv :: "'d \<Rightarrow> bool"
    and nprocs :: "'d \<Rightarrow> nat"
    and held :: "'d \<Rightarrow> nat \<Rightarrow> 'l list"
    and patch :: "'d \<Rightarrow> nat \<Rightarrow> bool list"
  assumes patch_length: "inv d \<Longrightarrow> r < nprocs d \<Longrightarrow> length (patch d r) = length (held d r)"
    and held_distinct: "inv d \<Longrightarrow> r < nprocs d \<Longrightarrow> distinct (held d r)"
    and owner_exists: "inv d \<Longrightarrow> r < nprocs d \<Longrightarrow> g \<in> set (held d r) \<Longrightarrow>
      \<exists>r' < nprocs d. g \<in> set (select_mask (patch d r') (held d r'))"
    and owner_unique: "inv d \<Longrightarrow> r < nprocs d \<Longrightarrow> r' < nprocs d \<Longrightarrow>
      g \<in> set (select_mask (patch d r) (held d r)) \<Longrightarrow>
      g \<in> set (select_mask (patch d r') (held d r')) \<Longrightarrow> r = r'"
begin

lemma distinct_gathered:
  "inv d \<Longrightarrow> distinct (gathered_locs (nprocs d) (held d) (patch d))"
  unfolding gathered_locs_def
  by (intro distinct_concat_map_upt distinct_select_mask held_distinct)
     (auto intro: owner_unique)

lemma set_gathered:
  assumes "inv d"
  shows "set (gathered_locs (nprocs d) (held d) (patch d)) = all_locs (nprocs d) (held d)"
proof
  show "set (gathered_locs (nprocs d) (held d) (patch d)) \<subseteq> all_locs (nprocs d) (held d)"
    using select_mask_subset by (fastforce simp: gathered_locs_def all_locs_def)
  show "all_locs (nprocs d) (held d) \<subseteq> set (gathered_locs (nprocs d) (held d) (patch d))"
    using owner_exists [OF assms] by (fastforce simp: gathered_locs_def all_locs_def)
qed

lemma length_gathered:
  "inv d \<Longrightarrow> length (gathered_locs (nprocs d) (held d) (patch d)) = card (all_locs (nprocs d) (held d))"
  using distinct_gathered set_gathered distinct_card by metis

text \<open>A sum over the patch observations of all ranks counts each location once.\<close>

lemma sum_patch_once:
  fixes q :: "'l \<Rightarrow> 'v :: comm_monoid_add"
  assumes "inv d"
  shows "(\<Sum>r < nprocs d. \<Sum>i < length (held d r). if patch d r ! i then q (held d r ! i) else 0)
    = sum q (all_locs (nprocs d) (held d))"
proof -
  have "(\<Sum>r < nprocs d. \<Sum>i < length (held d r). if patch d r ! i then q (held d r ! i) else 0)
      = (\<Sum>r < nprocs d. sum_list (map q (select_mask (patch d r) (held d r))))"
    using patch_length [OF assms] by (intro sum.cong) (simp_all add: sum_list_select_mask)
  also have "\<dots> = sum_list (map q (gathered_locs (nprocs d) (held d) (patch d)))"
    by (simp add: gathered_locs_def map_concat sum_list_concat comp_def sum_list_map_upt)
  also have "\<dots> = sum q (set (gathered_locs (nprocs d) (held d) (patch d)))"
    using distinct_gathered [OF assms] by (rule sum_list_distinct_conv_sum_set)
  finally show ?thesis using set_gathered [OF assms] by simp
qed

end

text \<open>
  \<open>allGatherv\<close> of a location-dependent quantity delivers to every rank its values at the locations
  \<open>gathered\<close>, which lists every location once; the index of the \<open>i\<close>th location held by rank \<open>r\<close> is the
  position where that location's value stands.
\<close>

locale gathering_distribution = distribution inv nprocs held patch
  for inv :: "'d \<Rightarrow> bool" and nprocs and held :: "'d \<Rightarrow> nat \<Rightarrow> 'l list" and patch +
  fixes gathered :: "'d \<Rightarrow> 'l list"
    and allGatherv :: "'d \<Rightarrow> 'x list list \<Rightarrow> 'x list list result"
    and gindex :: "'d \<Rightarrow> nat \<Rightarrow> nat \<Rightarrow> nat"
  assumes gathered_distinct: "inv d \<Longrightarrow> distinct (gathered d)"
    and gathered_set: "inv d \<Longrightarrow> set (gathered d) = all_locs (nprocs d) (held d)"
    and gathers: "inv d \<Longrightarrow> allGatherv d (map (\<lambda>r. map f (held d r)) [0..<nprocs d])
      = Inr (map (\<lambda>_. map f (gathered d)) [0..<nprocs d])"
    and gindex_bound: "inv d \<Longrightarrow> r < nprocs d \<Longrightarrow> i < length (held d r) \<Longrightarrow>
      gindex d r i < length (gathered d)"
    and gindex_nth: "inv d \<Longrightarrow> r < nprocs d \<Longrightarrow> i < length (held d r) \<Longrightarrow>
      gathered d ! gindex d r i = held d r ! i"
begin

lemma gathered_length: "inv d \<Longrightarrow> length (gathered d) = card (all_locs (nprocs d) (held d))"
  using gathered_distinct gathered_set distinct_card by metis

lemma gindex_eq_iff:
  assumes "inv d" "r < nprocs d" "i < length (held d r)" "r' < nprocs d" "i' < length (held d r')"
  shows "gindex d r i = gindex d r' i' \<longleftrightarrow> held d r ! i = held d r' ! i'"
  using assms gindex_nth gindex_bound nth_eq_iff_index_eq [OF gathered_distinct] by metis

lemma gindex_range:
  assumes "inv d"
  shows "{gindex d r i | r i. r < nprocs d \<and> i < length (held d r)}
    = {..< card (all_locs (nprocs d) (held d))}" (is "?I = ?N")
proof
  show "?I \<subseteq> ?N" using gindex_bound [OF assms] gathered_length [OF assms] by auto
  show "?N \<subseteq> ?I"
  proof
    fix k assume "k \<in> ?N"
    then have k: "k < length (gathered d)" using gathered_length [OF assms] by simp
    then have "gathered d ! k \<in> all_locs (nprocs d) (held d)"
      using gathered_set [OF assms] nth_mem by blast
    then obtain r i where ri: "r < nprocs d" "i < length (held d r)" "held d r ! i = gathered d ! k"
      by (auto simp: all_locs_def in_set_conv_nth)
    then have "gindex d r i = k"
      using gindex_nth gindex_bound nth_eq_iff_index_eq [OF gathered_distinct] assms k by metis
    with ri show "k \<in> ?I" by blast
  qed
qed

lemma gathered_value:
  assumes "inv d" "r < nprocs d" "i < length (held d r)"
  shows "map f (gathered d) ! gindex d r i = f (held d r ! i)"
  using gindex_bound [OF assms] gindex_nth [OF assms] by simp

end

text \<open>The global minimum and maximum of a location-dependent quantity, from the local ones.\<close>

locale reducing_distribution = distribution inv nprocs held patch
  for inv :: "'d \<Rightarrow> bool" and nprocs and held :: "'d \<Rightarrow> nat \<Rightarrow> 'l list" and patch +
  fixes dmin :: "'d \<Rightarrow> 'v :: linorder list \<Rightarrow> 'v list"
    and dmax :: "'d \<Rightarrow> 'v list \<Rightarrow> 'v list"
  assumes dmin_global: "inv d \<Longrightarrow> (\<And>r. r < nprocs d \<Longrightarrow> held d r \<noteq> []) \<Longrightarrow>
      dmin d (map (\<lambda>r. Min (q ` set (held d r))) [0..<nprocs d])
        = map (\<lambda>_. Min (q ` all_locs (nprocs d) (held d))) [0..<nprocs d]"
    and dmax_global: "inv d \<Longrightarrow> (\<And>r. r < nprocs d \<Longrightarrow> held d r \<noteq> []) \<Longrightarrow>
      dmax d (map (\<lambda>r. Max (q ` set (held d r))) [0..<nprocs d])
        = map (\<lambda>_. Max (q ` all_locs (nprocs d) (held d))) [0..<nprocs d]"

section \<open>Accumulators\<close>

text \<open>
  \<open>localResult_\<close> of the accumulators; \<open>GeneralDistributionAccumulator\<close> also keeps the patch flags of
  its rank. The value given to the constructor is ignored (of a vector, all but the length).
\<close>

record 'v accumulator =
  localResult :: 'v

record 'v general_accumulator = "'v accumulator" +
  acc_patchObs :: "bool list"

definition NonoverlappingDistributionAccumulator :: "'v :: zero \<Rightarrow> 'v accumulator" where
  "NonoverlappingDistributionAccumulator init = \<lparr> localResult = 0 \<rparr>"

definition NonoverlappingDistributionAccumulator_addTerm ::
    "nat \<Rightarrow> 'v :: plus \<Rightarrow> 'v accumulator \<Rightarrow> 'v accumulator" where
  "NonoverlappingDistributionAccumulator_addTerm loc term a = a \<lparr> localResult := localResult a + term \<rparr>"

definition NonoverlappingDistributionAccumulator_computeResult ::
    "('v list \<Rightarrow> 'v) \<Rightarrow> 'v accumulator list \<Rightarrow> 'v list" where
  "NonoverlappingDistributionAccumulator_computeResult sumReduce as =
     map (\<lambda>_. sumReduce (map localResult as)) as"

definition GeneralDistributionAccumulator :: "'v :: zero \<Rightarrow> bool list \<Rightarrow> 'v general_accumulator" where
  "GeneralDistributionAccumulator init patchObs = \<lparr> localResult = 0, acc_patchObs = patchObs \<rparr>"

definition GeneralDistributionAccumulator_addTerm ::
    "nat \<Rightarrow> 'v :: plus \<Rightarrow> 'v general_accumulator \<Rightarrow> 'v general_accumulator" where
  "GeneralDistributionAccumulator_addTerm loc term a =
     (if acc_patchObs a ! loc then a \<lparr> localResult := localResult a + term \<rparr> else a)"

definition GeneralDistributionAccumulator_computeResult ::
    "('v list \<Rightarrow> 'v) \<Rightarrow> 'v general_accumulator list \<Rightarrow> 'v list" where
  "GeneralDistributionAccumulator_computeResult sumReduce as =
     map (\<lambda>_. sumReduce (map localResult as)) as"

definition InefficientDistributionAccumulator :: "'v :: zero \<Rightarrow> 'v accumulator" where
  "InefficientDistributionAccumulator init = \<lparr> localResult = 0 \<rparr>"

definition InefficientDistributionAccumulator_addTerm ::
    "nat \<Rightarrow> 'v :: plus \<Rightarrow> 'v accumulator \<Rightarrow> 'v accumulator" where
  "InefficientDistributionAccumulator_addTerm loc term a = a \<lparr> localResult := localResult a + term \<rparr>"

definition InefficientDistributionAccumulator_computeResult :: "'v accumulator list \<Rightarrow> 'v list" where
  "InefficientDistributionAccumulator_computeResult as = map localResult as"

lemmas accumulator_defs =
  NonoverlappingDistributionAccumulator_def NonoverlappingDistributionAccumulator_addTerm_def
  NonoverlappingDistributionAccumulator_computeResult_def
  GeneralDistributionAccumulator_def GeneralDistributionAccumulator_addTerm_def
  GeneralDistributionAccumulator_computeResult_def
  InefficientDistributionAccumulator_def InefficientDistributionAccumulator_addTerm_def
  InefficientDistributionAccumulator_computeResult_def

text \<open>The specialisations for \<open>std::vector<T>\<close>, with the two overloads of \<open>addTerm\<close>.\<close>

definition add_vector :: "'v :: plus list \<Rightarrow> 'v list \<Rightarrow> 'v list" where
  "add_vector xs ys = map (\<lambda>i. xs ! i + ys ! i) [0..<length xs]"

definition NonoverlappingDistributionAccumulator_vec :: "'v :: zero list \<Rightarrow> 'v list accumulator" where
  "NonoverlappingDistributionAccumulator_vec init = \<lparr> localResult = replicate (length init) 0 \<rparr>"

definition NonoverlappingDistributionAccumulator_addTerm_vec ::
    "nat \<Rightarrow> 'v :: plus list \<Rightarrow> 'v list accumulator \<Rightarrow> 'v list accumulator" where
  "NonoverlappingDistributionAccumulator_addTerm_vec loc term a =
     a \<lparr> localResult := add_vector (localResult a) term \<rparr>"

definition NonoverlappingDistributionAccumulator_addTerm_item ::
    "nat \<Rightarrow> nat \<Rightarrow> 'v :: plus \<Rightarrow> 'v list accumulator \<Rightarrow> 'v list accumulator" where
  "NonoverlappingDistributionAccumulator_addTerm_item loc item term a =
     a \<lparr> localResult := (localResult a)[item := localResult a ! item + term] \<rparr>"

definition GeneralDistributionAccumulator_vec ::
    "'v :: zero list \<Rightarrow> bool list \<Rightarrow> 'v list general_accumulator" where
  "GeneralDistributionAccumulator_vec init patchObs =
     \<lparr> localResult = replicate (length init) 0, acc_patchObs = patchObs \<rparr>"

definition GeneralDistributionAccumulator_addTerm_vec ::
    "nat \<Rightarrow> 'v :: plus list \<Rightarrow> 'v list general_accumulator \<Rightarrow> 'v list general_accumulator" where
  "GeneralDistributionAccumulator_addTerm_vec loc term a =
     (if acc_patchObs a ! loc then a \<lparr> localResult := add_vector (localResult a) term \<rparr> else a)"

definition GeneralDistributionAccumulator_addTerm_item ::
    "nat \<Rightarrow> nat \<Rightarrow> 'v :: plus \<Rightarrow> 'v list general_accumulator \<Rightarrow> 'v list general_accumulator" where
  "GeneralDistributionAccumulator_addTerm_item loc item term a =
     (if acc_patchObs a ! loc
      then a \<lparr> localResult := (localResult a)[item := localResult a ! item + term] \<rparr> else a)"

text \<open>The element-wise reduction of vectors of equal length: \<open>allReduceInPlace(begin, end, op)\<close>.\<close>

definition reduce_vectors :: "('v list \<Rightarrow> 'v) \<Rightarrow> 'v list list \<Rightarrow> 'v list" where
  "reduce_vectors f xss = map (\<lambda>j. f (map (\<lambda>xs. xs ! j) xss)) [0..<length (hd xss)]"

definition GeneralDistributionAccumulator_computeResult_vec ::
    "('v list \<Rightarrow> 'v) \<Rightarrow> 'v list general_accumulator list \<Rightarrow> 'v list list" where
  "GeneralDistributionAccumulator_computeResult_vec sumReduce as =
     map (\<lambda>_. reduce_vectors sumReduce (map localResult as)) as"

definition NonoverlappingDistributionAccumulator_computeResult_vec ::
    "('v list \<Rightarrow> 'v) \<Rightarrow> 'v list accumulator list \<Rightarrow> 'v list list" where
  "NonoverlappingDistributionAccumulator_computeResult_vec sumReduce as =
     map (\<lambda>_. reduce_vectors sumReduce (map localResult as)) as"

definition InefficientDistributionAccumulator_vec :: "'v :: zero list \<Rightarrow> 'v list accumulator" where
  "InefficientDistributionAccumulator_vec init = \<lparr> localResult = replicate (length init) 0 \<rparr>"

definition InefficientDistributionAccumulator_addTerm_vec ::
    "nat \<Rightarrow> 'v :: plus list \<Rightarrow> 'v list accumulator \<Rightarrow> 'v list accumulator" where
  "InefficientDistributionAccumulator_addTerm_vec loc term a =
     a \<lparr> localResult := add_vector (localResult a) term \<rparr>"

definition InefficientDistributionAccumulator_addTerm_item ::
    "nat \<Rightarrow> nat \<Rightarrow> 'v :: plus \<Rightarrow> 'v list accumulator \<Rightarrow> 'v list accumulator" where
  "InefficientDistributionAccumulator_addTerm_item loc item term a =
     a \<lparr> localResult := (localResult a)[item := localResult a ! item + term] \<rparr>"

definition InefficientDistributionAccumulator_computeResult_vec ::
    "'v list accumulator list \<Rightarrow> 'v list list" where
  "InefficientDistributionAccumulator_computeResult_vec as = map localResult as"

text \<open>The state of a scalar accumulator after a rank has added a term for each of its locations.\<close>

lemma Nonoverlapping_localResult:
  fixes t :: "nat \<Rightarrow> 'v :: comm_monoid_add"
  shows "localResult (fold (\<lambda>i. NonoverlappingDistributionAccumulator_addTerm i (t i)) [0..<n] a)
    = localResult a + (\<Sum>i < n. t i)"
  by (induction n) (auto simp: accumulator_defs add.assoc)

lemma Inefficient_localResult:
  fixes t :: "nat \<Rightarrow> 'v :: comm_monoid_add"
  shows "localResult (fold (\<lambda>i. InefficientDistributionAccumulator_addTerm i (t i)) [0..<n] a)
    = localResult a + (\<Sum>i < n. t i)"
  by (induction n) (auto simp: accumulator_defs add.assoc)

lemma General_patchObs [simp]:
  "acc_patchObs (fold (\<lambda>i. GeneralDistributionAccumulator_addTerm i (t i)) [0..<n] a) = acc_patchObs a"
  by (induction n) (auto simp: accumulator_defs)

lemma General_localResult_step:
  fixes t :: "'v :: comm_monoid_add"
  shows "localResult (GeneralDistributionAccumulator_addTerm i t a)
    = localResult a + (if acc_patchObs a ! i then t else 0)"
  by (simp add: accumulator_defs)

lemma General_localResult:
  fixes t :: "nat \<Rightarrow> 'v :: comm_monoid_add"
  shows "localResult (fold (\<lambda>i. GeneralDistributionAccumulator_addTerm i (t i)) [0..<n] a)
    = localResult a + (\<Sum>i < n. if acc_patchObs a ! i then t i else 0)"
  by (induction n) (simp_all add: General_localResult_step add.assoc)

text \<open>Both overloads on vectors act on each component as the scalar accumulator does.\<close>

lemma add_vector_nth [simp]: "j < length xs \<Longrightarrow> add_vector xs ys ! j = xs ! j + ys ! j"
  by (simp add: add_vector_def)

lemma length_add_vector [simp]: "length (add_vector xs ys) = length xs"
  by (simp add: add_vector_def)

definition component_acc :: "nat \<Rightarrow> 'v list general_accumulator \<Rightarrow> 'v general_accumulator" where
  "component_acc j a = \<lparr> localResult = localResult a ! j, acc_patchObs = acc_patchObs a \<rparr>"

lemma component_addTerm_vec:
  "j < length (localResult a) \<Longrightarrow>
   component_acc j (GeneralDistributionAccumulator_addTerm_vec loc term a)
     = GeneralDistributionAccumulator_addTerm loc (term ! j) (component_acc j a)"
  by (simp add: component_acc_def GeneralDistributionAccumulator_addTerm_vec_def
      GeneralDistributionAccumulator_addTerm_def)

lemma component_addTerm_item:
  "j < length (localResult a) \<Longrightarrow>
   component_acc j (GeneralDistributionAccumulator_addTerm_item loc item term a)
     = (if j = item then GeneralDistributionAccumulator_addTerm loc term (component_acc j a)
        else component_acc j a)"
  by (simp add: component_acc_def GeneralDistributionAccumulator_addTerm_item_def
      GeneralDistributionAccumulator_addTerm_def)

context distribution
begin

text \<open>The general accumulator and the reductions, for any distribution with this contract.\<close>

lemma general_sums_once:
  fixes q :: "'l \<Rightarrow> 'v :: comm_monoid_add"
  assumes "inv d" "mpi_sum s"
  shows "GeneralDistributionAccumulator_computeResult s
      (map (\<lambda>r. fold (\<lambda>i. GeneralDistributionAccumulator_addTerm i (q (held d r ! i)))
          [0..<length (held d r)] (GeneralDistributionAccumulator 0 (patch d r))) [0..<nprocs d])
    = map (\<lambda>_. sum q (all_locs (nprocs d) (held d))) [0..<nprocs d]"
  using sum_patch_once [OF assms(1), of q]
  by (simp add: GeneralDistributionAccumulator_computeResult_def comp_def General_localResult
      GeneralDistributionAccumulator_def mpi_sum_eq [OF assms(2)] sum_list_map_upt)

lemma general_min:
  fixes q :: "'l \<Rightarrow> 'v :: linorder"
  assumes "mpi_min f" "nprocs d > 0" "\<And>r. r < nprocs d \<Longrightarrow> held d r \<noteq> []"
  shows "f (map (\<lambda>r. Min (q ` set (held d r))) [0..<nprocs d]) = Min (q ` all_locs (nprocs d) (held d))"
proof -
  have "f (map (\<lambda>r. Min (q ` set (held d r))) [0..<nprocs d]) = Min (set (map (\<lambda>r. Min (q ` set (held d r))) [0..<nprocs d]))"
    using assms(2) by (intro mpi_min_Min [OF assms(1)]) simp
  also have "\<dots> = Min (q ` all_locs (nprocs d) (held d))" by (rule Min_all_locs [OF assms(2,3)])
  finally show ?thesis .
qed

lemma general_max:
  fixes q :: "'l \<Rightarrow> 'v :: linorder"
  assumes "mpi_max f" "nprocs d > 0" "\<And>r. r < nprocs d \<Longrightarrow> held d r \<noteq> []"
  shows "f (map (\<lambda>r. Max (q ` set (held d r))) [0..<nprocs d]) = Max (q ` all_locs (nprocs d) (held d))"
proof -
  have "f (map (\<lambda>r. Max (q ` set (held d r))) [0..<nprocs d]) = Max (set (map (\<lambda>r. Max (q ` set (held d r))) [0..<nprocs d]))"
    using assms(2) by (intro mpi_max_Max [OF assms(1)]) simp
  also have "\<dots> = Max (q ` all_locs (nprocs d) (held d))" by (rule Max_all_locs [OF assms(2,3)])
  finally show ?thesis .
qed

end

locale summing_distribution = distribution inv nprocs held patch
  for inv :: "'d \<Rightarrow> bool" and nprocs and held :: "'d \<Rightarrow> nat \<Rightarrow> 'l list" and patch +
  fixes createAccumulator :: "'d \<Rightarrow> nat \<Rightarrow> 'acc"
    and addTerm :: "nat \<Rightarrow> 'v :: comm_monoid_add \<Rightarrow> 'acc \<Rightarrow> 'acc"
    and computeResult :: "'d \<Rightarrow> 'acc list \<Rightarrow> 'v list"
  assumes sums_once: "inv d \<Longrightarrow>
      computeResult d (map (\<lambda>r. fold (\<lambda>i. addTerm i (q (held d r ! i))) [0..<length (held d r)]
                                  (createAccumulator d r)) [0..<nprocs d])
        = map (\<lambda>_. sum q (all_locs (nprocs d) (held d))) [0..<nprocs d]"

section \<open>Functions of DistributionUtils\<close>

text \<open>
  The three loops, over the accumulator methods of any distribution. \<open>element\<close> runs through the
  interleaved vector while \<open>loc\<close> and \<open>var\<close> count; the local part runs on one rank, the whole function on
  all ranks at once.
\<close>

definition count_nonmissing :: "'v \<Rightarrow> nat \<Rightarrow> 'v list \<Rightarrow> nat \<Rightarrow> nat \<times> nat" where
  "count_nonmissing missing numVariables v element =
     fold (\<lambda>var (term, el). (if v ! el \<noteq> missing then term + 1 else term, el + 1))
       [0..<numVariables] (0, element)"

definition globalNumNonMissingObs_local ::
    "(nat \<Rightarrow> nat \<Rightarrow> 'acc \<Rightarrow> 'acc) \<Rightarrow> 'acc \<Rightarrow> 'v \<Rightarrow> nat \<Rightarrow> 'v list \<Rightarrow> 'acc" where
  "globalNumNonMissingObs_local addTerm accumulator missing numVariables v =
     fst (fold (\<lambda>loc (acc, element).
            let (term, element) = count_nonmissing missing numVariables v element
            in (addTerm loc term acc, element))
          [0..<length v div numVariables] (accumulator, 0))"

definition globalNumNonMissingObs ::
    "(nat \<Rightarrow> nat \<Rightarrow> 'acc \<Rightarrow> 'acc) \<Rightarrow> ('acc list \<Rightarrow> nat list) \<Rightarrow> 'v \<Rightarrow> nat \<Rightarrow> 'acc list \<Rightarrow> 'v list list \<Rightarrow> nat list" where
  "globalNumNonMissingObs addTerm computeResult missing numVariables accumulators vs =
     computeResult (map2 (\<lambda>a v. globalNumNonMissingObs_local addTerm a missing numVariables v)
       accumulators vs)"

text \<open>The overload for \<open>std::vector<bool>\<close>: there is no missing value.\<close>

definition globalNumNonMissingObs_bool ::
    "(nat \<Rightarrow> nat \<Rightarrow> 'acc \<Rightarrow> 'acc) \<Rightarrow> ('acc list \<Rightarrow> nat list) \<Rightarrow> nat \<Rightarrow> 'acc list \<Rightarrow> bool list list \<Rightarrow> nat list" where
  "globalNumNonMissingObs_bool addTerm computeResult numVariables accumulators vs =
     computeResult (map2 (\<lambda>a v. fold (\<lambda>loc. addTerm loc numVariables) [0..<length v div numVariables] a)
       accumulators vs)"

definition product_term :: "real \<Rightarrow> nat \<Rightarrow> real list \<Rightarrow> real list \<Rightarrow> nat \<Rightarrow> real \<times> nat" where
  "product_term missing numVariables v1 v2 element =
     fold (\<lambda>var (term, el).
         (if v1 ! el \<noteq> missing \<and> v2 ! el \<noteq> missing then term + v1 ! el * v2 ! el else term, el + 1))
       [0..<numVariables] (0, element)"

definition dotProduct_local ::
    "(nat \<Rightarrow> real \<Rightarrow> 'acc \<Rightarrow> 'acc) \<Rightarrow> 'acc \<Rightarrow> real \<Rightarrow> nat \<Rightarrow> real list \<Rightarrow> real list \<Rightarrow> 'acc result" where
  "dotProduct_local addTerm accumulator missing numVariables v1 v2 =
     (if length v1 \<noteq> length v2 then Inl AssertionFailed
      else Inr (fst (fold (\<lambda>loc (acc, element).
            let (term, element) = product_term missing numVariables v1 v2 element
            in (addTerm loc term acc, element))
          [0..<length v1 div numVariables] (accumulator, 0))))"

definition dotProduct ::
    "(nat \<Rightarrow> real \<Rightarrow> 'acc \<Rightarrow> 'acc) \<Rightarrow> ('acc list \<Rightarrow> real list) \<Rightarrow> real \<Rightarrow> nat \<Rightarrow> 'acc list \<Rightarrow>
     (real list \<times> real list) list \<Rightarrow> real list result" where
  "dotProduct addTerm computeResult missing numVariables accumulators vs =
     bind_result (map_result (\<lambda>(a, v1, v2). dotProduct_local addTerm a missing numVariables v1 v2)
         (zip accumulators vs))
       (\<lambda>accs. Inr (computeResult accs))"

subsection \<open>The loops as sums\<close>

text \<open>Values of \<open>numVariables\<close> variables at a list of locations, interleaved.\<close>

definition interleave :: "nat \<Rightarrow> ('l \<Rightarrow> nat \<Rightarrow> 'v) \<Rightarrow> 'l list \<Rightarrow> 'v list" where
  "interleave nv f locs = concat (map (\<lambda>g. map (f g) [0..<nv]) locs)"

lemma length_interleave [simp]: "length (interleave nv f locs) = length locs * nv"
  by (induction locs) (auto simp: interleave_def)

lemma interleave_nth:
  "i < length locs \<Longrightarrow> j < nv \<Longrightarrow> interleave nv f locs ! (i * nv + j) = f (locs ! i) j"
proof (induction locs arbitrary: i)
  case Nil
  then show ?case by simp
next
  case (Cons g locs)
  have step: "interleave nv f (g # locs) = map (f g) [0..<nv] @ interleave nv f locs"
    by (simp add: interleave_def)
  show ?case
  proof (cases i)
    case 0
    then show ?thesis using Cons.prems by (simp add: step nth_append)
  next
    case (Suc k)
    then show ?thesis using Cons by (simp add: step nth_append add.assoc)
  qed
qed

lemma element_loop:
  assumes "\<And>el. snd (inner el) = el + nv"
  shows "fold (\<lambda>loc (acc, el). let (term, el) = inner el in (add loc term acc, el)) [0..<m] (a, e)
    = (fold (\<lambda>loc. add loc (fst (inner (e + loc * nv)))) [0..<m] a, e + m * nv)"
  by (induction m) (simp_all add: Let_def split_def assms algebra_simps)

lemma count_nonmissing_eq:
  "count_nonmissing missing nv v el = (\<Sum>j < nv. if v ! (el + j) \<noteq> missing then 1 else 0, el + nv)"
  unfolding count_nonmissing_def by (induction nv) simp_all

lemma product_term_eq:
  "product_term missing nv v1 v2 el =
     (\<Sum>j < nv. if v1 ! (el + j) \<noteq> missing \<and> v2 ! (el + j) \<noteq> missing
               then v1 ! (el + j) * v2 ! (el + j) else 0, el + nv)"
  unfolding product_term_def by (induction nv) simp_all

lemma globalNumNonMissingObs_local_interleave:
  assumes "nv > 0"
  shows "globalNumNonMissingObs_local addTerm a missing nv (interleave nv f locs)
    = fold (\<lambda>i. addTerm i (\<Sum>j < nv. if f (locs ! i) j \<noteq> missing then 1 else 0)) [0..<length locs] a"
  using assms unfolding globalNumNonMissingObs_local_def
  by (subst element_loop [where nv = nv])
     (auto simp: count_nonmissing_eq interleave_nth intro!: fold_cong ext arg_cong2 [where f = addTerm]
       arg_cong [where f = "\<lambda>x. addTerm _ x _"] sum.cong)

lemma dotProduct_local_interleave:
  assumes "nv > 0"
  shows "dotProduct_local addTerm a missing nv (interleave nv f locs) (interleave nv h locs)
    = Inr (fold (\<lambda>i. addTerm i (\<Sum>j < nv.
          if f (locs ! i) j \<noteq> missing \<and> h (locs ! i) j \<noteq> missing then f (locs ! i) j * h (locs ! i) j else 0))
        [0..<length locs] a)"
  using assms unfolding dotProduct_local_def
  by (subst element_loop [where nv = nv])
     (auto simp: product_term_eq interleave_nth intro!: fold_cong ext sum.cong
       arg_cong [where f = "\<lambda>x. addTerm _ x _"])

subsection \<open>Clients of the accumulator contract\<close>

lemma map2_map_upt: "map2 F (map A [0..<n]) (map B [0..<n]) = map (\<lambda>r. F (A r) (B r)) [0..<n]"
  by (induction n) auto

locale counting_distribution =
  summing_distribution inv nprocs held patch createAccumulator addTerm computeResult
  for inv :: "'d \<Rightarrow> bool" and nprocs and held :: "'d \<Rightarrow> nat \<Rightarrow> 'l list" and patch createAccumulator
    and addTerm :: "nat \<Rightarrow> nat \<Rightarrow> 'acc \<Rightarrow> 'acc" and computeResult
begin

lemma counts_once:
  assumes "inv d" "nv > 0"
  shows "globalNumNonMissingObs addTerm (computeResult d) missing nv
      (map (createAccumulator d) [0..<nprocs d]) (map (\<lambda>r. interleave nv f (held d r)) [0..<nprocs d])
    = map (\<lambda>_. card {(g, j). g \<in> all_locs (nprocs d) (held d) \<and> j < nv \<and> f g j \<noteq> missing}) [0..<nprocs d]"
proof -
  have "{(g, j). g \<in> all_locs (nprocs d) (held d) \<and> j < nv \<and> f g j \<noteq> missing}
      = (SIGMA g : all_locs (nprocs d) (held d). {j. j < nv \<and> f g j \<noteq> missing})"
    by auto
  then have "card {(g, j). g \<in> all_locs (nprocs d) (held d) \<and> j < nv \<and> f g j \<noteq> missing}
      = (\<Sum>g \<in> all_locs (nprocs d) (held d). card {j. j < nv \<and> f g j \<noteq> missing})"
    by (simp add: card_SigmaI)
  also have "\<dots> = (\<Sum>g \<in> all_locs (nprocs d) (held d). \<Sum>j < nv. if f g j \<noteq> missing then 1 else 0)"
    by (intro sum.cong refl) (simp add: sum.If_cases Int_def lessThan_def)
  finally show ?thesis
    using sums_once [OF assms(1), where q = "\<lambda>g. \<Sum>j < nv. if f g j \<noteq> missing then 1 else 0"]
    by (simp add: globalNumNonMissingObs_def map2_map_upt
        globalNumNonMissingObs_local_interleave [OF assms(2)])
qed

lemma counts_once_bool:
  assumes "inv d" "nv > 0" "\<And>r. r < nprocs d \<Longrightarrow> length (vs ! r) = length (held d r) * nv" "length vs = nprocs d"
  shows "globalNumNonMissingObs_bool addTerm (computeResult d) nv (map (createAccumulator d) [0..<nprocs d]) vs
    = map (\<lambda>_. card (all_locs (nprocs d) (held d)) * nv) [0..<nprocs d]"
proof -
  have vs: "vs = map (\<lambda>r. vs ! r) [0..<nprocs d]" using assms(4) map_nth [of vs] by simp
  have "globalNumNonMissingObs_bool addTerm (computeResult d) nv (map (createAccumulator d) [0..<nprocs d]) vs
      = computeResult d (map (\<lambda>r. fold (\<lambda>loc. addTerm loc nv) [0..<length (vs ! r) div nv] (createAccumulator d r)) [0..<nprocs d])"
    unfolding globalNumNonMissingObs_bool_def by (subst vs) (rule arg_cong [OF map2_map_upt])
  also have "\<dots> = computeResult d (map (\<lambda>r. fold (\<lambda>loc. addTerm loc nv) [0..<length (held d r)] (createAccumulator d r)) [0..<nprocs d])"
    using assms(2,3) by (intro arg_cong [where f = "computeResult d"] map_cong) auto
  also have "\<dots> = map (\<lambda>_. \<Sum>g \<in> all_locs (nprocs d) (held d). nv) [0..<nprocs d]"
    by (rule sums_once [OF assms(1)])
  finally show ?thesis by simp
qed

end

locale product_distribution =
  summing_distribution inv nprocs held patch createAccumulator addTerm computeResult
  for inv :: "'d \<Rightarrow> bool" and nprocs and held :: "'d \<Rightarrow> nat \<Rightarrow> 'l list" and patch createAccumulator
    and addTerm :: "nat \<Rightarrow> real \<Rightarrow> 'acc \<Rightarrow> 'acc" and computeResult
begin

lemma product_once:
  assumes "inv d" "nv > 0"
  shows "dotProduct addTerm (computeResult d) missing nv (map (createAccumulator d) [0..<nprocs d])
      (map (\<lambda>r. (interleave nv f (held d r), interleave nv h (held d r))) [0..<nprocs d])
    = Inr (map (\<lambda>_. \<Sum>g \<in> all_locs (nprocs d) (held d). \<Sum>j < nv.
        if f g j \<noteq> missing \<and> h g j \<noteq> missing then f g j * h g j else 0) [0..<nprocs d])"
proof -
  let ?q = "\<lambda>g. \<Sum>j < nv. if f g j \<noteq> missing \<and> h g j \<noteq> missing then f g j * h g j else 0"
  have "zip (map (createAccumulator d) [0..<nprocs d])
      (map (\<lambda>r. (interleave nv f (held d r), interleave nv h (held d r))) [0..<nprocs d])
    = map (\<lambda>r. (createAccumulator d r, interleave nv f (held d r), interleave nv h (held d r))) [0..<nprocs d]"
    using map2_map_upt [of Pair] by simp
  moreover have "map_result (\<lambda>(a, v1, v2). dotProduct_local addTerm a missing nv v1 v2)
      (map (\<lambda>r. (createAccumulator d r, interleave nv f (held d r), interleave nv h (held d r))) [0..<nprocs d])
    = Inr (map (\<lambda>r. fold (\<lambda>i. addTerm i (?q (held d r ! i))) [0..<length (held d r)] (createAccumulator d r)) [0..<nprocs d])"
    by (subst map_result_map) (intro map_result_Inr, simp add: dotProduct_local_interleave [OF assms(2)])
  ultimately show ?thesis
    using sums_once [OF assms(1), where q = ?q] by (simp add: dotProduct_def)
qed

end

end
