(* ===== verification/Ioda_Halo.thy ===== *)
theory Ioda_Halo
  imports Ioda_Distribution
begin

text \<open>
  \<open>ioda::Halo\<close> (\<open>distribution/Halo.cc\<close>): each rank keeps the records whose first location is within a
  radius of its centre, so records can be kept by several ranks; \<open>computePatchLocs()\<close> gives each location
  to the nearest of them (\<open>MPI_MINLOC\<close>) and numbers the locations. Great-circle distance
  (\<open>eckit::geometry::Sphere\<close>) is a parameter. The contract of a distribution is proved for every run in
  which the locations are presented in increasing order, as the reader does.
\<close>

section \<open>State and operations\<close>

record halo_config =
  center :: point2
  radius :: real

record halo =
  recordsInHalo :: "nat set"
  patchObsBool :: "bool list"
  globalUniqueConsecutiveLocIndices :: "nat list"
  recordsOutsideHalo :: "nat set"
  recordDistancesFromCenter :: "nat \<rightharpoonup> real"
  haloLocRecords :: "nat list"
  haloLocVector :: "nat list"

text \<open>The constructor: centre from the configuration, or spread along the equator.\<close>

definition Halo_config :: "nat \<Rightarrow> nat \<Rightarrow> point2 option \<Rightarrow> real \<Rightarrow> real \<Rightarrow> halo_config" where
  "Halo_config rank commSize params_center params_radius haloSize =
     \<lparr> center = (case params_center of
          Some p \<Rightarrow> p | None \<Rightarrow> (real rank * (360 / real commSize), 0)),
       radius = params_radius + haloSize \<rparr>"

definition Halo :: halo where
  "Halo = \<lparr> recordsInHalo = {}, patchObsBool = [], globalUniqueConsecutiveLocIndices = [],
     recordsOutsideHalo = {}, recordDistancesFromCenter = Map.empty, haloLocRecords = [], haloLocVector = [] \<rparr>"

definition Halo_storeLocation :: "assign_call \<Rightarrow> halo \<Rightarrow> halo" where
  "Halo_storeLocation c h =
     h \<lparr> haloLocVector := haloLocVector h @ [call_loc c], haloLocRecords := haloLocRecords h @ [call_rec c] \<rparr>"

definition Halo_assignRecord ::
    "(point2 \<Rightarrow> point2 \<Rightarrow> real) \<Rightarrow> halo_config \<Rightarrow> assign_call \<Rightarrow> halo \<Rightarrow> halo" where
  "Halo_assignRecord distance cfg c h =
     (if call_rec c \<in> recordsOutsideHalo h then h
      else if call_rec c \<notin> recordsInHalo h
      then let d = distance (center cfg) (call_point c)
           in if d \<le> radius cfg
              then Halo_storeLocation c
                (h \<lparr> recordsInHalo := insert (call_rec c) (recordsInHalo h),
                     recordDistancesFromCenter := (recordDistancesFromCenter h)(call_rec c \<mapsto> d) \<rparr>)
              else h \<lparr> recordsOutsideHalo := insert (call_rec c) (recordsOutsideHalo h) \<rparr>
      else Halo_storeLocation c h)"

definition Halo_isMyRecord :: "halo \<Rightarrow> nat \<Rightarrow> bool" where
  "Halo_isMyRecord h RecNum \<longleftrightarrow> RecNum \<in> recordsInHalo h"

subsection \<open>computePatchLocs\<close>

text \<open>The contribution of a rank to the number of global locations.\<close>

definition Halo_nglocs :: "halo \<Rightarrow> nat" where
  "Halo_nglocs h = (if haloLocVector h \<noteq> [] then last (haloLocVector h) + 1 else 0)"

text \<open>\<open>dist_and_lidx_loc\<close> of a rank.\<close>

definition Halo_localDistances :: "nat \<Rightarrow> nat \<Rightarrow> halo \<Rightarrow> (distance \<times> nat) list result" where
  "Halo_localDistances nglocs myRank h =
     fold_result (\<lambda>loc v.
         case recordDistancesFromCenter h (haloLocRecords h ! loc) of
           None \<Rightarrow> Inl OutOfRange
         | Some d \<Rightarrow> Inr (v[haloLocVector h ! loc := (Dist d, myRank)]))
       [0..<length (haloLocVector h)] (replicate nglocs (Infinity, myRank))"

definition indexPatchObs ::
    "(distance \<times> nat) list \<Rightarrow> nat set \<Rightarrow> nat list \<times> nat list \<Rightarrow> nat list \<times> nat list" where
  "indexPatchObs glb haloLocSet =
     fold (\<lambda>gloc (count, indices).
         if fst (glb ! gloc) < Infinity
         then let rankOwningPatchObs = snd (glb ! gloc)
              in (count[rankOwningPatchObs := count ! rankOwningPatchObs + 1],
                  if gloc \<in> haloLocSet then indices @ [count ! rankOwningPatchObs] else indices)
         else (count, indices))
       [0..<length glb]"

definition previousRanksCount :: "nat list \<Rightarrow> nat list" where
  "previousRanksCount count =
     fold (\<lambda>rank prev. prev[rank := prev ! (rank - 1) + count ! (rank - 1)])
       [1..<length count] (replicate (length count) 0)"

definition Halo_computeGlobalUniqueConsecutiveLocIndices ::
    "nat \<Rightarrow> (distance \<times> nat) list \<Rightarrow> halo \<Rightarrow> halo" where
  "Halo_computeGlobalUniqueConsecutiveLocIndices commSize glb h =
     (let (count, indices) = indexPatchObs glb (set (haloLocVector h))
            (replicate commSize 0, globalUniqueConsecutiveLocIndices h);
          prev = previousRanksCount count
      in h \<lparr> globalUniqueConsecutiveLocIndices :=
           fold (\<lambda>loc v. v[loc := v ! loc + prev ! snd (glb ! (haloLocVector h ! loc))])
             [0..<length indices] indices \<rparr>)"

definition Halo_setPatchObs :: "nat \<Rightarrow> nat \<Rightarrow> (distance \<times> nat) list \<Rightarrow> halo \<Rightarrow> halo" where
  "Halo_setPatchObs commSize myRank glb h =
     (let patchObsLoc = set (filter (\<lambda>i. snd (glb ! i) = myRank) (haloLocVector h));
          h = h \<lparr> patchObsBool := patchObsBool h @ map (\<lambda>g. g \<in> patchObsLoc) (haloLocVector h) \<rparr>;
          h = h \<lparr> recordDistancesFromCenter := Map.empty, haloLocRecords := [] \<rparr>;
          h = Halo_computeGlobalUniqueConsecutiveLocIndices commSize glb h
      in h \<lparr> haloLocVector := [] \<rparr>)"

definition Halo_computePatchLocs :: "('x, 'v) comm \<Rightarrow> halo list \<Rightarrow> halo list result" where
  "Halo_computePatchLocs c hs =
     (let hs = map (\<lambda>h. h \<lparr> recordsOutsideHalo := {} \<rparr>) hs;
          nglocs = c_max_size c (map Halo_nglocs hs)
      in if nglocs > 0
         then bind_result (map_result (\<lambda>(r, h). Halo_localDistances nglocs r h) (enumerate 0 hs))
           (\<lambda>locs. Inr (map (\<lambda>(r, h). Halo_setPatchObs (c_size c) r (c_minloc c locs) h) (enumerate 0 hs)))
         else Inr hs)"

definition Halo_patchObs :: "halo \<Rightarrow> bool list" where
  "Halo_patchObs h = patchObsBool h"

definition Halo_reductionImpl :: "('v list \<Rightarrow> 'v) \<Rightarrow> 'v list \<Rightarrow> 'v list" where
  "Halo_reductionImpl op xs = map (\<lambda>_. op xs) xs"

definition Halo_min :: "('x, 'v) comm \<Rightarrow> 'v list \<Rightarrow> 'v list" where
  "Halo_min c = Halo_reductionImpl (c_min c)"

definition Halo_max :: "('x, 'v) comm \<Rightarrow> 'v list \<Rightarrow> 'v list" where
  "Halo_max c = Halo_reductionImpl (c_max c)"

definition Halo_createAccumulator :: "halo \<Rightarrow> 'v :: zero \<Rightarrow> 'v general_accumulator" where
  "Halo_createAccumulator h init = GeneralDistributionAccumulator init (patchObsBool h)"

text \<open>
  The loop of \<open>allGathervImpl\<close> that copies the patch values into a vector of the right size, which starts
  with copies of the value \<open>T()\<close>, here \<open>initial\<close>.
\<close>

definition Halo_patchValues :: "'x \<Rightarrow> bool list \<Rightarrow> 'x list \<Rightarrow> 'x list" where
  "Halo_patchValues initial patchObs x =
     fst (fold (\<lambda>ii (xtmp, counter). if patchObs ! ii then (xtmp[counter := x ! ii], counter + 1) else (xtmp, counter))
       [0..<length x] (replicate (count_list patchObs True) initial, 0))"

definition Halo_allGatherv ::
    "('x, 'v) comm \<Rightarrow> 'x \<Rightarrow> halo list \<Rightarrow> 'x list list \<Rightarrow> 'x list list result" where
  "Halo_allGatherv c initial hs xss =
     (if list_all2 (\<lambda>h x. length x = length (patchObsBool h)) hs xss
      then Inr (map (\<lambda>_. c_allGatherv c (map2 (\<lambda>h x. Halo_patchValues initial (patchObsBool h) x) hs xss)) hs)
      else Inl AssertionFailed)"

definition Halo_globalUniqueConsecutiveLocationIndex :: "halo \<Rightarrow> nat \<Rightarrow> nat" where
  "Halo_globalUniqueConsecutiveLocationIndex h loc = globalUniqueConsecutiveLocIndices h ! loc"

section \<open>Record assignment\<close>

definition in_halo :: "(point2 \<Rightarrow> point2 \<Rightarrow> real) \<Rightarrow> halo_config \<Rightarrow> assign_call list \<Rightarrow> nat \<Rightarrow> bool" where
  "in_halo distance cfg calls rec \<longleftrightarrow>
     rec \<in> call_rec ` set calls \<and> distance (center cfg) (first_point calls rec) \<le> radius cfg"

lemma in_halo_snoc:
  "in_halo distance cfg (calls @ [c]) rec =
    (if rec \<in> call_rec ` set calls then in_halo distance cfg calls rec
     else rec = call_rec c \<and> distance (center cfg) (call_point c) \<le> radius cfg)"
  by (auto simp: in_halo_def first_point_append)

definition assigned_halo :: "(point2 \<Rightarrow> point2 \<Rightarrow> real) \<Rightarrow> halo_config \<Rightarrow> assign_call list \<Rightarrow> halo" where
  "assigned_halo distance cfg calls = fold (Halo_assignRecord distance cfg) calls Halo"

lemma filter_in_halo_snoc:
  "filter (\<lambda>c'. in_halo distance cfg (calls @ [c]) (call_rec c')) calls
    = filter (\<lambda>c'. in_halo distance cfg calls (call_rec c')) calls"
  by (rule filter_cong) (auto simp: in_halo_snoc)

lemma assigned_halo_state:
  "assigned_halo distance cfg calls =
    \<lparr> recordsInHalo = {rec. in_halo distance cfg calls rec}, patchObsBool = [],
      globalUniqueConsecutiveLocIndices = [],
      recordsOutsideHalo = {rec \<in> call_rec ` set calls. \<not> in_halo distance cfg calls rec},
      recordDistancesFromCenter = (\<lambda>rec. if in_halo distance cfg calls rec
         then Some (distance (center cfg) (first_point calls rec)) else None),
      haloLocRecords = map call_rec (filter (\<lambda>c. in_halo distance cfg calls (call_rec c)) calls),
      haloLocVector = kept_locs (in_halo distance cfg calls) calls \<rparr>"
proof (induction calls rule: rev_induct)
  case Nil
  then show ?case by (simp add: assigned_halo_def Halo_def in_halo_def)
next
  case (snoc c calls)
  have "assigned_halo distance cfg (calls @ [c]) = Halo_assignRecord distance cfg c (assigned_halo distance cfg calls)"
    by (simp add: assigned_halo_def)
  also have "\<dots> = \<lparr> recordsInHalo = {rec. in_halo distance cfg (calls @ [c]) rec}, patchObsBool = [],
      globalUniqueConsecutiveLocIndices = [],
      recordsOutsideHalo = {rec \<in> call_rec ` set (calls @ [c]). \<not> in_halo distance cfg (calls @ [c]) rec},
      recordDistancesFromCenter = (\<lambda>rec. if in_halo distance cfg (calls @ [c]) rec
         then Some (distance (center cfg) (first_point (calls @ [c]) rec)) else None),
      haloLocRecords = map call_rec (filter (\<lambda>c'. in_halo distance cfg (calls @ [c]) (call_rec c')) (calls @ [c])),
      haloLocVector = kept_locs (in_halo distance cfg (calls @ [c])) (calls @ [c]) \<rparr>"
    unfolding snoc.IH filter_append kept_locs_def filter_in_halo_snoc
    by (auto simp: Halo_assignRecord_def Halo_storeLocation_def Let_def in_halo_snoc first_point_append fun_eq_iff)
      (auto simp: in_halo_def)
  finally show ?case .
qed

interpretation halo: record_assigner
  "\<lambda>c h. Inr (Halo_assignRecord distance cfg c h)" Halo_isMyRecord Halo
  for distance cfg
proof
  fix calls s c s' rec
  assume "fold_result (\<lambda>c h. Inr (Halo_assignRecord distance cfg c h)) calls Halo = Inr s"
    and "Inr (Halo_assignRecord distance cfg c s) = (Inr s' :: halo result)" and rec: "rec \<in> call_rec ` set calls"
  then have s: "s = assigned_halo distance cfg calls" "s' = assigned_halo distance cfg (calls @ [c])"
    by (simp_all add: fold_result_total [where g = "Halo_assignRecord distance cfg"] assigned_halo_def)
  show "Halo_isMyRecord s' rec = Halo_isMyRecord s rec"
    using rec by (simp add: s Halo_isMyRecord_def assigned_halo_state in_halo_snoc)
qed

section \<open>A run of the ranks\<close>

record ('x, 'v) halo_world =
  hw_comm :: "('x, 'v) comm"
  hw_distance :: "point2 \<Rightarrow> point2 \<Rightarrow> real"
  hw_config :: "nat \<Rightarrow> halo_config"
  hw_calls :: "assign_call list"

definition hw_procs :: "('x, 'v) halo_world \<Rightarrow> nat" where
  "hw_procs w = c_size (hw_comm w)"

definition hw_assigned :: "('x, 'v) halo_world \<Rightarrow> nat \<Rightarrow> halo" where
  "hw_assigned w r = assigned_halo (hw_distance w) (hw_config w r) (hw_calls w)"

definition hw_states :: "('x, 'v) halo_world \<Rightarrow> halo list result" where
  "hw_states w = Halo_computePatchLocs (hw_comm w) (map (hw_assigned w) [0..<hw_procs w])"

definition hw_state :: "('x, 'v) halo_world \<Rightarrow> nat \<Rightarrow> halo" where
  "hw_state w r = (case hw_states w of Inr hs \<Rightarrow> hs ! r | Inl e \<Rightarrow> Halo)"

definition hw_held :: "('x, 'v) halo_world \<Rightarrow> nat \<Rightarrow> nat list" where
  "hw_held w r = kept_locs (Halo_isMyRecord (hw_assigned w r)) (hw_calls w)"

definition hw_patch :: "('x, 'v) halo_world \<Rightarrow> nat \<Rightarrow> bool list" where
  "hw_patch w r = Halo_patchObs (hw_state w r)"

definition hw_gindex :: "('x, 'v) halo_world \<Rightarrow> nat \<Rightarrow> nat \<Rightarrow> nat" where
  "hw_gindex w r = Halo_globalUniqueConsecutiveLocationIndex (hw_state w r)"

definition hw_inv :: "('x, 'v :: {comm_monoid_add, linorder}) halo_world \<Rightarrow> bool" where
  "hw_inv w \<longleftrightarrow> comm_ok (hw_comm w) \<and> sorted_wrt (<) (map call_loc (hw_calls w))"

text \<open>The distance of a location from the centre of a rank: that of the first location of its record.\<close>

fun record_of :: "assign_call list \<Rightarrow> nat \<Rightarrow> nat" where
  "record_of [] g = 0"
| "record_of (c # cs) g = (if call_loc c = g then call_rec c else record_of cs g)"

definition hw_dist :: "('x, 'v) halo_world \<Rightarrow> nat \<Rightarrow> nat \<Rightarrow> real" where
  "hw_dist w r g = hw_distance w (center (hw_config w r)) (first_point (hw_calls w) (record_of (hw_calls w) g))"

definition hw_nglocs :: "('x, 'v) halo_world \<Rightarrow> nat" where
  "hw_nglocs w = c_max_size (hw_comm w) (map (\<lambda>r. Halo_nglocs (hw_assigned w r)) [0..<hw_procs w])"

lemma record_of_call: "distinct (map call_loc calls) \<Longrightarrow> c \<in> set calls \<Longrightarrow> record_of calls (call_loc c) = call_rec c"
  by (induction calls) auto

lemma haloLocVector_assigned [simp]: "haloLocVector (hw_assigned w r) = hw_held w r"
  by (simp add: hw_held_def hw_assigned_def assigned_halo_state Halo_isMyRecord_def [abs_def])

lemma hw_distinct: "hw_inv w \<Longrightarrow> distinct (map call_loc (hw_calls w))"
  using strict_sorted_iff by (auto simp: hw_inv_def)

lemma hw_held_sorted: "hw_inv w \<Longrightarrow> sorted_wrt (<) (hw_held w r)"
  by (simp add: hw_held_def hw_inv_def sorted_kept_locs)

lemma hw_held_distinct: "hw_inv w \<Longrightarrow> distinct (hw_held w r)"
  using hw_held_sorted strict_sorted_iff by blast

lemma hw_held_less:
  assumes "hw_inv w" "r < hw_procs w" "g \<in> set (hw_held w r)"
  shows "g < hw_nglocs w"
proof -
  have "g \<le> last (hw_held w r)" using strict_sorted_less_last [OF hw_held_sorted [OF assms(1)] assms(3)] .
  also have "\<dots> < Halo_nglocs (hw_assigned w r)" using assms(3) by (auto simp: Halo_nglocs_def)
  also have "\<dots> \<le> hw_nglocs w"
    unfolding hw_nglocs_def using assms(1,2) by (intro mpi_max_ge) (auto simp: hw_inv_def comm_ok_def)
  finally show ?thesis .
qed

lemma hw_dist_at:
  assumes "hw_inv w" "i < length (hw_held w r)"
  shows "recordDistancesFromCenter (hw_assigned w r) (haloLocRecords (hw_assigned w r) ! i)
    = Some (hw_dist w r (hw_held w r ! i))"
proof -
  let ?P = "in_halo (hw_distance w) (hw_config w r) (hw_calls w)"
  let ?cs = "filter (\<lambda>c. ?P (call_rec c)) (hw_calls w)"
  have held: "hw_held w r = map call_loc ?cs"
    by (simp add: hw_held_def kept_locs_def hw_assigned_def assigned_halo_state Halo_isMyRecord_def)
  with assms(2) have i: "i < length ?cs" by simp
  then have c: "?cs ! i \<in> set (hw_calls w)" "?P (call_rec (?cs ! i))"
    using nth_mem [OF i] by (auto simp del: nth_mem)
  then have "record_of (hw_calls w) (call_loc (?cs ! i)) = call_rec (?cs ! i)"
    by (intro record_of_call hw_distinct assms)
  with c i show ?thesis by (simp add: held hw_assigned_def assigned_halo_state hw_dist_def)
qed

text \<open>\<open>dist_and_lidx_loc\<close>: the distance where the rank keeps the location, infinity elsewhere.\<close>

definition hw_local :: "('x, 'v) halo_world \<Rightarrow> nat \<Rightarrow> (distance \<times> nat) list" where
  "hw_local w r = fold (\<lambda>i v. v[hw_held w r ! i := (Dist (hw_dist w r (hw_held w r ! i)), r)])
     [0..<length (hw_held w r)] (replicate (hw_nglocs w) (Infinity, r))"

lemma hw_localDistances:
  assumes "hw_inv w"
  shows "Halo_localDistances (hw_nglocs w) r (hw_assigned w r \<lparr> recordsOutsideHalo := {} \<rparr>) = Inr (hw_local w r)"
  unfolding Halo_localDistances_def hw_local_def
  by (simp, rule fold_result_total) (simp add: hw_dist_at [OF assms])

lemma hw_local_nth:
  assumes "hw_inv w" "r < hw_procs w" "g < hw_nglocs w"
  shows "hw_local w r ! g = (if g \<in> set (hw_held w r) then Dist (hw_dist w r g) else Infinity, r)"
proof (cases "g \<in> set (hw_held w r)")
  case True
  then obtain i where i: "i < length (hw_held w r)" "hw_held w r ! i = g" by (auto simp: in_set_conv_nth)
  have "inj_on (\<lambda>i. hw_held w r ! i) {..<length (hw_held w r)}"
    using hw_held_distinct [OF assms(1)] by (auto intro: inj_on_nth)
  from fold_update_at [OF this i(1), of "replicate (hw_nglocs w) (Infinity, r)" "\<lambda>i. (Dist (hw_dist w r (hw_held w r ! i)), r)"]
  show ?thesis using True i assms(3) by (simp add: hw_local_def)
next
  case False
  then have "hw_local w r ! g = replicate (hw_nglocs w) (Infinity, r) ! g"
    unfolding hw_local_def by (intro fold_update_other) (auto dest: nth_mem)
  with False assms(3) show ?thesis by simp
qed

text \<open>\<open>dist_and_lidx_glb\<close> and the rank that owns a location.\<close>

definition hw_global :: "('x, 'v) halo_world \<Rightarrow> (distance \<times> nat) list" where
  "hw_global w = c_minloc (hw_comm w) (map (hw_local w) [0..<hw_procs w])"

definition hw_owner :: "('x, 'v) halo_world \<Rightarrow> nat \<Rightarrow> nat" where
  "hw_owner w g = snd (hw_global w ! g)"

lemma hw_global_mpi:
  assumes "hw_inv w"
  shows "length (hw_global w) = hw_nglocs w"
    and "g < hw_nglocs w \<Longrightarrow> \<exists>r < hw_procs w. hw_global w ! g = hw_local w r ! g"
    and "g < hw_nglocs w \<Longrightarrow> r < hw_procs w \<Longrightarrow> loc_le (hw_global w ! g) (hw_local w r ! g)"
proof -
  have m: "mpi_minloc (c_minloc (hw_comm w))" and ne: "map (hw_local w) [0..<hw_procs w] \<noteq> []"
    using assms by (auto simp: hw_inv_def comm_ok_def hw_procs_def)
  have len: "length xs = hw_nglocs w" if "xs \<in> set (map (hw_local w) [0..<hw_procs w])" for xs
    using that by (auto simp: hw_local_def)
  show "length (hw_global w) = hw_nglocs w"
    unfolding hw_global_def by (rule mpi_minloc_length [OF m ne len])
  show "\<exists>r < hw_procs w. hw_global w ! g = hw_local w r ! g" if "g < hw_nglocs w"
    using mpi_minloc_mem [OF m ne len that] by (auto simp: hw_global_def)
  show "loc_le (hw_global w ! g) (hw_local w r ! g)" if "g < hw_nglocs w" "r < hw_procs w"
    using mpi_minloc_le [OF m ne len that(1), of "hw_local w r"] that(2) by (simp add: hw_global_def)
qed

lemma hw_covered:
  assumes "hw_inv w" "g < hw_nglocs w"
  shows "fst (hw_global w ! g) < Infinity \<longleftrightarrow> (\<exists>r < hw_procs w. g \<in> set (hw_held w r))"
proof
  obtain r where r: "r < hw_procs w" "hw_global w ! g = hw_local w r ! g"
    using hw_global_mpi(2) [OF assms] by blast
  assume "fst (hw_global w ! g) < Infinity"
  then have "g \<in> set (hw_held w r)" using r hw_local_nth [OF assms(1) r(1) assms(2)] by (auto split: if_splits)
  with r(1) show "\<exists>r < hw_procs w. g \<in> set (hw_held w r)" by blast
next
  assume "\<exists>r < hw_procs w. g \<in> set (hw_held w r)"
  then obtain r where r: "r < hw_procs w" "g \<in> set (hw_held w r)" by blast
  with hw_global_mpi(3) [OF assms r(1)] hw_local_nth [OF assms(1) r(1) assms(2)]
  show "fst (hw_global w ! g) < Infinity" by (auto simp: loc_le_def)
qed

text \<open>The owner keeps the location, and no rank that keeps it is nearer.\<close>

lemma hw_owner_holds:
  assumes "hw_inv w" "r < hw_procs w" "g \<in> set (hw_held w r)"
  shows "hw_owner w g < hw_procs w" and "g \<in> set (hw_held w (hw_owner w g))"
    and "hw_dist w (hw_owner w g) g \<le> hw_dist w r g"
    and "hw_dist w r g = hw_dist w (hw_owner w g) g \<Longrightarrow> hw_owner w g \<le> r"
proof -
  have g: "g < hw_nglocs w" using hw_held_less [OF assms] .
  obtain r' where r': "r' < hw_procs w" "hw_global w ! g = hw_local w r' ! g"
    using hw_global_mpi(2) [OF assms(1) g] by blast
  note loc = hw_local_nth [OF assms(1) r'(1) g] and loc_r = hw_local_nth [OF assms(1,2) g]
  have owner: "hw_owner w g = r'" by (simp add: hw_owner_def r'(2) loc)
  have le: "loc_le (hw_local w r' ! g) (hw_local w r ! g)" using hw_global_mpi(3) [OF assms(1) g assms(2)] r'(2) by simp
  have held: "g \<in> set (hw_held w r')" using le assms(3) by (auto simp: loc loc_r loc_le_def split: if_splits)
  show "hw_owner w g < hw_procs w" "g \<in> set (hw_held w (hw_owner w g))" using r'(1) held owner by simp_all
  show "hw_dist w (hw_owner w g) g \<le> hw_dist w r g" using le assms(3) held by (auto simp: owner loc loc_r loc_le_def)
  show "hw_owner w g \<le> r" if "hw_dist w r g = hw_dist w (hw_owner w g) g"
    using le assms(3) held that by (auto simp: owner loc loc_r loc_le_def)
qed

subsection \<open>The numbering of the locations\<close>

text \<open>The locations a rank owns, and the number \<open>computeGlobalUniqueConsecutiveLocIndices\<close> gives a location.\<close>

definition hw_owned :: "('x, 'v) halo_world \<Rightarrow> nat \<Rightarrow> nat \<Rightarrow> bool" where
  "hw_owned w r g \<longleftrightarrow> fst (hw_global w ! g) < Infinity \<and> hw_owner w g = r"

definition hw_owned_locs :: "('x, 'v) halo_world \<Rightarrow> nat \<Rightarrow> nat list" where
  "hw_owned_locs w r = filter (hw_owned w r) [0..<hw_nglocs w]"

definition hw_number :: "('x, 'v) halo_world \<Rightarrow> nat \<Rightarrow> nat" where
  "hw_number w g = length (filter (hw_owned w (hw_owner w g)) [0..<g])
     + block_start (map (hw_owned_locs w) [0..<hw_procs w]) (hw_owner w g)"

lemma indexPatchObs_eq:
  assumes "\<And>g. g < length glb \<Longrightarrow> fst (glb ! g) < Infinity \<Longrightarrow> snd (glb ! g) < n"
  shows "indexPatchObs glb H (replicate n 0, idx)
    = (map (\<lambda>r. length (filter (\<lambda>g. fst (glb ! g) < Infinity \<and> snd (glb ! g) = r) [0..<length glb])) [0..<n],
       idx @ map (\<lambda>g. length (filter (\<lambda>g'. fst (glb ! g') < Infinity \<and> snd (glb ! g') = snd (glb ! g)) [0..<g]))
         (filter (\<lambda>g. fst (glb ! g) < Infinity \<and> g \<in> H) [0..<length glb]))"
proof -
  let ?step = "\<lambda>gloc (count, indices). if fst (glb ! gloc) < Infinity
         then let own = snd (glb ! gloc)
              in (count[own := count ! own + 1], if gloc \<in> H then indices @ [count ! own] else indices)
         else (count, indices)"
  have "fold ?step [0..<k] (replicate n 0, idx)
    = (map (\<lambda>r. length (filter (\<lambda>g. fst (glb ! g) < Infinity \<and> snd (glb ! g) = r) [0..<k])) [0..<n],
       idx @ map (\<lambda>g. length (filter (\<lambda>g'. fst (glb ! g') < Infinity \<and> snd (glb ! g') = snd (glb ! g)) [0..<g]))
         (filter (\<lambda>g. fst (glb ! g) < Infinity \<and> g \<in> H) [0..<k]))" if "k \<le> length glb" for k
    using that
  proof (induction k)
    case 0
    then show ?case by (simp add: map_replicate_const)
  next
    case (Suc k)
    then have k: "k < length glb" by simp
    show ?case
    proof (cases "fst (glb ! k) < Infinity")
      case True
      then have "snd (glb ! k) < n" using assms [OF k] by blast
      then show ?thesis using Suc True by (auto simp: Let_def intro!: nth_equalityI simp: nth_list_update)
    next
      case False
      then show ?thesis using Suc by simp
    qed
  qed
  then show ?thesis unfolding indexPatchObs_def by simp
qed

lemma previousRanksCount_eq: "previousRanksCount count = exscan count"
proof (cases "count = []")
  case False
  then show ?thesis using exscan_loop [of "length count" count] by (simp add: previousRanksCount_def exscan_def)
qed (simp add: previousRanksCount_def exscan_def)

lemma hw_held_as_filter:
  assumes "hw_inv w" "r < hw_procs w"
  shows "filter (\<lambda>g. fst (hw_global w ! g) < Infinity \<and> g \<in> set (hw_held w r)) [0..<hw_nglocs w] = hw_held w r"
proof -
  have "hw_held w r = filter (\<lambda>g. g \<in> set (hw_held w r)) [0..<hw_nglocs w]"
    using hw_held_less [OF assms] by (intro strict_sorted_as_filter hw_held_sorted assms) auto
  also have "\<dots> = filter (\<lambda>g. fst (hw_global w ! g) < Infinity \<and> g \<in> set (hw_held w r)) [0..<hw_nglocs w]"
    using hw_covered [OF assms(1)] assms(2) by (intro filter_cong) auto
  finally show ?thesis by simp
qed

lemma hw_indices:
  assumes "hw_inv w" "r < hw_procs w" "globalUniqueConsecutiveLocIndices h = []" "haloLocVector h = hw_held w r"
  shows "globalUniqueConsecutiveLocIndices (Halo_computeGlobalUniqueConsecutiveLocIndices (hw_procs w) (hw_global w) h)
    = map (hw_number w) (hw_held w r)"
proof -
  have own: "snd (hw_global w ! g) < hw_procs w" if "g < length (hw_global w)" "fst (hw_global w ! g) < Infinity" for g
    using that hw_covered [OF assms(1)] hw_owner_holds(1) [OF assms(1)] hw_global_mpi(1) [OF assms(1)]
    by (auto simp: hw_owner_def)
  have prev: "previousRanksCount (map (\<lambda>r. length (hw_owned_locs w r)) [0..<hw_procs w]) ! hw_owner w g
      = block_start (map (hw_owned_locs w) [0..<hw_procs w]) (hw_owner w g)" if "g \<in> set (hw_held w r)" for g
    using hw_owner_holds(1) [OF assms(1,2) that]
    by (simp add: previousRanksCount_eq block_start_def comp_def flip: take_map)
  have "indexPatchObs (hw_global w) (set (hw_held w r)) (replicate (hw_procs w) 0, [])
    = (map (\<lambda>r. length (hw_owned_locs w r)) [0..<hw_procs w],
       map (\<lambda>g. length (filter (hw_owned w (hw_owner w g)) [0..<g])) (hw_held w r))"
    using own hw_global_mpi(1) [OF assms(1)] hw_held_as_filter [OF assms(1,2)]
    by (subst indexPatchObs_eq) (auto simp: hw_owned_locs_def hw_owned_def [abs_def] hw_owner_def)
  then show ?thesis
    using assms(3,4) prev
    by (auto simp: Halo_computeGlobalUniqueConsecutiveLocIndices_def fold_modify_all hw_number_def hw_owner_def [symmetric]
        intro!: nth_equalityI)
qed

lemma hw_states_eq:
  assumes "hw_inv w"
  shows "hw_states w = Inr (map (\<lambda>r.
     let h = hw_assigned w r \<lparr> recordsOutsideHalo := {} \<rparr>
     in if hw_nglocs w > 0 then Halo_setPatchObs (hw_procs w) r (hw_global w) h else h) [0..<hw_procs w])"
proof -
  let ?h = "\<lambda>r. hw_assigned w r \<lparr> recordsOutsideHalo := {} \<rparr>"
  have n: "c_max_size (hw_comm w) (map Halo_nglocs (map ?h [0..<hw_procs w])) = hw_nglocs w"
    by (simp add: hw_nglocs_def Halo_nglocs_def comp_def cong: if_cong)
  have e: "enumerate 0 (map ?h [0..<hw_procs w]) = map (\<lambda>r. (r, ?h r)) [0..<hw_procs w]"
    by (auto simp: enumerate_eq_zip intro!: nth_equalityI)
  have "map_result (\<lambda>(r, h). Halo_localDistances (hw_nglocs w) r h) (map (\<lambda>r. (r, ?h r)) [0..<hw_procs w])
      = Inr (map (hw_local w) [0..<hw_procs w])"
    by (subst map_result_map) (intro map_result_Inr, simp add: hw_localDistances [OF assms])
  then show ?thesis
    using n e by (auto simp: hw_states_def Halo_computePatchLocs_def Let_def comp_def hw_global_def hw_procs_def)
qed

lemma hw_state_fields:
  assumes "hw_inv w" "r < hw_procs w"
  shows "patchObsBool (hw_state w r) = map (\<lambda>g. hw_owner w g = r) (hw_held w r)"
    and "globalUniqueConsecutiveLocIndices (hw_state w r) = map (hw_number w) (hw_held w r)"
proof -
  let ?h = "hw_assigned w r \<lparr> recordsOutsideHalo := {} \<rparr>"
  have h: "patchObsBool ?h = []" "globalUniqueConsecutiveLocIndices ?h = []" "haloLocVector ?h = hw_held w r"
    by (simp_all add: hw_assigned_def assigned_halo_state hw_held_def Halo_isMyRecord_def [abs_def])
  have state: "hw_state w r = (if hw_nglocs w > 0 then Halo_setPatchObs (hw_procs w) r (hw_global w) ?h else ?h)"
    using assms(2) by (simp add: hw_state_def hw_states_eq [OF assms(1)] Let_def)
  show "patchObsBool (hw_state w r) = map (\<lambda>g. hw_owner w g = r) (hw_held w r)"
  proof (cases "hw_nglocs w > 0")
    case True
    then show ?thesis using h
      by (simp add: state Halo_setPatchObs_def Let_def Halo_computeGlobalUniqueConsecutiveLocIndices_def hw_owner_def split_def)
  next
    case False
    then have "hw_held w r = []" using hw_held_less [OF assms] by (metis gr_zeroI last_in_set less_zeroE)
    with False h show ?thesis by (simp add: state)
  qed
  show "globalUniqueConsecutiveLocIndices (hw_state w r) = map (hw_number w) (hw_held w r)"
  proof (cases "hw_nglocs w > 0")
    case True
    then show ?thesis using h hw_indices [OF assms]
      by (simp add: state Halo_setPatchObs_def Let_def)
  next
    case False
    then have "hw_held w r = []" using hw_held_less [OF assms] by (metis gr_zeroI last_in_set less_zeroE)
    with False h show ?thesis by (simp add: state)
  qed
qed

lemma hw_patch_eq:
  "hw_inv w \<Longrightarrow> r < hw_procs w \<Longrightarrow> hw_patch w r = map (\<lambda>g. hw_owner w g = r) (hw_held w r)"
  by (simp add: hw_patch_def Halo_patchObs_def hw_state_fields)

lemma hw_select_patch:
  assumes "hw_inv w" "r < hw_procs w"
  shows "select_mask (hw_patch w r) (hw_held w r) = hw_owned_locs w r"
proof -
  have "hw_owned_locs w r = filter (\<lambda>g. (fst (hw_global w ! g) < Infinity \<and> g \<in> set (hw_held w r)) \<and> hw_owner w g = r) [0..<hw_nglocs w]"
    unfolding hw_owned_locs_def hw_owned_def
    using hw_covered [OF assms(1)] hw_owner_holds(2) [OF assms(1)] by (intro filter_cong) auto
  also have "\<dots> = filter (\<lambda>g. hw_owner w g = r) (hw_held w r)"
    by (subst hw_held_as_filter [OF assms, symmetric]) (simp add: conj_commute cong: conj_cong)
  finally show ?thesis by (simp add: hw_patch_eq [OF assms] select_mask_by_pred)
qed

definition hw_gathered :: "('x, 'v) halo_world \<Rightarrow> nat list" where
  "hw_gathered w = gathered_locs (hw_procs w) (hw_held w) (hw_patch w)"

lemma hw_gathered_eq:
  "hw_inv w \<Longrightarrow> hw_gathered w = concat (map (hw_owned_locs w) [0..<hw_procs w])"
  unfolding gathered_locs_def hw_gathered_def by (intro arg_cong [where f = concat] map_cong refl) (simp add: hw_select_patch)

section \<open>The contract\<close>

interpretation halo: distribution hw_inv hw_procs hw_held hw_patch
proof
  fix w :: "('x, 'v :: {comm_monoid_add, linorder}) halo_world" and r r' g
  assume w: "hw_inv w" and r: "r < hw_procs w"
  show "length (hw_patch w r) = length (hw_held w r)" by (simp add: hw_patch_eq [OF w r])
  show "distinct (hw_held w r)" by (rule hw_held_distinct [OF w])
  show "\<exists>r' < hw_procs w. g \<in> set (select_mask (hw_patch w r') (hw_held w r'))" if g: "g \<in> set (hw_held w r)"
  proof (intro exI conjI)
    show "hw_owner w g < hw_procs w" by (rule hw_owner_holds(1) [OF w r g])
    then show "g \<in> set (select_mask (hw_patch w (hw_owner w g)) (hw_held w (hw_owner w g)))"
      using hw_owner_holds(2) [OF w r g] by (simp add: hw_patch_eq [OF w] select_mask_by_pred)
  qed
  show "r = r'" if "r' < hw_procs w" "g \<in> set (select_mask (hw_patch w r) (hw_held w r))"
      "g \<in> set (select_mask (hw_patch w r') (hw_held w r'))"
    using that r by (simp add: hw_patch_eq [OF w] select_mask_by_pred)
qed

lemma Halo_patchValues_eq:
  assumes "length patchObs = length x"
  shows "Halo_patchValues initial patchObs x = select_mask patchObs x"
proof -
  let ?step = "\<lambda>ii (xtmp, counter). if patchObs ! ii then (xtmp[counter := x ! ii], counter + 1) else (xtmp, counter)"
  let ?sel = "\<lambda>k. select_mask (take k patchObs) (take k x)"
  have snoc: "?sel (Suc k) = ?sel k @ (if patchObs ! k then [x ! k] else [])" if "k < length x" for k
    using that assms by (simp add: take_Suc_conv_app_nth select_mask_append)
  have len: "length (?sel k) + count_list (drop k patchObs) True = count_list patchObs True" if "k \<le> length x" for k
  proof -
    have "((=) True) = id" by auto
    then have "length (?sel k) = count_list (take k patchObs) True"
      using that assms by (simp add: length_select_mask count_list_eq_length_filter)
    then show ?thesis by (simp flip: count_list_append)
  qed
  have "fold ?step [0..<k] (replicate (count_list patchObs True) initial, 0)
      = (?sel k @ replicate (count_list (drop k patchObs) True) initial, length (?sel k))" if "k \<le> length x" for k
    using that
  proof (induction k)
    case 0
    then show ?case by simp
  next
    case (Suc k)
    then have k: "k < length x" by simp
    then have "drop k patchObs = patchObs ! k # drop (Suc k) patchObs" using assms by (simp add: Cons_nth_drop_Suc)
    then show ?case using Suc k by (simp add: snoc [OF k] list_update_append)
  qed
  from this [of "length x"] show ?thesis using assms by (simp add: Halo_patchValues_def)
qed

definition hw_all_states :: "('x, 'v) halo_world \<Rightarrow> halo list" where
  "hw_all_states w = map (hw_state w) [0..<hw_procs w]"

interpretation halo: gathering_distribution hw_inv hw_procs hw_held hw_patch hw_gathered
  "\<lambda>w. Halo_allGatherv (hw_comm w) initial (hw_all_states w)" hw_gindex
  for initial :: 'x
proof
  fix w :: "('x, 'v :: {comm_monoid_add, linorder}) halo_world" and r i and f :: "nat \<Rightarrow> 'x"
  assume w: "hw_inv w"
  show "distinct (hw_gathered w)" "set (hw_gathered w) = all_locs (hw_procs w) (hw_held w)"
    using halo.distinct_gathered [OF w] halo.set_gathered [OF w] by (simp_all add: hw_gathered_def)
  have "list_all2 (\<lambda>h x. length x = length (patchObsBool h)) (hw_all_states w)
      (map (\<lambda>r. map f (hw_held w r)) [0..<hw_procs w])"
    using w by (simp add: list_all2_conv_all_nth hw_state_fields hw_all_states_def)
  moreover have "map2 (\<lambda>h x. Halo_patchValues initial (patchObsBool h) x) (hw_all_states w)
      (map (\<lambda>r. map f (hw_held w r)) [0..<hw_procs w]) = map (\<lambda>r. map f (hw_owned_locs w r)) [0..<hw_procs w]"
    unfolding hw_all_states_def map2_map_upt using w
    by (intro map_cong refl)
       (simp add: Halo_patchValues_eq select_mask_map hw_select_patch halo.patch_length
         flip: Halo_patchObs_def hw_patch_def)
  moreover have "c_allGatherv (hw_comm w) xss = concat xss" for xss
    using w by (simp add: hw_inv_def comm_ok_def mpi_allGatherv_eq)
  ultimately show "Halo_allGatherv (hw_comm w) initial (hw_all_states w) (map (\<lambda>r. map f (hw_held w r)) [0..<hw_procs w])
      = Inr (map (\<lambda>_. map f (hw_gathered w)) [0..<hw_procs w])"
    using w by (simp add: Halo_allGatherv_def hw_gathered_eq map_concat comp_def hw_all_states_def)
  assume r: "r < hw_procs w" and i: "i < length (hw_held w r)"
  let ?g = "hw_held w r ! i" and ?blocks = "map (hw_owned_locs w) [0..<hw_procs w]"
  have g: "?g \<in> set (hw_held w r)" using i by simp
  note own = hw_owner_holds(1) [OF w r g] and ng = hw_held_less [OF w r g]
  have ix: "hw_gindex w r i = block_start ?blocks (hw_owner w ?g) + length (filter (hw_owned w (hw_owner w ?g)) [0..<?g])"
    using i by (simp add: hw_gindex_def Halo_globalUniqueConsecutiveLocationIndex_def hw_state_fields [OF w r] hw_number_def)
  have "hw_owned w (hw_owner w ?g) ?g" using hw_covered [OF w ng] r g by (auto simp: hw_owned_def)
  note pos = filter_upt_nth [where P = "hw_owned w (hw_owner w ?g)", OF this ng, folded hw_owned_locs_def]
  show "hw_gindex w r i < length (hw_gathered w)"
    using block_index_less [of "hw_owner w ?g" ?blocks] own pos(1) by (simp add: hw_gathered_eq [OF w] ix)
  show "hw_gathered w ! hw_gindex w r i = ?g"
    using concat_nth_block [of "hw_owner w ?g" ?blocks] own pos by (simp add: hw_gathered_eq [OF w] ix)
qed

interpretation halo: reducing_distribution hw_inv hw_procs hw_held hw_patch
  "\<lambda>w. Halo_min (hw_comm w)" "\<lambda>w. Halo_max (hw_comm w)"
proof
  fix w :: "('x, 'v :: {comm_monoid_add, linorder}) halo_world" and q :: "nat \<Rightarrow> 'v"
  assume w: "hw_inv w" and ne: "\<And>r. r < hw_procs w \<Longrightarrow> hw_held w r \<noteq> []"
  have n: "hw_procs w > 0" and mpi: "mpi_min (c_min (hw_comm w))" "mpi_max (c_max (hw_comm w))"
    using w by (simp_all add: hw_inv_def comm_ok_def hw_procs_def)
  show "Halo_min (hw_comm w) (map (\<lambda>r. Min (q ` set (hw_held w r))) [0..<hw_procs w])
      = map (\<lambda>_. Min (q ` all_locs (hw_procs w) (hw_held w))) [0..<hw_procs w]"
    using halo.general_min [OF mpi(1) n ne, of q]
    by (simp add: Halo_min_def Halo_reductionImpl_def comp_def)
  show "Halo_max (hw_comm w) (map (\<lambda>r. Max (q ` set (hw_held w r))) [0..<hw_procs w])
      = map (\<lambda>_. Max (q ` all_locs (hw_procs w) (hw_held w))) [0..<hw_procs w]"
    using halo.general_max [OF mpi(2) n ne, of q]
    by (simp add: Halo_max_def Halo_reductionImpl_def comp_def)
qed

interpretation halo: summing_distribution hw_inv hw_procs hw_held hw_patch
  "\<lambda>w r. Halo_createAccumulator (hw_state w r) 0" GeneralDistributionAccumulator_addTerm
  "\<lambda>w. GeneralDistributionAccumulator_computeResult (c_sum (hw_comm w))"
proof
  fix w :: "('x, 'v :: {comm_monoid_add, linorder}) halo_world" and q :: "nat \<Rightarrow> 'v"
  assume w: "hw_inv w"
  then have "mpi_sum (c_sum (hw_comm w))" by (simp add: hw_inv_def comm_ok_def)
  from halo.general_sums_once [OF w this, of q]
  show "GeneralDistributionAccumulator_computeResult (c_sum (hw_comm w))
      (map (\<lambda>r. fold (\<lambda>i. GeneralDistributionAccumulator_addTerm i (q (hw_held w r ! i)))
          [0..<length (hw_held w r)] (Halo_createAccumulator (hw_state w r) 0)) [0..<hw_procs w])
      = map (\<lambda>_. sum q (all_locs (hw_procs w) (hw_held w))) [0..<hw_procs w]"
    by (simp add: Halo_createAccumulator_def hw_patch_def Halo_patchObs_def)
qed

interpretation halo: counting_distribution hw_inv hw_procs hw_held hw_patch
  "\<lambda>w r. Halo_createAccumulator (hw_state w r) 0" GeneralDistributionAccumulator_addTerm
  "\<lambda>w. GeneralDistributionAccumulator_computeResult (c_sum (hw_comm w))"
  by unfold_locales

interpretation halo: product_distribution hw_inv hw_procs hw_held hw_patch
  "\<lambda>w r. Halo_createAccumulator (hw_state w r) 0" GeneralDistributionAccumulator_addTerm
  "\<lambda>w. GeneralDistributionAccumulator_computeResult (c_sum (hw_comm w))"
  by unfold_locales

section \<open>Properties\<close>

text \<open>Two ranks with centres 0 and 10 and radius 6, and three records of one location each.\<close>

definition halo_example :: "(nat, nat) halo_world" where
  "halo_example = \<lparr> hw_comm = seq_comm 2, hw_distance = (\<lambda>a b. \<bar>fst a - fst b\<bar>),
     hw_config = (\<lambda>r. Halo_config r 2 (Some (10 * real r, 0)) 5 1),
     hw_calls = [(0, 0, (1, 0)), (1, 2, (6, 0)), (2, 3, (9, 0))] \<rparr>"

lemma halo_example_inv: "hw_inv halo_example"
  by (simp add: hw_inv_def halo_example_def comm_ok_seq_comm)

lemma halo_example_procs [simp]: "hw_procs halo_example = 2"
  by (simp add: hw_procs_def halo_example_def seq_comm_def)

lemma halo_example_held: "hw_held halo_example 0 = [0, 2]" "hw_held halo_example (Suc 0) = [2, 3]"
  by (simp_all add: hw_held_def hw_assigned_def halo_example_def Halo_config_def assigned_halo_state
      Halo_isMyRecord_def in_halo_def)

text \<open>C1. After \<open>Halo::computePatchLocs()\<close> the patch observations form a complete, non-overlapping
  partition of the locations held by the ranks: the patch locations of all ranks, joined, are exactly
  the held locations, each of them once.\<close>

theorem Halo_patch_partition:
  assumes "hw_inv w"
  shows "set (gathered_locs (hw_procs w) (hw_held w) (hw_patch w)) = all_locs (hw_procs w) (hw_held w)
    \<and> distinct (gathered_locs (hw_procs w) (hw_held w) (hw_patch w))"
  using halo.set_gathered [OF assms] halo.distinct_gathered [OF assms] by simp

theorem Halo_patch_partition_witness:
  "set (gathered_locs 2 (hw_held halo_example) (hw_patch halo_example)) = {0, 2, 3}
    \<and> distinct (gathered_locs 2 (hw_held halo_example) (hw_patch halo_example))"
  using Halo_patch_partition [OF halo_example_inv] halo_example_held
  by (auto simp: all_locs_def numeral_2_eq_2 less_Suc_eq)


lemma halo_example_dist: "hw_dist halo_example 0 2 = 6" "hw_dist halo_example (Suc 0) 2 = 4"
  by (simp_all add: hw_dist_def halo_example_def Halo_config_def)

lemma halo_example_patch: "hw_patch halo_example (Suc 0) ! 0"
proof -
  have 2: "2 \<in> set (hw_held halo_example (Suc 0))" by (simp add: halo_example_held)
  have "hw_owner halo_example 2 < Suc (Suc 0)" "hw_dist halo_example (hw_owner halo_example 2) 2 \<le> 4"
    using hw_owner_holds(1,3) [OF halo_example_inv _ 2] by (simp_all add: halo_example_dist)
  then have "hw_owner halo_example 2 = Suc 0" using halo_example_dist(1) by (cases "hw_owner halo_example 2") auto
  then show ?thesis by (simp add: hw_patch_eq [OF halo_example_inv] halo_example_held)
qed


text \<open>C3. \<open>Halo::allGatherv()\<close> and \<open>globalUniqueConsecutiveLocationIndex()\<close> agree: for any quantity \<open>f\<close> of
  locations, gathering the local vectors succeeds, every rank receives the same vector \<open>y\<close>, and the value of the \<open>i\<close>th
  location of rank \<open>r\<close> stands in \<open>y\<close> at that location's index, also where another rank owns it.\<close>

theorem Halo_gather_index:
  fixes w :: "('x, 'v :: {comm_monoid_add, linorder}) halo_world" and f :: "nat \<Rightarrow> 'x"
  assumes "hw_inv w"
  shows "\<exists>y. Halo_allGatherv (hw_comm w) initial (hw_all_states w) (map (\<lambda>r. map f (hw_held w r)) [0..<hw_procs w])
        = Inr (replicate (hw_procs w) y)
      \<and> length y = card (all_locs (hw_procs w) (hw_held w))
      \<and> (\<forall>r i. r < hw_procs w \<and> i < length (hw_held w r) \<longrightarrow>
           hw_gindex w r i < length y \<and> y ! hw_gindex w r i = f (hw_held w r ! i))"
  using halo.gathers [OF assms, of initial f] halo.gathered_value [OF assms, of _ _ f] halo.gindex_bound [OF assms]
    halo.gathered_length [OF assms]
  by (intro exI [of _ "map f (hw_gathered w)"]) (simp add: map_replicate_const)

theorem Halo_gather_index_witness:
  "\<exists>y. Halo_allGatherv (hw_comm halo_example) 7 (hw_all_states halo_example) [[0, 20], [20, 30]] = Inr [y, y]
     \<and> length y = 3"
  using Halo_gather_index [OF halo_example_inv, of 7 "\<lambda>g. 10 * g"]
  by (auto simp: halo_example_held upt_rec numeral_2_eq_2 all_locs_def lessThan_Suc insert_commute)

text \<open>C5. The numbers \<open>Halo\<close> gives to locations are consecutive from 0, the same on every rank that keeps a
  location, and different for different locations.\<close>

theorem Halo_index_consecutive:
  assumes "hw_inv w"
  shows "{hw_gindex w r i | r i. r < hw_procs w \<and> i < length (hw_held w r)} = {..< card (all_locs (hw_procs w) (hw_held w))}
    \<and> (\<forall>r i r' i'. r < hw_procs w \<and> i < length (hw_held w r) \<and> r' < hw_procs w \<and> i' < length (hw_held w r') \<longrightarrow>
         (hw_gindex w r i = hw_gindex w r' i') = (hw_held w r ! i = hw_held w r' ! i'))"
  using halo.gindex_range [OF assms] halo.gindex_eq_iff [OF assms] by blast

theorem Halo_index_consecutive_witness:
  "hw_gindex halo_example 0 1 = hw_gindex halo_example 1 0"
  using Halo_index_consecutive [OF halo_example_inv] by (simp add: halo_example_held)

text \<open>C7. Under \<open>Halo\<close>, \<open>dotProduct()\<close> returns on every rank the sum over the distinct locations of the
  products of the values that are not missing: locations kept by several ranks count once.\<close>

theorem Halo_dotProduct:
  fixes w :: "('x, real) halo_world"
  assumes "hw_inv w" "nv > 0"
  shows "dotProduct GeneralDistributionAccumulator_addTerm (GeneralDistributionAccumulator_computeResult (c_sum (hw_comm w)))
      missing nv (map (\<lambda>r. Halo_createAccumulator (hw_state w r) 0) [0..<hw_procs w])
      (map (\<lambda>r. (interleave nv f (hw_held w r), interleave nv h (hw_held w r))) [0..<hw_procs w])
    = Inr (replicate (hw_procs w) (\<Sum>g \<in> all_locs (hw_procs w) (hw_held w). \<Sum>j < nv.
        if f g j \<noteq> missing \<and> h g j \<noteq> missing then f g j * h g j else 0))"
  using halo.product_once [OF assms, of missing f h] by (simp add: map_replicate_const)

definition halo_example_real :: "(nat, real) halo_world" where
  "halo_example_real = \<lparr> hw_comm = seq_comm 2, hw_distance = (\<lambda>a b. \<bar>fst a - fst b\<bar>),
     hw_config = (\<lambda>r. Halo_config r 2 (Some (10 * real r, 0)) 5 1),
     hw_calls = [(0, 0, (1, 0)), (1, 2, (6, 0)), (2, 3, (9, 0))] \<rparr>"

lemma halo_example_real_inv: "hw_inv halo_example_real"
  by (simp add: hw_inv_def halo_example_real_def comm_ok_seq_comm)

lemma halo_example_real_held:
  "hw_held halo_example_real 0 = [0, 2]" "hw_held halo_example_real (Suc 0) = [2, 3]" "hw_procs halo_example_real = 2"
  by (simp_all add: hw_held_def hw_assigned_def halo_example_real_def Halo_config_def assigned_halo_state
      Halo_isMyRecord_def in_halo_def hw_procs_def seq_comm_def)

theorem Halo_dotProduct_witness:
  "dotProduct GeneralDistributionAccumulator_addTerm
      (GeneralDistributionAccumulator_computeResult (c_sum (hw_comm halo_example_real)))
      (-1) 1 (map (\<lambda>r. Halo_createAccumulator (hw_state halo_example_real r) 0) [0, 1])
      [([0, 2], [5, 5]), ([2, 3], [5, 5])] = Inr [25, 25]"
  using Halo_dotProduct [OF halo_example_real_inv zero_less_one, of "-1" "\<lambda>g j. real g" "\<lambda>g j. 5"]
  by (simp add: halo_example_real_held interleave_def upt_rec all_locs_def numeral_2_eq_2 lessThan_Suc insert_commute)

text \<open>C8. Under \<open>Halo\<close>, \<open>globalNumNonMissingObs()\<close> counts each pair of location and variable whose value is not
  missing once, on every rank.\<close>

theorem Halo_globalNumNonMissingObs:
  fixes w :: "('x, nat) halo_world"
  assumes "hw_inv w" "nv > 0"
  shows "globalNumNonMissingObs GeneralDistributionAccumulator_addTerm
      (GeneralDistributionAccumulator_computeResult (c_sum (hw_comm w))) missing nv
      (map (\<lambda>r. Halo_createAccumulator (hw_state w r) 0) [0..<hw_procs w])
      (map (\<lambda>r. interleave nv f (hw_held w r)) [0..<hw_procs w])
    = replicate (hw_procs w) (card {(g, j). g \<in> all_locs (hw_procs w) (hw_held w) \<and> j < nv \<and> f g j \<noteq> missing})"
  using halo.counts_once [OF assms, of missing f] by (simp add: map_replicate_const)

theorem Halo_globalNumNonMissingObs_witness:
  "globalNumNonMissingObs GeneralDistributionAccumulator_addTerm
      (GeneralDistributionAccumulator_computeResult (c_sum (hw_comm halo_example))) (3 :: nat) 1
      (map (\<lambda>r. Halo_createAccumulator (hw_state halo_example r) 0) [0, 1]) [[0, 2], [2, 3]] = [2, 2]"
proof -
  have "{(g, j). g \<in> all_locs 2 (hw_held halo_example) \<and> j < 1 \<and> g \<noteq> (3 :: nat)} = {(0, 0), (2, 0 :: nat)}"
    by (auto simp: all_locs_def halo_example_held numeral_2_eq_2 lessThan_Suc)
  then show ?thesis
    using Halo_globalNumNonMissingObs [OF halo_example_inv zero_less_one, of 3 "\<lambda>g j. g"]
    by (simp add: halo_example_held interleave_def upt_rec numeral_2_eq_2)
qed

end
