(* ===== verification/Ioda_Nonoverlapping.thy ===== *)
theory Ioda_Nonoverlapping
  imports Ioda_Distribution
begin

text \<open>
  \<open>NonoverlappingDistribution\<close> with its subclasses \<open>RoundRobin\<close>, \<open>AtlasDistribution\<close> and
  \<open>ReplicaOfNonoverlappingDistribution\<close>, and \<open>InefficientDistribution\<close>. The virtual \<open>isMyRecord()\<close> is a
  parameter of the operations of the base class. A \<open>nonov_world\<close> describes a run: the communicator, the
  ownership of records on each rank and the calls of \<open>assignRecord()\<close>. The section on Atlas shows that its
  run, in which ownership is only decided while records are assigned, is such a run.
\<close>

section \<open>NonoverlappingDistribution\<close>

record nonoverlapping =
  numLocationsOnThisRank :: nat
  numLocationsOnLowerRanks :: nat

definition NonoverlappingDistribution :: nonoverlapping where
  "NonoverlappingDistribution = \<lparr> numLocationsOnThisRank = 0, numLocationsOnLowerRanks = 0 \<rparr>"

definition NonoverlappingDistribution_assignRecord ::
    "(nat \<Rightarrow> bool) \<Rightarrow> assign_call \<Rightarrow> 'z nonoverlapping_scheme \<Rightarrow> 'z nonoverlapping_scheme" where
  "NonoverlappingDistribution_assignRecord isMyRecord c d =
     (if isMyRecord (call_rec c) then d \<lparr> numLocationsOnThisRank := numLocationsOnThisRank d + 1 \<rparr> else d)"

definition NonoverlappingDistribution_computePatchLocs ::
    "('x, 'v) comm \<Rightarrow> nonoverlapping list \<Rightarrow> nonoverlapping list" where
  "NonoverlappingDistribution_computePatchLocs c ds =
     map2 (\<lambda>d lower. d \<lparr> numLocationsOnLowerRanks := lower \<rparr>) ds
       (c_exclusiveScan c (map numLocationsOnThisRank ds))"

definition NonoverlappingDistribution_patchObs :: "bool list \<Rightarrow> bool list" where
  "NonoverlappingDistribution_patchObs patchObsVec = replicate (length patchObsVec) True"

text \<open>The reductions replace the value of every rank (the vector overloads element by element).\<close>

definition NonoverlappingDistribution_reductionImpl :: "('v list \<Rightarrow> 'v) \<Rightarrow> 'v list \<Rightarrow> 'v list" where
  "NonoverlappingDistribution_reductionImpl op xs = map (\<lambda>_. op xs) xs"

definition NonoverlappingDistribution_reductionImpl_vec ::
    "('v list \<Rightarrow> 'v) \<Rightarrow> 'v list list \<Rightarrow> 'v list list" where
  "NonoverlappingDistribution_reductionImpl_vec op xss = map (\<lambda>_. reduce_vectors op xss) xss"

definition NonoverlappingDistribution_min :: "('x, 'v) comm \<Rightarrow> 'v list \<Rightarrow> 'v list" where
  "NonoverlappingDistribution_min c = NonoverlappingDistribution_reductionImpl (c_min c)"

definition NonoverlappingDistribution_max :: "('x, 'v) comm \<Rightarrow> 'v list \<Rightarrow> 'v list" where
  "NonoverlappingDistribution_max c = NonoverlappingDistribution_reductionImpl (c_max c)"

definition NonoverlappingDistribution_createAccumulator :: "'v :: zero \<Rightarrow> 'v accumulator" where
  "NonoverlappingDistribution_createAccumulator init = NonoverlappingDistributionAccumulator init"

definition NonoverlappingDistribution_allGatherv ::
    "('x, 'v) comm \<Rightarrow> nonoverlapping list \<Rightarrow> 'x list list \<Rightarrow> 'x list list result" where
  "NonoverlappingDistribution_allGatherv c ds xss =
     (if list_all2 (\<lambda>d x. length x = numLocationsOnThisRank d) ds xss
      then Inr (map (\<lambda>_. c_allGatherv c xss) ds) else Inl AssertionFailed)"

definition NonoverlappingDistribution_globalUniqueConsecutiveLocationIndex :: "nonoverlapping \<Rightarrow> nat \<Rightarrow> nat" where
  "NonoverlappingDistribution_globalUniqueConsecutiveLocationIndex d loc = numLocationsOnLowerRanks d + loc"

subsection \<open>A run of the ranks\<close>

record ('x, 'v) nonov_world =
  nw_comm :: "('x, 'v) comm"
  nw_isMy :: "nat \<Rightarrow> nat \<Rightarrow> bool"
  nw_calls :: "assign_call list"

definition nw_procs :: "('x, 'v) nonov_world \<Rightarrow> nat" where
  "nw_procs w = c_size (nw_comm w)"

definition nw_assigned :: "('x, 'v) nonov_world \<Rightarrow> nat \<Rightarrow> nonoverlapping" where
  "nw_assigned w r = fold (NonoverlappingDistribution_assignRecord (nw_isMy w r)) (nw_calls w) NonoverlappingDistribution"

definition nw_states :: "('x, 'v) nonov_world \<Rightarrow> nonoverlapping list" where
  "nw_states w = NonoverlappingDistribution_computePatchLocs (nw_comm w) (map (nw_assigned w) [0..<nw_procs w])"

definition nw_held :: "('x, 'v) nonov_world \<Rightarrow> nat \<Rightarrow> nat list" where
  "nw_held w r = kept_locs (nw_isMy w r) (nw_calls w)"

definition nw_patch :: "('x, 'v) nonov_world \<Rightarrow> nat \<Rightarrow> bool list" where
  "nw_patch w r = NonoverlappingDistribution_patchObs (replicate (length (nw_held w r)) False)"

definition nw_gindex :: "('x, 'v) nonov_world \<Rightarrow> nat \<Rightarrow> nat \<Rightarrow> nat" where
  "nw_gindex w r = NonoverlappingDistribution_globalUniqueConsecutiveLocationIndex (nw_states w ! r)"

text \<open>
  Every location is presented once; no record belongs to two ranks.
\<close>

definition nw_inv :: "('x, 'v :: {comm_monoid_add, linorder}) nonov_world \<Rightarrow> bool" where
  "nw_inv w \<longleftrightarrow> comm_ok (nw_comm w) \<and> distinct (map call_loc (nw_calls w)) \<and>
     (\<forall>c \<in> set (nw_calls w). \<forall>r < nw_procs w. \<forall>r' < nw_procs w.
        nw_isMy w r (call_rec c) \<and> nw_isMy w r' (call_rec c) \<longrightarrow> r = r')"

lemma num_assigned:
  "numLocationsOnThisRank (fold (NonoverlappingDistribution_assignRecord isMy) calls d)
    = numLocationsOnThisRank d + length (kept_locs isMy calls)"
  by (induction calls arbitrary: d) (auto simp: NonoverlappingDistribution_assignRecord_def)

lemma nw_num [simp]: "numLocationsOnThisRank (nw_assigned w r) = length (nw_held w r)"
  by (simp add: nw_assigned_def num_assigned nw_held_def NonoverlappingDistribution_def)

lemma nw_states_nth:
  assumes "nw_inv w" "r < nw_procs w"
  shows "numLocationsOnThisRank (nw_states w ! r) = length (nw_held w r)"
    and "numLocationsOnLowerRanks (nw_states w ! r) = block_start (map (nw_held w) [0..<nw_procs w]) r"
proof -
  have scan: "c_exclusiveScan (nw_comm w) xs = exscan xs" for xs
    using assms(1) by (simp add: nw_inv_def comm_ok_def mpi_exscan_def)
  show "numLocationsOnThisRank (nw_states w ! r) = length (nw_held w r)"
    using assms(2) by (simp add: nw_states_def NonoverlappingDistribution_computePatchLocs_def scan)
  show "numLocationsOnLowerRanks (nw_states w ! r) = block_start (map (nw_held w) [0..<nw_procs w]) r"
    using assms(2)
    by (simp add: nw_states_def NonoverlappingDistribution_computePatchLocs_def scan block_start_def
        comp_def flip: take_map)
qed

lemma nw_states_length [simp]: "nw_inv w \<Longrightarrow> length (nw_states w) = nw_procs w"
  by (simp add: nw_states_def NonoverlappingDistribution_computePatchLocs_def nw_inv_def comm_ok_def mpi_exscan_def)

lemma nw_patch_all [simp]: "select_mask (nw_patch w r) (nw_held w r) = nw_held w r"
  by (simp add: nw_patch_def NonoverlappingDistribution_patchObs_def)

definition nw_gathered :: "('x, 'v) nonov_world \<Rightarrow> nat list" where
  "nw_gathered w = gathered_locs (nw_procs w) (nw_held w) (nw_patch w)"

lemma nw_gathered_eq: "nw_gathered w = concat (map (nw_held w) [0..<nw_procs w])"
  by (simp add: gathered_locs_def nw_gathered_def)

lemma nw_held_disjoint:
  assumes "nw_inv w" "r < nw_procs w" "r' < nw_procs w" "g \<in> set (nw_held w r)" "g \<in> set (nw_held w r')"
  shows "r = r'"
proof -
  from assms(4,5) obtain c c' where c: "c \<in> set (nw_calls w)" "c' \<in> set (nw_calls w)"
      "call_loc c = call_loc c'" "nw_isMy w r (call_rec c)" "nw_isMy w r' (call_rec c')"
    by (auto simp: nw_held_def set_kept_locs)
  moreover have "inj_on call_loc (set (nw_calls w))"
    using assms(1) by (simp add: nw_inv_def distinct_map)
  ultimately have "c = c'" by (simp add: inj_on_eq_iff)
  with c assms(1-3) show ?thesis by (auto simp: nw_inv_def)
qed

interpretation nonov: distribution nw_inv nw_procs nw_held nw_patch
proof
  fix w :: "('x, 'v :: {comm_monoid_add, linorder}) nonov_world" and r r' g
  assume w: "nw_inv w" and r: "r < nw_procs w"
  show "length (nw_patch w r) = length (nw_held w r)"
    by (simp add: nw_patch_def NonoverlappingDistribution_patchObs_def)
  show "distinct (nw_held w r)" using w by (simp add: nw_held_def distinct_kept_locs nw_inv_def)
  show "\<exists>r' < nw_procs w. g \<in> set (select_mask (nw_patch w r') (nw_held w r'))" if "g \<in> set (nw_held w r)"
    using that r by auto
  show "r = r'" if "r' < nw_procs w" "g \<in> set (select_mask (nw_patch w r) (nw_held w r))"
      "g \<in> set (select_mask (nw_patch w r') (nw_held w r'))"
    using nw_held_disjoint [OF w r] that by simp
qed

interpretation nonov: gathering_distribution nw_inv nw_procs nw_held nw_patch nw_gathered
  "\<lambda>w. NonoverlappingDistribution_allGatherv (nw_comm w) (nw_states w)" nw_gindex
proof
  fix w :: "('x, 'v :: {comm_monoid_add, linorder}) nonov_world" and r i and f :: "nat \<Rightarrow> 'x"
  assume w: "nw_inv w"
  show "distinct (nw_gathered w)" "set (nw_gathered w) = all_locs (nw_procs w) (nw_held w)"
    using nonov.distinct_gathered [OF w] nonov.set_gathered [OF w] by (simp_all add: nw_gathered_def)
  have "list_all2 (\<lambda>d x. length x = numLocationsOnThisRank d) (nw_states w)
      (map (\<lambda>r. map f (nw_held w r)) [0..<nw_procs w])"
    using w by (simp add: list_all2_conv_all_nth nw_states_nth)
  moreover have "c_allGatherv (nw_comm w) xss = concat xss" for xss
    using w by (simp add: nw_inv_def comm_ok_def mpi_allGatherv_eq)
  ultimately show "NonoverlappingDistribution_allGatherv (nw_comm w) (nw_states w)
        (map (\<lambda>r. map f (nw_held w r)) [0..<nw_procs w])
      = Inr (map (\<lambda>_. map f (nw_gathered w)) [0..<nw_procs w])"
    using w by (simp add: NonoverlappingDistribution_allGatherv_def nw_gathered_eq map_concat comp_def map_replicate_const)
  assume r: "r < nw_procs w" and i: "i < length (nw_held w r)"
  show "nw_gindex w r i < length (nw_gathered w)"
    using block_index_less [of r "map (nw_held w) [0..<nw_procs w]" i] w r i
    by (simp add: nw_gathered_eq nw_gindex_def nw_states_nth NonoverlappingDistribution_globalUniqueConsecutiveLocationIndex_def)
  show "nw_gathered w ! nw_gindex w r i = nw_held w r ! i"
    using concat_nth_block [of r "map (nw_held w) [0..<nw_procs w]" i] w r i
    by (simp add: nw_gathered_eq nw_gindex_def nw_states_nth NonoverlappingDistribution_globalUniqueConsecutiveLocationIndex_def)
qed

interpretation nonov: reducing_distribution nw_inv nw_procs nw_held nw_patch
  "\<lambda>w. NonoverlappingDistribution_min (nw_comm w)" "\<lambda>w. NonoverlappingDistribution_max (nw_comm w)"
proof
  fix w :: "('x, 'v :: {comm_monoid_add, linorder}) nonov_world" and q :: "nat \<Rightarrow> 'v"
  assume w: "nw_inv w" and ne: "\<And>r. r < nw_procs w \<Longrightarrow> nw_held w r \<noteq> []"
  have n: "nw_procs w > 0" and mpi: "mpi_min (c_min (nw_comm w))" "mpi_max (c_max (nw_comm w))"
    using w by (simp_all add: nw_inv_def comm_ok_def nw_procs_def)
  show "NonoverlappingDistribution_min (nw_comm w) (map (\<lambda>r. Min (q ` set (nw_held w r))) [0..<nw_procs w])
      = map (\<lambda>_. Min (q ` all_locs (nw_procs w) (nw_held w))) [0..<nw_procs w]"
    using nonov.general_min [OF mpi(1) n ne, of q]
    by (simp add: NonoverlappingDistribution_min_def NonoverlappingDistribution_reductionImpl_def comp_def)
  show "NonoverlappingDistribution_max (nw_comm w) (map (\<lambda>r. Max (q ` set (nw_held w r))) [0..<nw_procs w])
      = map (\<lambda>_. Max (q ` all_locs (nw_procs w) (nw_held w))) [0..<nw_procs w]"
    using nonov.general_max [OF mpi(2) n ne, of q]
    by (simp add: NonoverlappingDistribution_max_def NonoverlappingDistribution_reductionImpl_def comp_def)
qed

interpretation nonov: summing_distribution nw_inv nw_procs nw_held nw_patch
  "\<lambda>w r. NonoverlappingDistribution_createAccumulator 0" NonoverlappingDistributionAccumulator_addTerm
  "\<lambda>w. NonoverlappingDistributionAccumulator_computeResult (c_sum (nw_comm w))"
proof
  fix w :: "('x, 'v :: {comm_monoid_add, linorder}) nonov_world" and q :: "nat \<Rightarrow> 'v"
  assume w: "nw_inv w"
  have "sum_list (map (\<lambda>r. \<Sum>i < length (nw_held w r). q (nw_held w r ! i)) [0..<nw_procs w])
      = sum q (all_locs (nw_procs w) (nw_held w))"
    using nonov.sum_patch_once [OF w, of q]
    by (simp add: sum_list_map_upt nw_patch_def NonoverlappingDistribution_patchObs_def)
  moreover have "c_sum (nw_comm w) xs = sum_list xs" for xs
    using w by (simp add: nw_inv_def comm_ok_def mpi_sum_eq)
  ultimately show "NonoverlappingDistributionAccumulator_computeResult (c_sum (nw_comm w))
      (map (\<lambda>r. fold (\<lambda>i. NonoverlappingDistributionAccumulator_addTerm i (q (nw_held w r ! i)))
          [0..<length (nw_held w r)] (NonoverlappingDistribution_createAccumulator 0)) [0..<nw_procs w])
      = map (\<lambda>_. sum q (all_locs (nw_procs w) (nw_held w))) [0..<nw_procs w]"
    by (simp add: NonoverlappingDistributionAccumulator_computeResult_def comp_def Nonoverlapping_localResult
        NonoverlappingDistribution_createAccumulator_def NonoverlappingDistributionAccumulator_def)
qed

interpretation nonov: counting_distribution nw_inv nw_procs nw_held nw_patch
  "\<lambda>w r. NonoverlappingDistribution_createAccumulator 0" NonoverlappingDistributionAccumulator_addTerm
  "\<lambda>w. NonoverlappingDistributionAccumulator_computeResult (c_sum (nw_comm w))"
  by unfold_locales

interpretation nonov: product_distribution nw_inv nw_procs nw_held nw_patch
  "\<lambda>w r. NonoverlappingDistribution_createAccumulator 0" NonoverlappingDistributionAccumulator_addTerm
  "\<lambda>w. NonoverlappingDistributionAccumulator_computeResult (c_sum (nw_comm w))"
  by unfold_locales

interpretation nonov: record_assigner
  "\<lambda>c d. Inr (NonoverlappingDistribution_assignRecord isMy c d)" "\<lambda>d. isMy" NonoverlappingDistribution
  for isMy
  by unfold_locales simp

section \<open>RoundRobin\<close>

definition RoundRobin_isMyRecord :: "nat \<Rightarrow> nat \<Rightarrow> nat \<Rightarrow> bool" where
  "RoundRobin_isMyRecord commSize rank RecNum \<longleftrightarrow> RecNum mod commSize = rank"

definition RoundRobin_world :: "('x, 'v) comm \<Rightarrow> assign_call list \<Rightarrow> ('x, 'v) nonov_world" where
  "RoundRobin_world c calls =
     \<lparr> nw_comm = c, nw_isMy = RoundRobin_isMyRecord (c_size c), nw_calls = calls \<rparr>"

lemma RoundRobin_world_simps [simp]:
  "nw_comm (RoundRobin_world c calls) = c" "nw_calls (RoundRobin_world c calls) = calls"
  "nw_isMy (RoundRobin_world c calls) = RoundRobin_isMyRecord (c_size c)"
  "nw_procs (RoundRobin_world c calls) = c_size c"
  by (simp_all add: RoundRobin_world_def nw_procs_def)

lemma RoundRobin_inv:
  "comm_ok c \<Longrightarrow> distinct (map call_loc calls) \<Longrightarrow> nw_inv (RoundRobin_world c calls)"
  by (auto simp: nw_inv_def RoundRobin_isMyRecord_def)

lemma RoundRobin_all_locs:
  assumes "c_size c > 0"
  shows "all_locs (c_size c) (nw_held (RoundRobin_world c calls)) = call_loc ` set calls"
proof -
  have "\<exists>r < c_size c. RoundRobin_isMyRecord (c_size c) r (call_rec x)" for x
    using assms by (intro exI [of _ "call_rec x mod c_size c"]) (simp add: RoundRobin_isMyRecord_def)
  then show ?thesis
    unfolding all_locs_def nw_held_def set_kept_locs RoundRobin_world_simps by blast
qed

text \<open>Load balance: the numbers of records on two ranks differ by at most one.\<close>

lemma card_residues:
  assumes "r < n"
  shows "card {k. k < m \<and> k mod n = r} = (m + (n - 1 - r)) div n"
proof (induction m)
  case 0
  have "n - 1 - r < n" using assms by simp
  then show ?case by simp
next
  case (Suc m)
  have split: "{k. k < Suc m \<and> k mod n = r} = {k. k < m \<and> k mod n = r} \<union> (if m mod n = r then {m} else {})"
    by (auto simp: less_Suc_eq)
  let ?s = "m mod n"
  have s: "?s < n" using assms by simp
  have "Suc (m + (n - 1 - r)) = m + (n - r)" using assms by simp
  then have "Suc (m + (n - 1 - r)) mod n = (?s + (n - r)) mod n" by (simp only: mod_add_left_eq)
  also have "\<dots> = 0 \<longleftrightarrow> ?s = r"
  proof (cases "?s < r")
    case True
    then show ?thesis using assms by simp
  next
    case False
    then have "?s + (n - r) = (?s - r) + n" using assms by simp
    then have "(?s + (n - r)) mod n = (?s - r + n) mod n" by (simp only:)
    also have "\<dots> = ?s - r" using s by simp
    finally have "(?s + (n - r)) mod n = ?s - r" .
    then show ?thesis using False by simp
  qed
  finally have "(Suc m + (n - 1 - r)) div n = (m + (n - 1 - r)) div n + (if ?s = r then 1 else 0)"
    by (simp add: div_Suc)
  then show ?case unfolding split using Suc.IH by (subst card_Un_disjoint) auto
qed

section \<open>AtlasDistribution\<close>

text \<open>
  \<open>locator\<close> stands for \<open>atlas::util::PolygonLocator\<close>: the partition that contains a point. The state is
  that of the base class with the two members of \<open>RecordAssigner\<close>.
\<close>

record atlas = nonoverlapping +
  myRecords :: "nat set"
  nextRecordToAssign :: nat

definition AtlasDistribution :: atlas where
  "AtlasDistribution = \<lparr> numLocationsOnThisRank = 0, numLocationsOnLowerRanks = 0,
     myRecords = {}, nextRecordToAssign = 0 \<rparr>"

definition isInMyDomain :: "(point2 \<Rightarrow> nat) \<Rightarrow> nat \<Rightarrow> point2 \<Rightarrow> bool" where
  "isInMyDomain locator rank point \<longleftrightarrow> locator point = rank"

definition RecordAssigner_assignRecord ::
    "(point2 \<Rightarrow> nat) \<Rightarrow> nat \<Rightarrow> nat \<Rightarrow> point2 \<Rightarrow> atlas \<Rightarrow> atlas result" where
  "RecordAssigner_assignRecord locator rank recNum point d =
     (if recNum = nextRecordToAssign d
      then let d = (if isInMyDomain locator rank point then d \<lparr> myRecords := insert recNum (myRecords d) \<rparr> else d)
           in Inr (d \<lparr> nextRecordToAssign := nextRecordToAssign d + 1 \<rparr>)
      else if recNum < nextRecordToAssign d then Inr d else Inl AssertionFailed)"

definition AtlasDistribution_isMyRecord :: "atlas \<Rightarrow> nat \<Rightarrow> bool" where
  "AtlasDistribution_isMyRecord d RecNum \<longleftrightarrow> RecNum \<in> myRecords d"

definition AtlasDistribution_assignRecord ::
    "(point2 \<Rightarrow> nat) \<Rightarrow> nat \<Rightarrow> assign_call \<Rightarrow> atlas \<Rightarrow> atlas result" where
  "AtlasDistribution_assignRecord locator rank c d =
     bind_result (RecordAssigner_assignRecord locator rank (call_rec c) (call_point c) d)
       (\<lambda>d. Inr (NonoverlappingDistribution_assignRecord (AtlasDistribution_isMyRecord d) c d))"

lemmas atlas_defs = AtlasDistribution_assignRecord_def RecordAssigner_assignRecord_def isInMyDomain_def
  AtlasDistribution_isMyRecord_def NonoverlappingDistribution_assignRecord_def Let_def

lemma Atlas_step:
  assumes "AtlasDistribution_assignRecord locator rank c d = Inr d'"
  shows "nextRecordToAssign d' = (if call_rec c = nextRecordToAssign d then nextRecordToAssign d + 1 else nextRecordToAssign d)"
    and "call_rec c < nextRecordToAssign d'"
    and "rec < nextRecordToAssign d \<Longrightarrow> rec \<in> myRecords d' \<longleftrightarrow> rec \<in> myRecords d"
  using assms by (auto simp: atlas_defs split: if_splits)

lemma Atlas_seen:
  "fold_result (AtlasDistribution_assignRecord locator rank) calls d = Inr d' \<Longrightarrow>
   nextRecordToAssign d \<le> nextRecordToAssign d' \<and> (\<forall>c \<in> set calls. call_rec c < nextRecordToAssign d')"
proof (induction calls arbitrary: d)
  case Nil
  then show ?case by simp
next
  case (Cons c calls)
  then obtain t where t: "AtlasDistribution_assignRecord locator rank c d = Inr t"
      "fold_result (AtlasDistribution_assignRecord locator rank) calls t = Inr d'"
    by auto
  have "nextRecordToAssign t \<le> nextRecordToAssign d' \<and> (\<forall>c \<in> set calls. call_rec c < nextRecordToAssign d')"
    by (rule Cons.IH) (rule t(2))
  moreover have "nextRecordToAssign d \<le> nextRecordToAssign t" "call_rec c < nextRecordToAssign t"
    using Atlas_step(1,2) [OF t(1)] by (auto split: if_splits)
  ultimately show ?case by auto
qed

interpretation atlas: record_assigner "AtlasDistribution_assignRecord locator rank"
  AtlasDistribution_isMyRecord AtlasDistribution
  for locator rank
proof
  fix calls s c s' rec
  assume "fold_result (AtlasDistribution_assignRecord locator rank) calls AtlasDistribution = Inr s"
    and step: "AtlasDistribution_assignRecord locator rank c s = Inr s'" and "rec \<in> call_rec ` set calls"
  then have "rec < nextRecordToAssign s" using Atlas_seen by blast
  then show "AtlasDistribution_isMyRecord s' rec = AtlasDistribution_isMyRecord s rec"
    using Atlas_step(3) [OF step] by (simp add: AtlasDistribution_isMyRecord_def)
qed

text \<open>
  The order of calls the code assumes: records are first met in the order 0, 1, 2, \dots
\<close>

fun consecutive :: "nat \<Rightarrow> assign_call list \<Rightarrow> bool" where
  "consecutive k [] = True"
| "consecutive k (c # cs) =
     (if call_rec c = k then consecutive (Suc k) cs else call_rec c < k \<and> consecutive k cs)"

lemma Atlas_run:
  assumes "consecutive (nextRecordToAssign d) calls"
  shows "\<exists>d'. fold_result (AtlasDistribution_assignRecord locator rank) calls d = Inr d' \<and>
     (\<forall>rec. rec \<in> myRecords d' \<longleftrightarrow>
        (if rec < nextRecordToAssign d then rec \<in> myRecords d
         else rec \<in> myRecords d \<or> rec \<in> call_rec ` set calls \<and> locator (first_point calls rec) = rank)) \<and>
     numLocationsOnThisRank d' = numLocationsOnThisRank d + length (kept_locs (AtlasDistribution_isMyRecord d') calls) \<and>
     numLocationsOnLowerRanks d' = numLocationsOnLowerRanks d"
  using assms
proof (induction calls arbitrary: d)
  case Nil
  then show ?case by simp
next
  case (Cons c calls)
  obtain t where t: "AtlasDistribution_assignRecord locator rank c d = Inr t"
    using Cons.prems by (auto simp: atlas_defs split: if_splits)
  note step = Atlas_step [OF t]
  have my: "rec \<in> myRecords t \<longleftrightarrow> rec \<in> myRecords d \<or> rec = nextRecordToAssign d \<and> call_rec c = rec \<and> locator (call_point c) = rank" for rec
    using t by (auto simp: atlas_defs split: if_splits)
  have num: "numLocationsOnThisRank t = numLocationsOnThisRank d + (if call_rec c \<in> myRecords t then 1 else 0)"
      "numLocationsOnLowerRanks t = numLocationsOnLowerRanks d"
    using t by (auto simp: atlas_defs split: if_splits)
  have "consecutive (nextRecordToAssign t) calls" using Cons.prems by (auto simp: step(1) split: if_splits)
  from Cons.IH [OF this] obtain d' where d': "fold_result (AtlasDistribution_assignRecord locator rank) calls t = Inr d'"
    and my': "\<And>rec. rec \<in> myRecords d' \<longleftrightarrow> (if rec < nextRecordToAssign t then rec \<in> myRecords t
         else rec \<in> myRecords t \<or> rec \<in> call_rec ` set calls \<and> locator (first_point calls rec) = rank)"
    and num': "numLocationsOnThisRank d' = numLocationsOnThisRank t + length (kept_locs (AtlasDistribution_isMyRecord d') calls)"
      "numLocationsOnLowerRanks d' = numLocationsOnLowerRanks t"
    by blast
  have "call_rec c \<in> myRecords d' \<longleftrightarrow> call_rec c \<in> myRecords t" using step(2) my' by simp
  then have "numLocationsOnThisRank d' = numLocationsOnThisRank d + length (kept_locs (AtlasDistribution_isMyRecord d') (c # calls))"
    using num num' by (simp add: AtlasDistribution_isMyRecord_def)
  moreover have "rec \<in> myRecords d' \<longleftrightarrow> (if rec < nextRecordToAssign d then rec \<in> myRecords d
         else rec \<in> myRecords d \<or> rec \<in> call_rec ` set (c # calls) \<and> locator (first_point (c # calls) rec) = rank)" for rec
    unfolding my' my using step(1,2) by (auto split: if_splits)
  ultimately show ?case using t d' num num' by (intro exI [of _ d']) auto
qed

definition Atlas_world :: "('x, 'v) comm \<Rightarrow> (point2 \<Rightarrow> nat) \<Rightarrow> assign_call list \<Rightarrow> ('x, 'v) nonov_world" where
  "Atlas_world c locator calls =
     \<lparr> nw_comm = c, nw_isMy = (\<lambda>rank rec. rec \<in> call_rec ` set calls \<and> locator (first_point calls rec) = rank), nw_calls = calls \<rparr>"

lemma Atlas_inv: "comm_ok c \<Longrightarrow> distinct (map call_loc calls) \<Longrightarrow> nw_inv (Atlas_world c locator calls)"
  by (auto simp: nw_inv_def Atlas_world_def)

lemma Atlas_refines:
  assumes "consecutive 0 calls"
  shows "\<exists>d. fold_result (AtlasDistribution_assignRecord locator rank) calls AtlasDistribution = Inr d \<and>
     AtlasDistribution_isMyRecord d = nw_isMy (Atlas_world c locator calls) rank \<and>
     nonoverlapping.truncate d = nw_assigned (Atlas_world c locator calls) rank"
proof -
  have "consecutive (nextRecordToAssign AtlasDistribution) calls" using assms by (simp add: AtlasDistribution_def)
  from Atlas_run [OF this, of locator rank] obtain d where
    d: "fold_result (AtlasDistribution_assignRecord locator rank) calls AtlasDistribution = Inr d"
      "\<And>rec. rec \<in> myRecords d \<longleftrightarrow> rec \<in> call_rec ` set calls \<and> locator (first_point calls rec) = rank"
      "numLocationsOnThisRank d = length (kept_locs (AtlasDistribution_isMyRecord d) calls)"
      "numLocationsOnLowerRanks d = 0"
    by (auto simp: AtlasDistribution_def)
  have my: "AtlasDistribution_isMyRecord d = nw_isMy (Atlas_world c locator calls) rank"
    by (rule ext) (simp add: AtlasDistribution_isMyRecord_def Atlas_world_def d(2))
  moreover have "numLocationsOnLowerRanks (fold (NonoverlappingDistribution_assignRecord isMy) calls e) = numLocationsOnLowerRanks e"
    for isMy and e :: nonoverlapping
    by (induction calls arbitrary: e) (auto simp: NonoverlappingDistribution_assignRecord_def)
  ultimately have "nonoverlapping.truncate d = nw_assigned (Atlas_world c locator calls) rank"
    using d(3,4) by (intro nonoverlapping.equality)
      (simp_all add: nonoverlapping.truncate_def nw_held_def, simp_all add: nw_assigned_def Atlas_world_def NonoverlappingDistribution_def)
  with d(1) my show ?thesis by blast
qed

text \<open>A record out of order is an assertion failure.\<close>

lemma Atlas_out_of_order:
  "call_rec c > nextRecordToAssign d \<Longrightarrow> AtlasDistribution_assignRecord locator rank c d = Inl AssertionFailed"
  by (simp add: atlas_defs)

section \<open>ReplicaOfNonoverlappingDistribution\<close>

definition ReplicaOfNonoverlappingDistribution_isMyRecord :: "(nat \<Rightarrow> bool) \<Rightarrow> nat \<Rightarrow> bool" where
  "ReplicaOfNonoverlappingDistribution_isMyRecord master_isMyRecord RecNum = master_isMyRecord RecNum"

definition ReplicaOfNonoverlapping_world ::
    "('x, 'v) nonov_world \<Rightarrow> assign_call list \<Rightarrow> ('x, 'v) nonov_world" where
  "ReplicaOfNonoverlapping_world master calls = master
     \<lparr> nw_isMy := (\<lambda>r. ReplicaOfNonoverlappingDistribution_isMyRecord (nw_isMy master r)), nw_calls := calls \<rparr>"

lemma ReplicaOfNonoverlapping_inv:
  assumes "nw_inv master" "distinct (map call_loc calls)" "call_rec ` set calls \<subseteq> call_rec ` set (nw_calls master)"
  shows "nw_inv (ReplicaOfNonoverlapping_world master calls)"
proof -
  have "r = r'" if c: "c \<in> set calls" and r: "r < nw_procs master" "r' < nw_procs master"
      "nw_isMy master r (call_rec c)" "nw_isMy master r' (call_rec c)" for c r r'
  proof -
    from c assms(3) obtain c' where "c' \<in> set (nw_calls master)" "call_rec c' = call_rec c" by force
    with r assms(1) show ?thesis unfolding nw_inv_def by metis
  qed
  then show ?thesis
    using assms(1,2) by (auto simp: nw_inv_def ReplicaOfNonoverlapping_world_def nw_procs_def
        ReplicaOfNonoverlappingDistribution_isMyRecord_def)
qed

section \<open>InefficientDistribution\<close>

definition InefficientDistribution_isMyRecord :: "nat \<Rightarrow> bool" where
  "InefficientDistribution_isMyRecord RecNum = True"

definition InefficientDistribution_patchObs :: "nat \<Rightarrow> bool list \<Rightarrow> bool list" where
  "InefficientDistribution_patchObs rank patchObsVec =
     (if rank = 0 then replicate (length patchObsVec) True else replicate (length patchObsVec) False)"

definition InefficientDistribution_min :: "'v list \<Rightarrow> 'v list" where
  "InefficientDistribution_min xs = xs"

definition InefficientDistribution_max :: "'v list \<Rightarrow> 'v list" where
  "InefficientDistribution_max xs = xs"

definition InefficientDistribution_allGatherv :: "'x list list \<Rightarrow> 'x list list result" where
  "InefficientDistribution_allGatherv xss = Inr xss"

definition InefficientDistribution_createAccumulator :: "'v :: zero \<Rightarrow> 'v accumulator" where
  "InefficientDistribution_createAccumulator init = InefficientDistributionAccumulator init"

definition InefficientDistribution_globalUniqueConsecutiveLocationIndex :: "nat \<Rightarrow> nat" where
  "InefficientDistribution_globalUniqueConsecutiveLocationIndex loc = loc"

text \<open>A run: the number of ranks and the calls of \<open>assignRecord()\<close>, which the class ignores.\<close>

type_synonym inefficient_world = "nat \<times> assign_call list"

definition iw_held :: "inefficient_world \<Rightarrow> nat \<Rightarrow> nat list" where
  "iw_held w r = kept_locs InefficientDistribution_isMyRecord (snd w)"

definition iw_patch :: "inefficient_world \<Rightarrow> nat \<Rightarrow> bool list" where
  "iw_patch w r = InefficientDistribution_patchObs r (replicate (length (iw_held w r)) False)"

definition iw_inv :: "inefficient_world \<Rightarrow> bool" where
  "iw_inv w \<longleftrightarrow> fst w > 0 \<and> distinct (map call_loc (snd w))"

lemma iw_held_const: "iw_held w r = map call_loc (snd w)"
  by (simp add: iw_held_def kept_locs_def InefficientDistribution_isMyRecord_def)

lemma iw_select: "select_mask (iw_patch w r) (iw_held w r) = (if r = 0 then map call_loc (snd w) else [])"
  using select_mask_all [of "map call_loc (snd w)"]
  by (simp add: iw_patch_def iw_held_const InefficientDistribution_patchObs_def)

lemma iw_gathered: "n > 0 \<Longrightarrow> gathered_locs n (iw_held w) (iw_patch w) = map call_loc (snd w)"
  by (simp add: gathered_locs_def iw_select upt_conv_Cons comp_def)

lemma iw_all_locs: "n > 0 \<Longrightarrow> all_locs n (iw_held w) = call_loc ` set (snd w)"
  by (auto simp: all_locs_def iw_held_const)

interpretation ineff: distribution iw_inv fst iw_held iw_patch
proof
  fix w :: inefficient_world and r r' g
  assume w: "iw_inv w" and r: "r < fst w"
  show "length (iw_patch w r) = length (iw_held w r)"
    by (simp add: iw_patch_def InefficientDistribution_patchObs_def)
  show "distinct (iw_held w r)" using w by (simp add: iw_held_const iw_inv_def)
  show "\<exists>r' < fst w. g \<in> set (select_mask (iw_patch w r') (iw_held w r'))" if "g \<in> set (iw_held w r)"
    using that r iw_select [of w 0] by (intro exI [of _ 0]) (auto simp: iw_held_const)
  show "r = r'" if "g \<in> set (select_mask (iw_patch w r) (iw_held w r))"
      "g \<in> set (select_mask (iw_patch w r') (iw_held w r'))"
    using that by (auto simp: iw_select split: if_splits)
qed

interpretation ineff: gathering_distribution iw_inv fst iw_held iw_patch "\<lambda>w. map call_loc (snd w)"
  "\<lambda>w. InefficientDistribution_allGatherv" "\<lambda>w r. InefficientDistribution_globalUniqueConsecutiveLocationIndex"
proof
  fix w r i and f :: "nat \<Rightarrow> 'x"
  assume w: "iw_inv w"
  then have n: "fst w > 0" by (simp add: iw_inv_def)
  show "distinct (map call_loc (snd w))" "set (map call_loc (snd w)) = all_locs (fst w) (iw_held w)"
    using w by (simp_all add: iw_inv_def iw_all_locs)
  show "InefficientDistribution_allGatherv (map (\<lambda>r. map f (iw_held w r)) [0..<fst w])
      = Inr (map (\<lambda>_. map f (map call_loc (snd w))) [0..<fst w])"
    by (simp add: InefficientDistribution_allGatherv_def iw_held_const)
  assume "r < fst w" "i < length (iw_held w r)"
  then show "InefficientDistribution_globalUniqueConsecutiveLocationIndex i < length (map call_loc (snd w))"
    and "map call_loc (snd w) ! InefficientDistribution_globalUniqueConsecutiveLocationIndex i = iw_held w r ! i"
    by (simp_all add: InefficientDistribution_globalUniqueConsecutiveLocationIndex_def iw_held_const)
qed

interpretation ineff: reducing_distribution iw_inv fst iw_held iw_patch
  "\<lambda>w. InefficientDistribution_min :: 'v :: linorder list \<Rightarrow> _" "\<lambda>w. InefficientDistribution_max"
  by unfold_locales
    (auto simp: InefficientDistribution_min_def InefficientDistribution_max_def iw_held_const iw_all_locs iw_inv_def)

interpretation ineff: summing_distribution iw_inv fst iw_held iw_patch
  "\<lambda>w r. InefficientDistribution_createAccumulator 0" InefficientDistributionAccumulator_addTerm
  "\<lambda>w. InefficientDistributionAccumulator_computeResult"
proof
  fix w and q :: "nat \<Rightarrow> 'v :: comm_monoid_add"
  assume w: "iw_inv w"
  then have d: "distinct (map call_loc (snd w))" by (simp add: iw_inv_def)
  have "(\<Sum>i < length (snd w). q (map call_loc (snd w) ! i)) = sum_list (map q (map call_loc (snd w)))"
    by (simp add: sum_list_sum_nth atLeast0LessThan)
  also have "\<dots> = sum q (call_loc ` set (snd w))"
    using sum_list_distinct_conv_sum_set [OF d, of q] by simp
  finally show "InefficientDistributionAccumulator_computeResult
      (map (\<lambda>r. fold (\<lambda>i. InefficientDistributionAccumulator_addTerm i (q (iw_held w r ! i)))
          [0..<length (iw_held w r)] (InefficientDistribution_createAccumulator 0)) [0..<fst w])
      = map (\<lambda>_. sum q (all_locs (fst w) (iw_held w))) [0..<fst w]"
    using w by (simp add: InefficientDistributionAccumulator_computeResult_def comp_def Inefficient_localResult iw_held_const
        iw_all_locs InefficientDistribution_createAccumulator_def InefficientDistributionAccumulator_def iw_inv_def)
qed

interpretation ineff: counting_distribution iw_inv fst iw_held iw_patch
  "\<lambda>w r. InefficientDistribution_createAccumulator 0" InefficientDistributionAccumulator_addTerm
  "\<lambda>w. InefficientDistributionAccumulator_computeResult"
  by unfold_locales

interpretation ineff: product_distribution iw_inv fst iw_held iw_patch
  "\<lambda>w r. InefficientDistribution_createAccumulator 0" InefficientDistributionAccumulator_addTerm
  "\<lambda>w. InefficientDistributionAccumulator_computeResult"
  by unfold_locales

section \<open>Properties\<close>

text \<open>Three ranks and five locations in four records.\<close>

definition round_robin_example :: "(nat, nat) nonov_world" where
  "round_robin_example = RoundRobin_world (seq_comm 3)
     [(0, 0, (0, 0)), (1, 1, (0, 0)), (1, 4, (0, 0)), (2, 5, (0, 0)), (3, 6, (0, 0))]"

lemma round_robin_example_inv: "nw_inv round_robin_example"
  unfolding round_robin_example_def by (rule RoundRobin_inv) (simp_all add: comm_ok_seq_comm)

lemma round_robin_example_held:
  "nw_held round_robin_example 0 = [0, 6]" "nw_held round_robin_example (Suc 0) = [1, 4]"
  "nw_held round_robin_example (Suc (Suc 0)) = [5]" "nw_procs round_robin_example = 3"
  by (simp_all add: nw_held_def round_robin_example_def RoundRobin_isMyRecord_def seq_comm_def)

text \<open>\<open>RoundRobin\<close> assigns every record to exactly one rank and balances the load: among the records
  \<open>0, \<dots>, R - 1\<close> the numbers of records of two ranks differ by at most one.\<close>

lemma RoundRobin_balance:
  assumes "n > 0"
  shows "(\<exists>!r. r < n \<and> RoundRobin_isMyRecord n r rec)
    \<and> (\<forall>r r'. r < n \<and> r' < n \<longrightarrow>
         card {k. k < R \<and> RoundRobin_isMyRecord n r k} \<le> card {k. k < R \<and> RoundRobin_isMyRecord n r' k} + 1)"
proof (intro conjI allI impI)
  show "\<exists>!r. r < n \<and> RoundRobin_isMyRecord n r rec" using assms by (auto simp: RoundRobin_isMyRecord_def)
  fix r r' assume r: "r < n \<and> r' < n"
  have "(R + (n - 1 - r)) div n \<le> (R + (n - 1 - r') + n) div n" by (intro div_le_mono) auto
  also have "\<dots> = (R + (n - 1 - r')) div n + 1" using assms by simp
  finally show "card {k. k < R \<and> RoundRobin_isMyRecord n r k} \<le> card {k. k < R \<and> RoundRobin_isMyRecord n r' k} + 1"
    using r by (simp add: RoundRobin_isMyRecord_def card_residues)
qed



text \<open>C14. \<open>AtlasDistribution\<close>: if records are first met in the order 0, 1, 2, \dots, assigning them never fails,
  each record goes to the rank whose partition contains the record's first location, and the counter of the base class
  is that of a non-overlapping distribution with this ownership.\<close>

theorem Atlas_assigns:
  assumes "consecutive 0 calls"
  shows "\<exists>d. fold_result (AtlasDistribution_assignRecord locator rank) calls AtlasDistribution = Inr d
    \<and> (\<forall>rec. AtlasDistribution_isMyRecord d rec \<longleftrightarrow> rec \<in> call_rec ` set calls \<and> locator (first_point calls rec) = rank)
    \<and> numLocationsOnThisRank d = length (kept_locs (AtlasDistribution_isMyRecord d) calls)"
proof -
  obtain d where d: "fold_result (AtlasDistribution_assignRecord locator rank) calls AtlasDistribution = Inr d"
    "AtlasDistribution_isMyRecord d = nw_isMy (Atlas_world (seq_comm 1 :: (nat, nat) comm) locator calls) rank"
    "nonoverlapping.truncate d = nw_assigned (Atlas_world (seq_comm 1 :: (nat, nat) comm) locator calls) rank"
    using Atlas_refines [OF assms] by blast
  from d(3) have "numLocationsOnThisRank d = numLocationsOnThisRank (nw_assigned (Atlas_world (seq_comm 1 :: (nat, nat) comm) locator calls) rank)"
    by (metis nonoverlapping.select_convs(1) nonoverlapping.truncate_def)
  with d(1,2) show ?thesis by (intro exI [of _ d]) (simp add: nw_held_def Atlas_world_def)
qed

theorem Atlas_assigns_witness:
  "\<exists>d. fold_result (AtlasDistribution_assignRecord (\<lambda>p. if fst p < 5 then 0 else 1) 1)
      [(0, 0, (7, 0)), (1, 1, (3, 0)), (0, 2, (1, 0))] AtlasDistribution = Inr d
    \<and> AtlasDistribution_isMyRecord d 0 \<and> \<not> AtlasDistribution_isMyRecord d 1 \<and> numLocationsOnThisRank d = 2"
  using Atlas_assigns [of "[(0, 0, (7, 0)), (1, 1, (3, 0)), (0, 2, (1, 0))]" "\<lambda>p. if fst p < 5 then 0 else 1" 1]
  by auto



end
