(* ===== verification/Ioda_Replica.thy ===== *)
theory Ioda_Replica
  imports Ioda_Halo Ioda_Nonoverlapping
begin

text \<open>
  The distributions built from other distributions: \<open>ReplicaOfGeneralDistribution\<close>, which assigns each
  record to the ranks where a master distribution has it, \<open>PairOfDistributions\<close>, which joins the locations
  of two distributions, and \<open>createReplicaDistribution()\<close>. The methods of the distributions they call are
  parameters; the contract of a replica is proved from what a master owes it, and \<open>Halo\<close> is shown to owe it.
\<close>

section \<open>ReplicaOfGeneralDistribution\<close>

record replica =
  rep_myRecords :: "nat set"
  isMyPatchObs :: "bool list"
  rep_globalUniqueConsecutiveLocIndices :: "nat list"
  masterPatchRecords :: "nat set"
  myGlobalLocs :: "nat list"

definition ReplicaOfGeneralDistribution :: "bool list \<Rightarrow> nat list \<Rightarrow> replica" where
  "ReplicaOfGeneralDistribution isMasterPatchObs masterRecordNumbers =
     \<lparr> rep_myRecords = {}, isMyPatchObs = [], rep_globalUniqueConsecutiveLocIndices = [],
       masterPatchRecords = fold (\<lambda>loc recs. if isMasterPatchObs ! loc then insert (masterRecordNumbers ! loc) recs else recs)
         [0..<length masterRecordNumbers] {},
       myGlobalLocs = [] \<rparr>"

definition ReplicaOfGeneralDistribution_assignRecord ::
    "(nat \<Rightarrow> bool) \<Rightarrow> assign_call \<Rightarrow> replica \<Rightarrow> replica" where
  "ReplicaOfGeneralDistribution_assignRecord master_isMyRecord c d =
     (if master_isMyRecord (call_rec c)
      then d \<lparr> rep_myRecords := insert (call_rec c) (rep_myRecords d),
               myGlobalLocs := myGlobalLocs d @ [call_loc c],
               isMyPatchObs := isMyPatchObs d @ [call_rec c \<in> masterPatchRecords d] \<rparr>
      else d)"

definition ReplicaOfGeneralDistribution_isMyRecord :: "replica \<Rightarrow> nat \<Rightarrow> bool" where
  "ReplicaOfGeneralDistribution_isMyRecord d RecNum \<longleftrightarrow> RecNum \<in> rep_myRecords d"

subsection \<open>computePatchLocs\<close>

definition Replica_nglocs :: "replica \<Rightarrow> nat" where
  "Replica_nglocs d = (if myGlobalLocs d \<noteq> [] then last (myGlobalLocs d) + 1 else 0)"

definition Replica_patchObsGlobalLocs :: "replica \<Rightarrow> nat list" where
  "Replica_patchObsGlobalLocs d =
     fold (\<lambda>i locs. if isMyPatchObs d ! i then locs @ [myGlobalLocs d ! i] else locs) [0..<length (myGlobalLocs d)] []"

text \<open>\<open>static_cast<size_t>(-1)\<close> on a 64-bit machine.\<close>

definition UNASSIGNED :: nat where
  "UNASSIGNED = 2 ^ 64 - 1"

definition Replica_consecutiveLocIndices :: "nat \<Rightarrow> nat list \<Rightarrow> nat list result" where
  "Replica_consecutiveLocIndices nglocs patchObsGlobalLocs =
     fold_result (\<lambda>i v. if patchObsGlobalLocs ! i < length v then Inr (v[patchObsGlobalLocs ! i := i]) else Inl OutOfRange)
       [0..<length patchObsGlobalLocs] (replicate nglocs UNASSIGNED)"

definition Replica_saveIndices :: "nat list \<Rightarrow> replica \<Rightarrow> replica result" where
  "Replica_saveIndices consecutiveLocIndices d =
     bind_result (map_result (\<lambda>g. if consecutiveLocIndices ! g = UNASSIGNED then Inl SeriousBug
                                  else Inr (consecutiveLocIndices ! g)) (myGlobalLocs d))
       (\<lambda>indices. Inr (d \<lparr> rep_globalUniqueConsecutiveLocIndices := indices, masterPatchRecords := {}, myGlobalLocs := [] \<rparr>))"

definition ReplicaOfGeneralDistribution_computePatchLocs ::
    "('x, 'v) comm \<Rightarrow> replica list \<Rightarrow> replica list result" where
  "ReplicaOfGeneralDistribution_computePatchLocs c ds =
     bind_result (Replica_consecutiveLocIndices (c_max_size c (map Replica_nglocs ds))
         (c_allGatherv_size c (map Replica_patchObsGlobalLocs ds)))
       (\<lambda>indices. map_result (Replica_saveIndices indices) ds)"

definition ReplicaOfGeneralDistribution_patchObs :: "replica \<Rightarrow> bool list" where
  "ReplicaOfGeneralDistribution_patchObs d = isMyPatchObs d"

definition ReplicaOfGeneralDistribution_reductionImpl :: "('v list \<Rightarrow> 'v) \<Rightarrow> 'v list \<Rightarrow> 'v list" where
  "ReplicaOfGeneralDistribution_reductionImpl op xs = map (\<lambda>_. op xs) xs"

definition ReplicaOfGeneralDistribution_min :: "('x, 'v) comm \<Rightarrow> 'v list \<Rightarrow> 'v list" where
  "ReplicaOfGeneralDistribution_min c = ReplicaOfGeneralDistribution_reductionImpl (c_min c)"

definition ReplicaOfGeneralDistribution_max :: "('x, 'v) comm \<Rightarrow> 'v list \<Rightarrow> 'v list" where
  "ReplicaOfGeneralDistribution_max c = ReplicaOfGeneralDistribution_reductionImpl (c_max c)"

definition ReplicaOfGeneralDistribution_createAccumulator :: "replica \<Rightarrow> 'v :: zero \<Rightarrow> 'v general_accumulator" where
  "ReplicaOfGeneralDistribution_createAccumulator d init = GeneralDistributionAccumulator init (isMyPatchObs d)"

definition Replica_patchValues :: "bool list \<Rightarrow> 'x list \<Rightarrow> 'x list" where
  "Replica_patchValues patchObs x = fold (\<lambda>i xs. if patchObs ! i then xs @ [x ! i] else xs) [0..<length x] []"

definition ReplicaOfGeneralDistribution_allGatherv ::
    "('x, 'v) comm \<Rightarrow> replica list \<Rightarrow> 'x list list \<Rightarrow> 'x list list result" where
  "ReplicaOfGeneralDistribution_allGatherv c ds xss =
     (if list_all2 (\<lambda>d x. length x = length (isMyPatchObs d)) ds xss
      then Inr (map (\<lambda>_. c_allGatherv c (map2 (\<lambda>d x. Replica_patchValues (isMyPatchObs d) x) ds xss)) ds)
      else Inl AssertionFailed)"

definition ReplicaOfGeneralDistribution_globalUniqueConsecutiveLocationIndex :: "replica \<Rightarrow> nat \<Rightarrow> nat" where
  "ReplicaOfGeneralDistribution_globalUniqueConsecutiveLocationIndex d loc = rep_globalUniqueConsecutiveLocIndices d ! loc"

subsection \<open>A run of the ranks\<close>

record ('x, 'v) replica_world =
  rw_comm :: "('x, 'v) comm"
  rw_isMy :: "nat \<Rightarrow> nat \<Rightarrow> bool"
  rw_masterPatch :: "nat \<Rightarrow> bool list"
  rw_masterRecs :: "nat \<Rightarrow> nat list"
  rw_calls :: "assign_call list"

definition rw_procs :: "('x, 'v) replica_world \<Rightarrow> nat" where
  "rw_procs w = c_size (rw_comm w)"

definition rw_patchRecs :: "('x, 'v) replica_world \<Rightarrow> nat \<Rightarrow> nat set" where
  "rw_patchRecs w r = set (select_mask (rw_masterPatch w r) (rw_masterRecs w r))"

definition rw_assigned :: "('x, 'v) replica_world \<Rightarrow> nat \<Rightarrow> replica" where
  "rw_assigned w r = fold (ReplicaOfGeneralDistribution_assignRecord (rw_isMy w r)) (rw_calls w)
     (ReplicaOfGeneralDistribution (rw_masterPatch w r) (rw_masterRecs w r))"

definition rw_states :: "('x, 'v) replica_world \<Rightarrow> replica list result" where
  "rw_states w = ReplicaOfGeneralDistribution_computePatchLocs (rw_comm w) (map (rw_assigned w) [0..<rw_procs w])"

definition rw_state :: "('x, 'v) replica_world \<Rightarrow> nat \<Rightarrow> replica" where
  "rw_state w r = (case rw_states w of Inr ds \<Rightarrow> ds ! r | Inl e \<Rightarrow> rw_assigned w r)"

definition rw_held :: "('x, 'v) replica_world \<Rightarrow> nat \<Rightarrow> nat list" where
  "rw_held w r = kept_locs (ReplicaOfGeneralDistribution_isMyRecord (rw_assigned w r)) (rw_calls w)"

definition rw_patch :: "('x, 'v) replica_world \<Rightarrow> nat \<Rightarrow> bool list" where
  "rw_patch w r = ReplicaOfGeneralDistribution_patchObs (rw_state w r)"

definition rw_gathered :: "('x, 'v) replica_world \<Rightarrow> nat list" where
  "rw_gathered w = gathered_locs (rw_procs w) (rw_held w) (rw_patch w)"

definition rw_gindex :: "('x, 'v) replica_world \<Rightarrow> nat \<Rightarrow> nat \<Rightarrow> nat" where
  "rw_gindex w r = ReplicaOfGeneralDistribution_globalUniqueConsecutiveLocationIndex (rw_state w r)"

text \<open>
  What the master owes: the patch flags fit the records; every record a rank has is in the patch of
  exactly one rank, and that rank has it. There are fewer locations than \<open>size_t\<close> has values.
\<close>

definition rw_inv :: "('x, 'v :: {comm_monoid_add, linorder}) replica_world \<Rightarrow> bool" where
  "rw_inv w \<longleftrightarrow> comm_ok (rw_comm w) \<and> sorted_wrt (<) (map call_loc (rw_calls w)) \<and>
     length (rw_calls w) < UNASSIGNED \<and>
     (\<forall>r < rw_procs w. length (rw_masterPatch w r) = length (rw_masterRecs w r)) \<and>
     (\<forall>rec \<in> call_rec ` set (rw_calls w). \<forall>r < rw_procs w. rw_isMy w r rec \<longrightarrow>
        (\<exists>r' < rw_procs w. rw_isMy w r' rec \<and> rec \<in> rw_patchRecs w r')) \<and>
     (\<forall>rec \<in> call_rec ` set (rw_calls w). \<forall>r < rw_procs w. \<forall>r' < rw_procs w.
        rec \<in> rw_patchRecs w r \<and> rec \<in> rw_patchRecs w r' \<longrightarrow> r = r')"

lemma fold_push_back:
  "length bs = length xs \<Longrightarrow>
   fold (\<lambda>i ys. if bs ! i then ys @ [xs ! i] else ys) [0..<length xs] zs = zs @ select_mask bs xs"
proof (induction xs arbitrary: bs rule: rev_induct)
  case Nil
  then show ?case by simp
next
  case (snoc x xs)
  then obtain bs' b where bs: "bs = bs' @ [b]" "length bs' = length xs" by (cases bs rule: rev_cases) auto
  have "fold (\<lambda>i ys. if bs ! i then ys @ [(xs @ [x]) ! i] else ys) [0..<length xs] zs
      = fold (\<lambda>i ys. if bs' ! i then ys @ [xs ! i] else ys) [0..<length xs] zs"
    using bs by (intro fold_cong) (auto simp: nth_append fun_eq_iff)
  then show ?case using snoc.IH [OF bs(2)] bs by (simp add: select_mask_append nth_append)
qed

lemma fold_insert_selected:
  "length bs = length xs \<Longrightarrow>
   fold (\<lambda>i A. if bs ! i then insert (xs ! i) A else A) [0..<length xs] B = B \<union> set (select_mask bs xs)"
proof (induction xs arbitrary: bs rule: rev_induct)
  case Nil
  then show ?case by simp
next
  case (snoc x xs)
  then obtain bs' b where bs: "bs = bs' @ [b]" "length bs' = length xs" by (cases bs rule: rev_cases) auto
  have "fold (\<lambda>i A. if bs ! i then insert ((xs @ [x]) ! i) A else A) [0..<length xs] B
      = fold (\<lambda>i A. if bs' ! i then insert (xs ! i) A else A) [0..<length xs] B"
    using bs by (intro fold_cong) (auto simp: nth_append fun_eq_iff)
  then show ?case using snoc.IH [OF bs(2)] bs by (simp add: select_mask_append nth_append)
qed

lemma Replica_patchValues_eq:
  "length patchObs = length x \<Longrightarrow> Replica_patchValues patchObs x = select_mask patchObs x"
  by (simp add: Replica_patchValues_def fold_push_back)

lemma assign_fold:
  "fold (ReplicaOfGeneralDistribution_assignRecord isMy) calls d =
    d \<lparr> rep_myRecords := rep_myRecords d \<union> {rec \<in> call_rec ` set calls. isMy rec},
        myGlobalLocs := myGlobalLocs d @ kept_locs isMy calls,
        isMyPatchObs := isMyPatchObs d @ map (\<lambda>c. call_rec c \<in> masterPatchRecords d) (filter (\<lambda>c. isMy (call_rec c)) calls) \<rparr>"
proof (induction calls arbitrary: d)
  case Nil
  then show ?case by simp
next
  case (Cons c calls)
  then show ?case by (auto simp: ReplicaOfGeneralDistribution_assignRecord_def intro!: replica.equality)
qed

interpretation replica: record_assigner
  "\<lambda>c d. Inr (ReplicaOfGeneralDistribution_assignRecord isMy c d)" ReplicaOfGeneralDistribution_isMyRecord
  "ReplicaOfGeneralDistribution patch recs"
  for isMy patch recs
proof
  fix calls s c s' rec
  assume "fold_result (\<lambda>c d. Inr (ReplicaOfGeneralDistribution_assignRecord isMy c d)) calls (ReplicaOfGeneralDistribution patch recs) = Inr s"
    and s': "Inr (ReplicaOfGeneralDistribution_assignRecord isMy c s) = (Inr s' :: replica result)"
    and rec: "rec \<in> call_rec ` set calls"
  then have s: "s = fold (ReplicaOfGeneralDistribution_assignRecord isMy) calls (ReplicaOfGeneralDistribution patch recs)"
    by (simp add: fold_result_total [where g = "ReplicaOfGeneralDistribution_assignRecord isMy"])
  have s': "s' = ReplicaOfGeneralDistribution_assignRecord isMy c s" using s' by simp
  have "isMy rec \<longleftrightarrow> rec \<in> rep_myRecords s"
    using rec by (simp add: s assign_fold ReplicaOfGeneralDistribution_def)
  then show "ReplicaOfGeneralDistribution_isMyRecord s' rec = ReplicaOfGeneralDistribution_isMyRecord s rec"
    by (auto simp: s' ReplicaOfGeneralDistribution_isMyRecord_def ReplicaOfGeneralDistribution_assignRecord_def)
qed

lemma rw_assigned_fields:
  assumes "rw_inv w" "r < rw_procs w"
  shows "myGlobalLocs (rw_assigned w r) = rw_held w r"
    and "isMyPatchObs (rw_assigned w r)
      = map (\<lambda>c. call_rec c \<in> rw_patchRecs w r) (filter (\<lambda>c. rw_isMy w r (call_rec c)) (rw_calls w))"
    and "rw_held w r = map call_loc (filter (\<lambda>c. rw_isMy w r (call_rec c)) (rw_calls w))"
proof -
  have held: "rw_held w r = kept_locs (rw_isMy w r) (rw_calls w)"
    unfolding rw_held_def kept_locs_def
    by (intro arg_cong [where f = "map call_loc"] filter_cong refl)
       (auto simp: rw_assigned_def assign_fold ReplicaOfGeneralDistribution_isMyRecord_def ReplicaOfGeneralDistribution_def)
  show "myGlobalLocs (rw_assigned w r) = rw_held w r"
    by (simp add: held rw_assigned_def assign_fold ReplicaOfGeneralDistribution_def)
  show "rw_held w r = map call_loc (filter (\<lambda>c. rw_isMy w r (call_rec c)) (rw_calls w))"
    by (simp add: held kept_locs_def)
  have "length (rw_masterPatch w r) = length (rw_masterRecs w r)" using assms by (simp add: rw_inv_def)
  then show "isMyPatchObs (rw_assigned w r)
      = map (\<lambda>c. call_rec c \<in> rw_patchRecs w r) (filter (\<lambda>c. rw_isMy w r (call_rec c)) (rw_calls w))"
    by (simp add: rw_assigned_def assign_fold ReplicaOfGeneralDistribution_def fold_insert_selected rw_patchRecs_def)
qed

text \<open>The patch locations of a rank, and of all ranks.\<close>

definition rw_owned_locs :: "('x, 'v) replica_world \<Rightarrow> nat \<Rightarrow> nat list" where
  "rw_owned_locs w r = map call_loc (filter (\<lambda>c. rw_isMy w r (call_rec c) \<and> call_rec c \<in> rw_patchRecs w r) (rw_calls w))"

definition rw_all_owned :: "('x, 'v) replica_world \<Rightarrow> nat list" where
  "rw_all_owned w = concat (map (rw_owned_locs w) [0..<rw_procs w])"

lemma rw_select:
  assumes "rw_inv w" "r < rw_procs w"
  shows "select_mask (isMyPatchObs (rw_assigned w r)) (rw_held w r) = rw_owned_locs w r"
  by (simp add: rw_assigned_fields [OF assms] rw_owned_locs_def select_mask_map select_mask_by_pred)

lemma rw_calls_inj: "rw_inv w \<Longrightarrow> inj_on call_loc (set (rw_calls w))"
  unfolding rw_inv_def using strict_sorted_iff distinct_map by blast

lemma rw_owned_iff:
  "g \<in> set (rw_owned_locs w r) \<longleftrightarrow>
    (\<exists>c \<in> set (rw_calls w). call_loc c = g \<and> rw_isMy w r (call_rec c) \<and> call_rec c \<in> rw_patchRecs w r)"
  unfolding rw_owned_locs_def set_map set_filter by blast

lemma rw_owned_unique:
  assumes "rw_inv w" "r < rw_procs w" "r' < rw_procs w" "g \<in> set (rw_owned_locs w r)" "g \<in> set (rw_owned_locs w r')"
  shows "r = r'"
proof -
  from assms(4,5) obtain c c' where c: "c \<in> set (rw_calls w)" "c' \<in> set (rw_calls w)" "call_loc c = call_loc c'"
      "call_rec c \<in> rw_patchRecs w r" "call_rec c' \<in> rw_patchRecs w r'"
    unfolding rw_owned_iff by auto
  with rw_calls_inj [OF assms(1)] have "c = c'" by (simp add: inj_on_eq_iff)
  with c assms(1-3) show ?thesis unfolding rw_inv_def by blast
qed

lemma rw_owner_exists:
  assumes "rw_inv w" "r < rw_procs w" "g \<in> set (rw_held w r)"
  shows "\<exists>r' < rw_procs w. g \<in> set (rw_owned_locs w r')"
proof -
  from assms(3) obtain c where c: "c \<in> set (rw_calls w)" "call_loc c = g" "rw_isMy w r (call_rec c)"
    unfolding rw_assigned_fields(3) [OF assms(1,2)] by auto
  with assms(1,2) obtain r' where "r' < rw_procs w" "rw_isMy w r' (call_rec c)" "call_rec c \<in> rw_patchRecs w r'"
    unfolding rw_inv_def by blast
  with c show ?thesis unfolding rw_owned_iff by blast
qed

lemma rw_distinct_held: "rw_inv w \<Longrightarrow> r < rw_procs w \<Longrightarrow> distinct (rw_held w r)"
  using distinct_kept_locs [of "rw_calls w" "rw_isMy w r"] strict_sorted_iff
  by (auto simp: rw_assigned_fields(3) kept_locs_def rw_inv_def)

lemma rw_all_owned_distinct: "rw_inv w \<Longrightarrow> distinct (rw_all_owned w)"
  unfolding rw_all_owned_def
  by (intro distinct_concat_map_upt)
     (auto intro: rw_owned_unique simp flip: rw_select intro!: distinct_select_mask rw_distinct_held)

lemma rw_all_owned_length:
  assumes "rw_inv w"
  shows "length (rw_all_owned w) < UNASSIGNED"
proof -
  have "set (rw_all_owned w) \<subseteq> call_loc ` set (rw_calls w)"
    by (auto simp: rw_all_owned_def rw_owned_locs_def)
  then have "length (rw_all_owned w) \<le> card (call_loc ` set (rw_calls w))"
    using rw_all_owned_distinct [OF assms] by (metis List.finite_set card_mono distinct_card finite_imageI)
  also have "\<dots> \<le> length (rw_calls w)" by (metis List.finite_set card_image_le card_length le_trans)
  finally show ?thesis using assms by (simp add: rw_inv_def)
qed

lemma rw_held_less:
  assumes "rw_inv w" "r < rw_procs w" "g \<in> set (rw_held w r)"
  shows "g < c_max_size (rw_comm w) (map Replica_nglocs (map (rw_assigned w) [0..<rw_procs w]))"
proof -
  have "sorted_wrt (<) (rw_held w r)"
    using sorted_kept_locs [of "rw_calls w" "rw_isMy w r"] assms(1)
    by (simp add: rw_assigned_fields(3) [OF assms(1,2)] rw_inv_def kept_locs_def)
  from strict_sorted_less_last [OF this assms(3)] have "g < Replica_nglocs (rw_assigned w r)"
    using assms(3) by (auto simp: Replica_nglocs_def rw_assigned_fields(1) [OF assms(1,2)])
  also have "\<dots> \<le> c_max_size (rw_comm w) (map Replica_nglocs (map (rw_assigned w) [0..<rw_procs w]))"
    using assms(1,2) by (intro mpi_max_ge) (auto simp: rw_inv_def comm_ok_def)
  finally show ?thesis .
qed

text \<open>The table of indices: location \<open>rw_all_owned w ! i\<close> is assigned \<open>i\<close>.\<close>

lemma consecutiveLocIndices_eq:
  assumes "distinct locs" "\<And>g. g \<in> set locs \<Longrightarrow> g < n"
  shows "\<exists>v. Replica_consecutiveLocIndices n locs = Inr v \<and> (\<forall>i < length locs. v ! (locs ! i) = i)"
proof -
  have "fold_result (\<lambda>i v. if locs ! i < length v then Inr (v[locs ! i := i]) else Inl OutOfRange) [0..<k] (replicate n UNASSIGNED)
      = Inr (fold (\<lambda>i v. v[locs ! i := i]) [0..<k] (replicate n UNASSIGNED))" if "k \<le> length locs" for k
    using that
  proof (induction k)
    case 0
    then show ?case by simp
  next
    case (Suc k)
    then show ?case using assms(2) [of "locs ! k"] by (simp add: fold_result_append)
  qed
  from this [of "length locs"] have "Replica_consecutiveLocIndices n locs
      = Inr (fold (\<lambda>i v. v[locs ! i := i]) [0..<length locs] (replicate n UNASSIGNED))"
    by (simp add: Replica_consecutiveLocIndices_def)
  moreover have "inj_on (\<lambda>i. locs ! i) {..<length locs}" using assms(1) by (auto intro: inj_on_nth)
  then have "\<forall>i < length locs. fold (\<lambda>i v. v[locs ! i := i]) [0..<length locs] (replicate n UNASSIGNED) ! (locs ! i) = i"
    using assms(2) by (auto intro: fold_update_at)
  ultimately show ?thesis by blast
qed

lemma rw_states_ok:
  assumes "rw_inv w"
  obtains v where "rw_states w = Inr (map (\<lambda>r. rw_assigned w r \<lparr>
        rep_globalUniqueConsecutiveLocIndices := map (\<lambda>g. v ! g) (rw_held w r), masterPatchRecords := {}, myGlobalLocs := [] \<rparr>) [0..<rw_procs w])"
    and "\<And>i. i < length (rw_all_owned w) \<Longrightarrow> v ! (rw_all_owned w ! i) = i"
proof -
  let ?n = "c_max_size (rw_comm w) (map Replica_nglocs (map (rw_assigned w) [0..<rw_procs w]))"
  have "Replica_patchObsGlobalLocs (rw_assigned w r) = rw_owned_locs w r" if r: "r < rw_procs w" for r
  proof -
    have "length (isMyPatchObs (rw_assigned w r)) = length (rw_held w r)"
      using rw_assigned_fields(2,3) [OF assms r] by simp
    from fold_push_back [OF this, of "[]"] show ?thesis
      unfolding Replica_patchObsGlobalLocs_def rw_assigned_fields(1) [OF assms r] rw_select [OF assms r] by simp
  qed
  then have "map Replica_patchObsGlobalLocs (map (rw_assigned w) [0..<rw_procs w]) = map (rw_owned_locs w) [0..<rw_procs w]"
    by simp
  moreover have "c_allGatherv_size (rw_comm w) xss = concat xss" for xss
    using assms by (simp add: rw_inv_def comm_ok_def mpi_allGatherv_eq)
  ultimately have gather: "c_allGatherv_size (rw_comm w) (map Replica_patchObsGlobalLocs (map (rw_assigned w) [0..<rw_procs w])) = rw_all_owned w"
    by (simp only: rw_all_owned_def)
  have sub: "set (rw_owned_locs w r) \<subseteq> set (rw_held w r)" if "r < rw_procs w" for r
    using select_mask_subset rw_select [OF assms that] by metis
  have "g < ?n" if "g \<in> set (rw_all_owned w)" for g
  proof -
    from that obtain r where "r < rw_procs w" "g \<in> set (rw_owned_locs w r)" by (auto simp: rw_all_owned_def)
    with sub show ?thesis by (intro rw_held_less [OF assms]) auto
  qed
  from consecutiveLocIndices_eq [OF rw_all_owned_distinct [OF assms] this]
  obtain v where v: "Replica_consecutiveLocIndices ?n (rw_all_owned w) = Inr v"
      "\<And>i. i < length (rw_all_owned w) \<Longrightarrow> v ! (rw_all_owned w ! i) = i"
    by blast
  have save: "Replica_saveIndices v (rw_assigned w r) = Inr (rw_assigned w r \<lparr>
        rep_globalUniqueConsecutiveLocIndices := map (\<lambda>g. v ! g) (rw_held w r), masterPatchRecords := {}, myGlobalLocs := [] \<rparr>)"
    if r: "r < rw_procs w" for r
  proof -
    have "v ! g \<noteq> UNASSIGNED" if g: "g \<in> set (rw_held w r)" for g
    proof -
      from rw_owner_exists [OF assms r g] have "g \<in> set (rw_all_owned w)" by (auto simp: rw_all_owned_def)
      then obtain i where i: "i < length (rw_all_owned w)" "rw_all_owned w ! i = g" by (auto simp: in_set_conv_nth)
      with v(2) have "v ! g = i" by blast
      with i(1) rw_all_owned_length [OF assms] show ?thesis by simp
    qed
    then have "map_result (\<lambda>g. if v ! g = UNASSIGNED then Inl SeriousBug else Inr (v ! g)) (rw_held w r)
        = Inr (map (\<lambda>g. v ! g) (rw_held w r))"
      by (intro map_result_Inr) simp
    then show ?thesis by (simp add: Replica_saveIndices_def rw_assigned_fields(1) [OF assms r])
  qed
  have "map_result (Replica_saveIndices v) (map (rw_assigned w) [0..<rw_procs w])
      = Inr (map (\<lambda>r. rw_assigned w r \<lparr> rep_globalUniqueConsecutiveLocIndices := map (\<lambda>g. v ! g) (rw_held w r),
          masterPatchRecords := {}, myGlobalLocs := [] \<rparr>) [0..<rw_procs w])"
    by (subst map_result_map) (intro map_result_Inr, simp add: save)
  then have "rw_states w = Inr (map (\<lambda>r. rw_assigned w r \<lparr> rep_globalUniqueConsecutiveLocIndices := map (\<lambda>g. v ! g) (rw_held w r),
          masterPatchRecords := {}, myGlobalLocs := [] \<rparr>) [0..<rw_procs w])"
    by (simp add: rw_states_def ReplicaOfGeneralDistribution_computePatchLocs_def gather v(1) del: map_map)
  with v(2) show ?thesis by (rule that [rotated])
qed

lemma rw_patch_eq:
  assumes "rw_inv w" "r < rw_procs w"
  shows "rw_patch w r = isMyPatchObs (rw_assigned w r)"
  by (rule rw_states_ok [OF assms(1)])
     (use assms(2) in \<open>simp add: rw_patch_def rw_state_def ReplicaOfGeneralDistribution_patchObs_def\<close>)

lemma rw_gathered_eq: "rw_inv w \<Longrightarrow> rw_gathered w = rw_all_owned w"
  unfolding rw_gathered_def gathered_locs_def rw_all_owned_def
  by (intro arg_cong [where f = concat] map_cong refl) (simp add: rw_patch_eq rw_select)

interpretation replica: distribution rw_inv rw_procs rw_held rw_patch
proof
  fix w :: "('x, 'v :: {comm_monoid_add, linorder}) replica_world" and r r' g
  assume w: "rw_inv w" and r: "r < rw_procs w"
  show "length (rw_patch w r) = length (rw_held w r)"
    by (simp add: rw_patch_eq [OF w r] rw_assigned_fields [OF w r])
  show "distinct (rw_held w r)" by (rule rw_distinct_held [OF w r])
  show "\<exists>r' < rw_procs w. g \<in> set (select_mask (rw_patch w r') (rw_held w r'))" if "g \<in> set (rw_held w r)"
    using rw_owner_exists [OF w r that] rw_select [OF w] rw_patch_eq [OF w] by auto
  show "r = r'" if "r' < rw_procs w" "g \<in> set (select_mask (rw_patch w r) (rw_held w r))"
      "g \<in> set (select_mask (rw_patch w r') (rw_held w r'))"
    using that rw_owned_unique [OF w r that(1)] rw_select [OF w] rw_patch_eq [OF w] r by auto
qed

definition rw_all_states :: "('x, 'v) replica_world \<Rightarrow> replica list" where
  "rw_all_states w = map (rw_state w) [0..<rw_procs w]"

interpretation replica: gathering_distribution rw_inv rw_procs rw_held rw_patch rw_gathered
  "\<lambda>w. ReplicaOfGeneralDistribution_allGatherv (rw_comm w) (rw_all_states w)" rw_gindex
proof
  fix w :: "('x, 'v :: {comm_monoid_add, linorder}) replica_world" and r i and f :: "nat \<Rightarrow> 'x"
  assume w: "rw_inv w"
  show "distinct (rw_gathered w)" "set (rw_gathered w) = all_locs (rw_procs w) (rw_held w)"
    using replica.distinct_gathered [OF w] replica.set_gathered [OF w] by (simp_all add: rw_gathered_def)
  have patch: "isMyPatchObs (rw_state w r) = rw_patch w r" for r
    by (simp add: rw_patch_def ReplicaOfGeneralDistribution_patchObs_def)
  have "list_all2 (\<lambda>d x. length x = length (isMyPatchObs d)) (rw_all_states w) (map (\<lambda>r. map f (rw_held w r)) [0..<rw_procs w])"
    using w by (simp add: list_all2_conv_all_nth rw_all_states_def patch replica.patch_length)
  moreover have "map2 (\<lambda>d x. Replica_patchValues (isMyPatchObs d) x) (rw_all_states w) (map (\<lambda>r. map f (rw_held w r)) [0..<rw_procs w])
      = map (\<lambda>r. map f (rw_owned_locs w r)) [0..<rw_procs w]"
    unfolding rw_all_states_def map2_map_upt using w
    by (intro map_cong refl)
       (simp add: Replica_patchValues_eq patch replica.patch_length select_mask_map, simp add: rw_patch_eq rw_select)
  moreover have "c_allGatherv (rw_comm w) xss = concat xss" for xss
    using w by (simp add: rw_inv_def comm_ok_def mpi_allGatherv_eq)
  ultimately show "ReplicaOfGeneralDistribution_allGatherv (rw_comm w) (rw_all_states w) (map (\<lambda>r. map f (rw_held w r)) [0..<rw_procs w])
      = Inr (map (\<lambda>_. map f (rw_gathered w)) [0..<rw_procs w])"
    using w by (simp add: ReplicaOfGeneralDistribution_allGatherv_def rw_gathered_eq rw_all_owned_def map_concat comp_def rw_all_states_def)
  assume r: "r < rw_procs w" and i: "i < length (rw_held w r)"
  obtain v where v: "rw_states w = Inr (map (\<lambda>r. rw_assigned w r \<lparr>
        rep_globalUniqueConsecutiveLocIndices := map (\<lambda>g. v ! g) (rw_held w r), masterPatchRecords := {}, myGlobalLocs := [] \<rparr>) [0..<rw_procs w])"
      "\<And>i. i < length (rw_all_owned w) \<Longrightarrow> v ! (rw_all_owned w ! i) = i"
    using rw_states_ok [OF w] by blast
  have ix: "rw_gindex w r i = v ! (rw_held w r ! i)"
    using r i by (simp add: rw_gindex_def rw_state_def v(1) ReplicaOfGeneralDistribution_globalUniqueConsecutiveLocationIndex_def)
  have "rw_held w r ! i \<in> set (rw_held w r)" using i by simp
  from rw_owner_exists [OF w r this] have "rw_held w r ! i \<in> set (rw_all_owned w)" by (auto simp: rw_all_owned_def)
  then obtain k where "k < length (rw_all_owned w)" "rw_all_owned w ! k = rw_held w r ! i" by (auto simp: in_set_conv_nth)
  with v(2) show "rw_gindex w r i < length (rw_gathered w)" "rw_gathered w ! rw_gindex w r i = rw_held w r ! i"
    unfolding ix rw_gathered_eq [OF w] by metis+
qed

interpretation replica: reducing_distribution rw_inv rw_procs rw_held rw_patch
  "\<lambda>w. ReplicaOfGeneralDistribution_min (rw_comm w)" "\<lambda>w. ReplicaOfGeneralDistribution_max (rw_comm w)"
proof
  fix w :: "('x, 'v :: {comm_monoid_add, linorder}) replica_world" and q :: "nat \<Rightarrow> 'v"
  assume w: "rw_inv w" and ne: "\<And>r. r < rw_procs w \<Longrightarrow> rw_held w r \<noteq> []"
  have n: "rw_procs w > 0" and mpi: "mpi_min (c_min (rw_comm w))" "mpi_max (c_max (rw_comm w))"
    using w by (simp_all add: rw_inv_def comm_ok_def rw_procs_def)
  show "ReplicaOfGeneralDistribution_min (rw_comm w) (map (\<lambda>r. Min (q ` set (rw_held w r))) [0..<rw_procs w])
      = map (\<lambda>_. Min (q ` all_locs (rw_procs w) (rw_held w))) [0..<rw_procs w]"
    using replica.general_min [OF mpi(1) n ne, of q]
    by (simp add: ReplicaOfGeneralDistribution_min_def ReplicaOfGeneralDistribution_reductionImpl_def comp_def)
  show "ReplicaOfGeneralDistribution_max (rw_comm w) (map (\<lambda>r. Max (q ` set (rw_held w r))) [0..<rw_procs w])
      = map (\<lambda>_. Max (q ` all_locs (rw_procs w) (rw_held w))) [0..<rw_procs w]"
    using replica.general_max [OF mpi(2) n ne, of q]
    by (simp add: ReplicaOfGeneralDistribution_max_def ReplicaOfGeneralDistribution_reductionImpl_def comp_def)
qed

interpretation replica: summing_distribution rw_inv rw_procs rw_held rw_patch
  "\<lambda>w r. ReplicaOfGeneralDistribution_createAccumulator (rw_state w r) 0" GeneralDistributionAccumulator_addTerm
  "\<lambda>w. GeneralDistributionAccumulator_computeResult (c_sum (rw_comm w))"
proof
  fix w :: "('x, 'v :: {comm_monoid_add, linorder}) replica_world" and q :: "nat \<Rightarrow> 'v"
  assume w: "rw_inv w"
  then have "mpi_sum (c_sum (rw_comm w))" by (simp add: rw_inv_def comm_ok_def)
  from replica.general_sums_once [OF w this, of q]
  show "GeneralDistributionAccumulator_computeResult (c_sum (rw_comm w))
      (map (\<lambda>r. fold (\<lambda>i. GeneralDistributionAccumulator_addTerm i (q (rw_held w r ! i)))
          [0..<length (rw_held w r)] (ReplicaOfGeneralDistribution_createAccumulator (rw_state w r) 0)) [0..<rw_procs w])
      = map (\<lambda>_. sum q (all_locs (rw_procs w) (rw_held w))) [0..<rw_procs w]"
    by (simp add: ReplicaOfGeneralDistribution_createAccumulator_def rw_patch_def ReplicaOfGeneralDistribution_patchObs_def)
qed

interpretation replica: counting_distribution rw_inv rw_procs rw_held rw_patch
  "\<lambda>w r. ReplicaOfGeneralDistribution_createAccumulator (rw_state w r) 0" GeneralDistributionAccumulator_addTerm
  "\<lambda>w. GeneralDistributionAccumulator_computeResult (c_sum (rw_comm w))"
  by unfold_locales

interpretation replica: product_distribution rw_inv rw_procs rw_held rw_patch
  "\<lambda>w r. ReplicaOfGeneralDistribution_createAccumulator (rw_state w r) 0" GeneralDistributionAccumulator_addTerm
  "\<lambda>w. GeneralDistributionAccumulator_computeResult (c_sum (rw_comm w))"
  by unfold_locales

subsection \<open>Halo as the master\<close>

definition halo_replica :: "('x, 'v) halo_world \<Rightarrow> assign_call list \<Rightarrow> ('x, 'v) replica_world" where
  "halo_replica w calls = \<lparr> rw_comm = hw_comm w, rw_isMy = (\<lambda>r. Halo_isMyRecord (hw_state w r)),
     rw_masterPatch = hw_patch w,
     rw_masterRecs = (\<lambda>r. map call_rec (filter (\<lambda>c. Halo_isMyRecord (hw_state w r) (call_rec c)) (hw_calls w))),
     rw_calls = calls \<rparr>"

lemma hw_isMy:
  assumes "hw_inv w" "r < hw_procs w"
  shows "Halo_isMyRecord (hw_state w r) = in_halo (hw_distance w) (hw_config w r) (hw_calls w)"
proof -
  have "recordsInHalo (Halo_setPatchObs n r glb h) = recordsInHalo h" for n glb h
    by (simp add: Halo_setPatchObs_def Halo_computeGlobalUniqueConsecutiveLocIndices_def Let_def split_def)
  then have "recordsInHalo (hw_state w r) = recordsInHalo (hw_assigned w r)"
    using assms(2) by (simp add: hw_state_def hw_states_eq [OF assms(1)] Let_def)
  then show ?thesis by (simp add: fun_eq_iff Halo_isMyRecord_def hw_assigned_def assigned_halo_state)
qed

lemma hw_held_calls:
  assumes "hw_inv w" "r < hw_procs w" "c \<in> set (hw_calls w)"
  shows "call_loc c \<in> set (hw_held w r) \<longleftrightarrow> Halo_isMyRecord (hw_state w r) (call_rec c)"
proof -
  have my: "Halo_isMyRecord (hw_assigned w r) = Halo_isMyRecord (hw_state w r)"
    unfolding hw_isMy [OF assms(1,2)] by (simp add: fun_eq_iff Halo_isMyRecord_def hw_assigned_def assigned_halo_state)
  have "inj_on call_loc (set (hw_calls w))" using hw_distinct [OF assms(1)] by (simp add: distinct_map)
  then show ?thesis
    using assms(3) unfolding hw_held_def set_kept_locs my by (auto simp del: split_paired_Ex dest: inj_onD)
qed

text \<open>All locations of a record have the same owner.\<close>

lemma hw_owner_record:
  assumes "hw_inv w" "c \<in> set (hw_calls w)" "c' \<in> set (hw_calls w)" "call_rec c = call_rec c'"
    and "r < hw_procs w" "call_loc c \<in> set (hw_held w r)"
  shows "hw_owner w (call_loc c) = hw_owner w (call_loc c')"
proof -
  have held: "call_loc c \<in> set (hw_held w r) \<longleftrightarrow> call_loc c' \<in> set (hw_held w r)" if "r < hw_procs w" for r
    using hw_held_calls [OF assms(1) that] assms(2-4) by simp
  have dist: "hw_dist w r (call_loc c) = hw_dist w r (call_loc c')" for r
    using record_of_call [OF hw_distinct [OF assms(1)]] assms(2-4) by (simp add: hw_dist_def)
  have c': "call_loc c' \<in> set (hw_held w r)" using held assms(5,6) by simp
  note o = hw_owner_holds [OF assms(1)]
  let ?o = "hw_owner w (call_loc c)" and ?o' = "hw_owner w (call_loc c')"
  have r: "?o < hw_procs w" "?o' < hw_procs w" using o(1) assms(5,6) c' by blast+
  have h: "call_loc c \<in> set (hw_held w ?o')" "call_loc c' \<in> set (hw_held w ?o)"
    using o(2) [OF assms(5,6)] o(2) [OF assms(5) c'] held r by auto
  have "hw_dist w ?o (call_loc c) = hw_dist w ?o' (call_loc c)"
    using o(3) [OF r(2) h(1)] o(3) [OF r(1) h(2)] dist by simp
  then show ?thesis using o(4) [OF r(2) h(1)] o(4) [OF r(1) h(2)] dist by simp
qed

lemma halo_replica_patchRecs:
  assumes "hw_inv w" "r < hw_procs w"
  shows "rec \<in> rw_patchRecs (halo_replica w calls) r \<longleftrightarrow>
    (\<exists>c \<in> set (hw_calls w). call_rec c = rec \<and> call_loc c \<in> set (hw_held w r) \<and> hw_owner w (call_loc c) = r)"
proof -
  let ?cs = "filter (\<lambda>c. Halo_isMyRecord (hw_state w r) (call_rec c)) (hw_calls w)"
  have "hw_held w r = map call_loc ?cs"
    unfolding hw_held_def kept_locs_def hw_isMy [OF assms]
    by (simp add: Halo_isMyRecord_def hw_assigned_def assigned_halo_state)
  then have "select_mask (hw_patch w r) (map call_rec ?cs) = map call_rec (filter (\<lambda>c. hw_owner w (call_loc c) = r) ?cs)"
    by (simp add: hw_patch_eq [OF assms] select_mask_map select_mask_by_pred comp_def)
  then show ?thesis
    using hw_held_calls [OF assms] by (auto simp: rw_patchRecs_def halo_replica_def)
qed

lemma halo_replica_inv:
  assumes "hw_inv w" "sorted_wrt (<) (map call_loc calls)" "length calls < UNASSIGNED"
  shows "rw_inv (halo_replica w calls)"
proof -
  let ?w = "halo_replica w calls"
  have n: "rw_procs ?w = hw_procs w" by (simp add: rw_procs_def hw_procs_def halo_replica_def)
  have exists: "\<exists>r' < hw_procs w. rw_isMy ?w r' rec \<and> rec \<in> rw_patchRecs ?w r'"
    if r: "r < hw_procs w" and my: "rw_isMy ?w r rec" for r rec
  proof -
    from my obtain c where c: "c \<in> set (hw_calls w)" "call_rec c = rec"
      by (auto simp: halo_replica_def hw_isMy [OF assms(1) r] in_halo_def)
    have g: "call_loc c \<in> set (hw_held w r)"
      using my c hw_held_calls [OF assms(1) r c(1)] by (simp add: halo_replica_def)
    let ?o = "hw_owner w (call_loc c)"
    note o = hw_owner_holds(1,2) [OF assms(1) r g]
    have "rw_isMy ?w ?o rec" using hw_held_calls [OF assms(1) o(1) c(1)] o(2) c(2) by (simp add: halo_replica_def)
    moreover have "rec \<in> rw_patchRecs ?w ?o" unfolding halo_replica_patchRecs [OF assms(1) o(1)] using c o(2) by blast
    ultimately show ?thesis using o(1) by blast
  qed
  have unique: "r = r'" if "r < hw_procs w" "r' < hw_procs w" "rec \<in> rw_patchRecs ?w r" "rec \<in> rw_patchRecs ?w r'" for r r' rec
    using that(3,4) hw_owner_record [OF assms(1)] that(1,2)
    unfolding halo_replica_patchRecs [OF assms(1) that(1)] halo_replica_patchRecs [OF assms(1) that(2)] by metis
  have len: "length (rw_masterPatch ?w r) = length (rw_masterRecs ?w r)" if r: "r < hw_procs w" for r
  proof -
    have "hw_held w r = map call_loc (filter (\<lambda>c. Halo_isMyRecord (hw_state w r) (call_rec c)) (hw_calls w))"
      unfolding hw_held_def kept_locs_def hw_isMy [OF assms(1) r]
      by (simp add: Halo_isMyRecord_def hw_assigned_def assigned_halo_state)
    then show ?thesis by (simp add: halo_replica_def hw_patch_eq [OF assms(1) r])
  qed
  have ok: "comm_ok (rw_comm ?w)" "rw_calls ?w = calls" using assms(1) by (simp_all add: halo_replica_def hw_inv_def)
  show ?thesis unfolding rw_inv_def n ok(2)
    by (intro conjI ballI allI impI ok(1) assms(2,3) len exists) (auto intro: unique)
qed

section \<open>PairOfDistributions\<close>

text \<open>
  The members of \<open>PairOfDistributions\<close> on one rank. The methods of \<open>first_\<close> and \<open>second_\<close> are parameters.
\<close>

record pair_distribution =
  firstNumLocs :: nat
  secondRecordNumOffset :: nat
  secondGlobalUniqueConsecutiveLocationIndexOffset :: nat

definition PairOfDistributions_localOffset :: "(nat \<Rightarrow> nat) \<Rightarrow> nat \<Rightarrow> nat" where
  "PairOfDistributions_localOffset first_index numLocs = (if numLocs > 0 then first_index (numLocs - 1) + 1 else 0)"

definition PairOfDistributions ::
    "(nat list \<Rightarrow> nat list) \<Rightarrow> (nat \<Rightarrow> nat \<Rightarrow> nat) \<Rightarrow> nat list \<Rightarrow> nat list \<Rightarrow> pair_distribution list" where
  "PairOfDistributions first_max first_index numLocs recordNumOffsets =
     (let offsets = first_max (map (\<lambda>r. PairOfDistributions_localOffset (first_index r) (numLocs ! r)) [0..<length numLocs])
      in map (\<lambda>r. \<lparr> firstNumLocs = numLocs ! r, secondRecordNumOffset = recordNumOffsets ! r,
           secondGlobalUniqueConsecutiveLocationIndexOffset = offsets ! r \<rparr>) [0..<length numLocs])"

definition PairOfDistributions_assignRecord :: "assign_call \<Rightarrow> pair_distribution \<Rightarrow> pair_distribution result" where
  "PairOfDistributions_assignRecord c d = Inl NotImplemented"

definition PairOfDistributions_isMyRecord ::
    "(nat \<Rightarrow> bool) \<Rightarrow> (nat \<Rightarrow> bool) \<Rightarrow> pair_distribution \<Rightarrow> nat \<Rightarrow> bool" where
  "PairOfDistributions_isMyRecord first_isMy second_isMy d RecNum =
     (if RecNum < secondRecordNumOffset d then first_isMy RecNum else second_isMy (RecNum - secondRecordNumOffset d))"

definition PairOfDistributions_patchObs ::
    "(bool list \<Rightarrow> bool list) \<Rightarrow> (bool list \<Rightarrow> bool list) \<Rightarrow> pair_distribution \<Rightarrow> bool list \<Rightarrow> bool list result" where
  "PairOfDistributions_patchObs first_patchObs second_patchObs d patchObsVec =
     (if length patchObsVec < firstNumLocs d then Inl AssertionFailed
      else let secondNumObs = length patchObsVec - firstNumLocs d;
               secondPatchObsVec = second_patchObs (replicate secondNumObs False)
           in Inr (first_patchObs (take (firstNumLocs d) patchObsVec) @ secondPatchObsVec))"

definition PairOfDistributions_min :: "('v list \<Rightarrow> 'v list) \<Rightarrow> ('v list \<Rightarrow> 'v list) \<Rightarrow> 'v list \<Rightarrow> 'v list" where
  "PairOfDistributions_min first_min second_min xs = second_min (first_min xs)"

definition PairOfDistributions_max :: "('v list \<Rightarrow> 'v list) \<Rightarrow> ('v list \<Rightarrow> 'v list) \<Rightarrow> 'v list \<Rightarrow> 'v list" where
  "PairOfDistributions_max first_max second_max xs = second_max (first_max xs)"

definition PairOfDistributions_allGatherv ::
    "('x list list \<Rightarrow> 'x list list result) \<Rightarrow> ('x list list \<Rightarrow> 'x list list result) \<Rightarrow>
     pair_distribution list \<Rightarrow> 'x list list \<Rightarrow> 'x list list result" where
  "PairOfDistributions_allGatherv first_allGatherv second_allGatherv ds xss =
     bind_result (first_allGatherv (map2 (\<lambda>d x. take (firstNumLocs d) x) ds xss)) (\<lambda>firstX.
     bind_result (second_allGatherv (map2 (\<lambda>d x. drop (firstNumLocs d) x) ds xss)) (\<lambda>secondX.
     Inr (map2 (@) firstX secondX)))"

definition PairOfDistributions_globalUniqueConsecutiveLocationIndex ::
    "(nat \<Rightarrow> nat) \<Rightarrow> (nat \<Rightarrow> nat) \<Rightarrow> pair_distribution \<Rightarrow> nat \<Rightarrow> nat" where
  "PairOfDistributions_globalUniqueConsecutiveLocationIndex first_index second_index d loc =
     (if loc < firstNumLocs d then first_index loc
      else secondGlobalUniqueConsecutiveLocationIndexOffset d + second_index (loc - firstNumLocs d))"

record ('a1, 'a2) pair_accumulator =
  firstAccumulator :: 'a1
  secondAccumulator :: 'a2
  acc_firstNumLocs :: nat

definition PairOfDistributions_createAccumulator :: "'a1 \<Rightarrow> 'a2 \<Rightarrow> pair_distribution \<Rightarrow> ('a1, 'a2) pair_accumulator" where
  "PairOfDistributions_createAccumulator first_acc second_acc d =
     \<lparr> firstAccumulator = first_acc, secondAccumulator = second_acc, acc_firstNumLocs = firstNumLocs d \<rparr>"

definition PairOfDistributionsAccumulator_addTerm ::
    "(nat \<Rightarrow> 'v \<Rightarrow> 'a1 \<Rightarrow> 'a1) \<Rightarrow> (nat \<Rightarrow> 'v \<Rightarrow> 'a2 \<Rightarrow> 'a2) \<Rightarrow> nat \<Rightarrow> 'v \<Rightarrow> ('a1, 'a2) pair_accumulator \<Rightarrow> ('a1, 'a2) pair_accumulator" where
  "PairOfDistributionsAccumulator_addTerm first_addTerm second_addTerm loc term a =
     (if loc < acc_firstNumLocs a then a \<lparr> firstAccumulator := first_addTerm loc term (firstAccumulator a) \<rparr>
      else a \<lparr> secondAccumulator := second_addTerm (loc - acc_firstNumLocs a) term (secondAccumulator a) \<rparr>)"

definition PairOfDistributionsAccumulator_computeResult ::
    "('a1 list \<Rightarrow> 'v :: plus list) \<Rightarrow> ('a2 list \<Rightarrow> 'v list) \<Rightarrow> ('a1, 'a2) pair_accumulator list \<Rightarrow> 'v list" where
  "PairOfDistributionsAccumulator_computeResult first_computeResult second_computeResult as =
     map2 (+) (first_computeResult (map firstAccumulator as)) (second_computeResult (map secondAccumulator as))"

subsection \<open>The contract of a pair\<close>

text \<open>The locations of the pair: those of the first distribution, then those of the second.\<close>

definition pair_held :: "('d1 \<Rightarrow> nat \<Rightarrow> 'l1 list) \<Rightarrow> ('d2 \<Rightarrow> nat \<Rightarrow> 'l2 list) \<Rightarrow> 'd1 \<times> 'd2 \<Rightarrow> nat \<Rightarrow> ('l1 + 'l2) list" where
  "pair_held held1 held2 d r = map Inl (held1 (fst d) r) @ map Inr (held2 (snd d) r)"

definition pair_state ::
    "('d1 \<Rightarrow> nat) \<Rightarrow> ('d1 \<Rightarrow> nat \<Rightarrow> 'l1 list) \<Rightarrow> ('d1 \<Rightarrow> nat list \<Rightarrow> nat list) \<Rightarrow> ('d1 \<Rightarrow> nat \<Rightarrow> nat \<Rightarrow> nat) \<Rightarrow>
     'd1 \<times> 'd2 \<Rightarrow> pair_distribution list" where
  "pair_state procs1 held1 max1 index1 d =
     PairOfDistributions (max1 (fst d)) (index1 (fst d)) (map (\<lambda>r. length (held1 (fst d) r)) [0..<procs1 (fst d)])
       (replicate (procs1 (fst d)) 0)"

definition pair_patch ::
    "('d1 \<Rightarrow> nat \<Rightarrow> bool list) \<Rightarrow> ('d2 \<Rightarrow> nat \<Rightarrow> bool list) \<Rightarrow> ('d1 \<times> 'd2 \<Rightarrow> pair_distribution list) \<Rightarrow>
     ('d1 \<times> 'd2 \<Rightarrow> nat \<Rightarrow> ('l1 + 'l2) list) \<Rightarrow> 'd1 \<times> 'd2 \<Rightarrow> nat \<Rightarrow> bool list" where
  "pair_patch patch1 patch2 state held d r =
     (case PairOfDistributions_patchObs (\<lambda>_. patch1 (fst d) r) (\<lambda>_. patch2 (snd d) r) (state d ! r)
        (replicate (length (held d r)) False) of Inr bs \<Rightarrow> bs | Inl e \<Rightarrow> [])"

definition pair_gathered :: "('d1 \<Rightarrow> 'l1 list) \<Rightarrow> ('d2 \<Rightarrow> 'l2 list) \<Rightarrow> 'd1 \<times> 'd2 \<Rightarrow> ('l1 + 'l2) list" where
  "pair_gathered gathered1 gathered2 d = map Inl (gathered1 (fst d)) @ map Inr (gathered2 (snd d))"

definition pair_allGatherv ::
    "('d1 \<Rightarrow> 'x list list \<Rightarrow> 'x list list result) \<Rightarrow> ('d2 \<Rightarrow> 'x list list \<Rightarrow> 'x list list result) \<Rightarrow>
     ('d1 \<times> 'd2 \<Rightarrow> pair_distribution list) \<Rightarrow> 'd1 \<times> 'd2 \<Rightarrow> 'x list list \<Rightarrow> 'x list list result" where
  "pair_allGatherv gather1 gather2 state d = PairOfDistributions_allGatherv (gather1 (fst d)) (gather2 (snd d)) (state d)"

definition pair_gindex ::
    "('d1 \<Rightarrow> nat \<Rightarrow> nat \<Rightarrow> nat) \<Rightarrow> ('d2 \<Rightarrow> nat \<Rightarrow> nat \<Rightarrow> nat) \<Rightarrow> ('d1 \<times> 'd2 \<Rightarrow> pair_distribution list) \<Rightarrow>
     'd1 \<times> 'd2 \<Rightarrow> nat \<Rightarrow> nat \<Rightarrow> nat" where
  "pair_gindex index1 index2 state d r =
     PairOfDistributions_globalUniqueConsecutiveLocationIndex (index1 (fst d) r) (index2 (snd d) r) (state d ! r)"

definition pair_inv :: "('d1 \<Rightarrow> bool) \<Rightarrow> ('d2 \<Rightarrow> bool) \<Rightarrow> ('d1 \<Rightarrow> nat) \<Rightarrow> ('d2 \<Rightarrow> nat) \<Rightarrow> 'd1 \<times> 'd2 \<Rightarrow> bool" where
  "pair_inv inv1 inv2 procs1 procs2 d \<longleftrightarrow> inv1 (fst d) \<and> inv2 (snd d) \<and> procs1 (fst d) = procs2 (snd d)"

lemma pair_state_nth:
  assumes "r < procs1 (fst d)"
  shows "firstNumLocs (pair_state procs1 held1 max1 index1 d ! r) = length (held1 (fst d) r)"
    and "secondGlobalUniqueConsecutiveLocationIndexOffset (pair_state procs1 held1 max1 index1 d ! r)
      = max1 (fst d) (map (\<lambda>r. PairOfDistributions_localOffset (index1 (fst d) r) (length (held1 (fst d) r))) [0..<procs1 (fst d)]) ! r"
    and "length (pair_state procs1 held1 max1 index1 d) = procs1 (fst d)"
proof -
  have e: "map (\<lambda>x. PairOfDistributions_localOffset (index1 (fst d) x) (map (\<lambda>r. length (held1 (fst d) r)) [0..<procs1 (fst d)] ! x)) [0..<procs1 (fst d)]
      = map (\<lambda>r. PairOfDistributions_localOffset (index1 (fst d) r) (length (held1 (fst d) r))) [0..<procs1 (fst d)]"
    by simp
  show "firstNumLocs (pair_state procs1 held1 max1 index1 d ! r) = length (held1 (fst d) r)"
    and "secondGlobalUniqueConsecutiveLocationIndexOffset (pair_state procs1 held1 max1 index1 d ! r)
      = max1 (fst d) (map (\<lambda>r. PairOfDistributions_localOffset (index1 (fst d) r) (length (held1 (fst d) r))) [0..<procs1 (fst d)]) ! r"
    and "length (pair_state procs1 held1 max1 index1 d) = procs1 (fst d)"
    using assms by (simp_all add: pair_state_def PairOfDistributions_def Let_def e)
qed

locale pair_of_distributions =
  first: gathering_distribution inv1 procs1 held1 patch1 gathered1 gather1 index1 +
  second: gathering_distribution inv2 procs2 held2 patch2 gathered2 gather2 index2
  for inv1 :: "'d1 \<Rightarrow> bool" and procs1 and held1 :: "'d1 \<Rightarrow> nat \<Rightarrow> 'l1 list" and patch1 gathered1
    and gather1 :: "'d1 \<Rightarrow> 'x list list \<Rightarrow> 'x list list result" and index1
    and inv2 :: "'d2 \<Rightarrow> bool" and procs2 and held2 :: "'d2 \<Rightarrow> nat \<Rightarrow> 'l2 list" and patch2 gathered2
    and gather2 :: "'d2 \<Rightarrow> 'x list list \<Rightarrow> 'x list list result" and index2 +
  fixes max1 :: "'d1 \<Rightarrow> nat list \<Rightarrow> nat list"
  assumes offset_complete: "inv1 d \<Longrightarrow> r < procs1 d \<Longrightarrow>
    max1 d (map (\<lambda>r. PairOfDistributions_localOffset (index1 d r) (length (held1 d r))) [0..<procs1 d]) ! r
      = length (gathered1 d)"
begin

lemma pair_patch_eq:
  assumes "pair_inv inv1 inv2 procs1 procs2 d" "r < procs1 (fst d)"
  shows "pair_patch patch1 patch2 (pair_state procs1 held1 max1 index1) (pair_held held1 held2) d r
    = patch1 (fst d) r @ patch2 (snd d) r"
  using assms by (simp add: pair_patch_def PairOfDistributions_patchObs_def pair_state_nth pair_held_def Let_def)

lemma pair_select:
  assumes "pair_inv inv1 inv2 procs1 procs2 d" "r < procs1 (fst d)"
  shows "select_mask (pair_patch patch1 patch2 (pair_state procs1 held1 max1 index1) (pair_held held1 held2) d r) (pair_held held1 held2 d r)
    = map Inl (select_mask (patch1 (fst d) r) (held1 (fst d) r)) @ map Inr (select_mask (patch2 (snd d) r) (held2 (snd d) r))"
  using assms first.patch_length
  by (simp add: pair_patch_eq pair_held_def pair_inv_def select_mask_append select_mask_map)

lemma pair_all_locs:
  "pair_inv inv1 inv2 procs1 procs2 d \<Longrightarrow>
   all_locs (procs1 (fst d)) (pair_held held1 held2 d)
     = Inl ` all_locs (procs1 (fst d)) (held1 (fst d)) \<union> Inr ` all_locs (procs2 (snd d)) (held2 (snd d))"
  by (auto simp: all_locs_def pair_held_def pair_inv_def)

end

sublocale pair_of_distributions \<subseteq> pair: gathering_distribution
  "pair_inv inv1 inv2 procs1 procs2" "\<lambda>d. procs1 (fst d)" "pair_held held1 held2"
  "pair_patch patch1 patch2 (pair_state procs1 held1 max1 index1) (pair_held held1 held2)"
  "pair_gathered gathered1 gathered2"
  "pair_allGatherv gather1 gather2 (pair_state procs1 held1 max1 index1)"
  "pair_gindex index1 index2 (pair_state procs1 held1 max1 index1)"
proof
  fix d r r' i and g :: "'l1 + 'l2" and f :: "'l1 + 'l2 \<Rightarrow> 'x"
  assume d: "pair_inv inv1 inv2 procs1 procs2 d"
  then have d1: "inv1 (fst d)" and d2: "inv2 (snd d)" and n: "procs2 (snd d) = procs1 (fst d)"
    by (simp_all add: pair_inv_def)
  note sel = pair_select [OF d]
  let ?state = "pair_state procs1 held1 max1 index1"
  let ?held = "pair_held held1 held2" and ?patch = "pair_patch patch1 patch2 (pair_state procs1 held1 max1 index1) (pair_held held1 held2)"
  show "distinct (pair_gathered gathered1 gathered2 d)"
    using first.gathered_distinct [OF d1] second.gathered_distinct [OF d2]
    by (auto simp: pair_gathered_def distinct_map inj_on_def)
  show "set (pair_gathered gathered1 gathered2 d) = all_locs (procs1 (fst d)) (?held d)"
    using first.gathered_set [OF d1] second.gathered_set [OF d2] pair_all_locs [OF d] by (simp add: pair_gathered_def)
  have split: "map2 (\<lambda>s x. take (firstNumLocs s) x) (?state d) (map (\<lambda>r. map f (?held d r)) [0..<procs1 (fst d)])
      = map (\<lambda>r. map (f \<circ> Inl) (held1 (fst d) r)) [0..<procs1 (fst d)]"
    "map2 (\<lambda>s x. drop (firstNumLocs s) x) (?state d) (map (\<lambda>r. map f (?held d r)) [0..<procs1 (fst d)])
      = map (\<lambda>r. map (f \<circ> Inr) (held2 (snd d) r)) [0..<procs1 (fst d)]"
    by (rule nth_equalityI; cases "procs1 (fst d) = 0";
        auto simp: pair_state_nth pair_held_def take_map drop_map pair_state_def PairOfDistributions_def Let_def)+
  show "pair_allGatherv gather1 gather2 ?state d (map (\<lambda>r. map f (?held d r)) [0..<procs1 (fst d)])
      = Inr (map (\<lambda>_. map f (pair_gathered gathered1 gathered2 d)) [0..<procs1 (fst d)])"
    using first.gathers [OF d1, of "f \<circ> Inl"] second.gathers [OF d2, of "f \<circ> Inr"]
    by (simp add: pair_allGatherv_def PairOfDistributions_allGatherv_def split n map2_map_upt pair_gathered_def)
  assume r: "r < procs1 (fst d)"
  show "length (?patch d r) = length (?held d r)"
    using first.patch_length [OF d1] second.patch_length [OF d2] r n by (simp add: pair_patch_eq [OF d] pair_held_def)
  show "distinct (?held d r)"
    using first.held_distinct [OF d1] second.held_distinct [OF d2] r n
    by (auto simp: pair_held_def distinct_map inj_on_def)
  show "\<exists>r' < procs1 (fst d). g \<in> set (select_mask (?patch d r') (?held d r'))" if "g \<in> set (?held d r)"
  proof (cases g)
    case (Inl a)
    then have "a \<in> set (held1 (fst d) r)" using that by (auto simp: pair_held_def)
    from first.owner_exists [OF d1 r this] show ?thesis using Inl sel by force
  next
    case (Inr a)
    then have "a \<in> set (held2 (snd d) r)" using that by (auto simp: pair_held_def)
    from second.owner_exists [OF d2 _ this] show ?thesis using Inr sel r n by force
  qed
  show "r = r'" if "r' < procs1 (fst d)" "g \<in> set (select_mask (?patch d r) (?held d r))"
      "g \<in> set (select_mask (?patch d r') (?held d r'))"
    using that first.owner_unique [OF d1 r, of r'] second.owner_unique [OF d2, of r r'] r n
    by (auto simp: sel)
  assume i: "i < length (?held d r)"
  have offset: "secondGlobalUniqueConsecutiveLocationIndexOffset (?state d ! r) = length (gathered1 (fst d))"
    by (subst pair_state_nth(2)) (simp_all add: r offset_complete [OF d1 r])
  have num: "firstNumLocs (?state d ! r) = length (held1 (fst d) r)"
    by (rule pair_state_nth(1)) (rule r)
  have 1: "index1 (fst d) r i < length (gathered1 (fst d)) \<and> gathered1 (fst d) ! index1 (fst d) r i = held1 (fst d) r ! i"
    if "i < length (held1 (fst d) r)"
    using first.gindex_bound [OF d1 r that] first.gindex_nth [OF d1 r that] by simp
  have 2: "index2 (snd d) r j < length (gathered2 (snd d)) \<and> gathered2 (snd d) ! index2 (snd d) r j = held2 (snd d) r ! j"
    if "j < length (held2 (snd d) r)" for j
    using second.gindex_bound [OF d2 _ that] second.gindex_nth [OF d2 _ that] r n by simp
  show "pair_gindex index1 index2 ?state d r i < length (pair_gathered gathered1 gathered2 d)"
    using i 1 2 [of "i - length (held1 (fst d) r)"]
    by (auto simp: pair_gindex_def PairOfDistributions_globalUniqueConsecutiveLocationIndex_def num offset pair_gathered_def pair_held_def)
  show "pair_gathered gathered1 gathered2 d ! pair_gindex index1 index2 ?state d r i = ?held d r ! i"
    using i 1 2 [of "i - length (held1 (fst d) r)"]
    by (auto simp: pair_gindex_def PairOfDistributions_globalUniqueConsecutiveLocationIndex_def num offset pair_gathered_def pair_held_def nth_append)
qed

text \<open>The offset is complete for a non-overlapping and for an inefficient first distribution.\<close>

lemma nonov_offset_complete:
  fixes w :: "('x, 'v :: {comm_monoid_add, linorder}) nonov_world"
  assumes "nw_inv w" "r < nw_procs w"
  shows "NonoverlappingDistribution_reductionImpl (c_max_size (nw_comm w))
      (map (\<lambda>r. PairOfDistributions_localOffset (nw_gindex w r) (length (nw_held w r))) [0..<nw_procs w]) ! r
    = length (nw_gathered w)"
proof -
  let ?blocks = "map (nw_held w) [0..<nw_procs w]"
  let ?offset = "\<lambda>r. PairOfDistributions_localOffset (nw_gindex w r) (length (nw_held w r))"
  have total: "length (nw_gathered w) = block_start ?blocks (nw_procs w)"
    using block_start_length [of ?blocks] by (simp add: nw_gathered_eq)
  have off: "?offset r = (if nw_held w r = [] then 0 else block_start ?blocks (Suc r))" if "r < nw_procs w" for r
    using that block_start_Suc [of r ?blocks]
    by (simp add: PairOfDistributions_localOffset_def nw_gindex_def nw_states_nth [OF assms(1)]
        NonoverlappingDistribution_globalUniqueConsecutiveLocationIndex_def)
  have mono: "block_start ?blocks r \<le> block_start ?blocks (nw_procs w)" if "r \<le> nw_procs w" for r
  proof -
    have "map length ?blocks = map length (take r ?blocks) @ map length (drop r ?blocks)" by (metis append_take_drop_id map_append)
    then show ?thesis by (simp add: block_start_def)
  qed
  have reach: "\<exists>r < n. nw_held w r \<noteq> [] \<and> block_start ?blocks (Suc r) = block_start ?blocks n" if "n \<le> nw_procs w" "block_start ?blocks n > 0" for n
    using that
  proof (induction n)
    case 0
    then show ?case by simp
  next
    case (Suc n)
    show ?case
    proof (cases "nw_held w n = []")
      case True
      then have "block_start ?blocks (Suc n) = block_start ?blocks n" using Suc.prems block_start_Suc [of n ?blocks] by simp
      with Suc show ?thesis by (metis Suc_leD less_SucI)
    qed blast
  qed
  have "c_max_size (nw_comm w) (map ?offset [0..<nw_procs w]) = length (nw_gathered w)"
  proof (rule mpi_max_eqI)
    show "mpi_max (c_max_size (nw_comm w))" using assms(1) by (simp add: nw_inv_def comm_ok_def)
    show "length (nw_gathered w) \<in> set (map ?offset [0..<nw_procs w])"
    proof (cases "block_start ?blocks (nw_procs w) > 0")
      case True
      then obtain r' where "r' < nw_procs w" "nw_held w r' \<noteq> []" "block_start ?blocks (Suc r') = block_start ?blocks (nw_procs w)"
        using reach [of "nw_procs w"] by blast
      then show ?thesis using off by (force simp: total)
    next
      case False
      then have "nw_held w r = []" using block_start_Suc [of r ?blocks] mono [of "Suc r"] assms(2) by simp
      then show ?thesis using off assms(2) False by (force simp: total)
    qed
    show "x \<le> length (nw_gathered w)" if "x \<in> set (map ?offset [0..<nw_procs w])" for x
      using that mono off by (auto simp: total Suc_leI)
  qed
  then show ?thesis using assms(2) by (simp add: NonoverlappingDistribution_reductionImpl_def)
qed

interpretation nonov_pair: pair_of_distributions nw_inv nw_procs nw_held nw_patch nw_gathered
  "\<lambda>w. NonoverlappingDistribution_allGatherv (nw_comm w) (nw_states w)" nw_gindex
  nw_inv nw_procs nw_held nw_patch nw_gathered
  "\<lambda>w. NonoverlappingDistribution_allGatherv (nw_comm w) (nw_states w)" nw_gindex
  "\<lambda>w. NonoverlappingDistribution_reductionImpl (c_max_size (nw_comm w))"
  by unfold_locales (rule nonov_offset_complete)

interpretation ineff_pair: pair_of_distributions iw_inv fst iw_held iw_patch "\<lambda>w. map call_loc (snd w)"
  "\<lambda>w. InefficientDistribution_allGatherv" "\<lambda>w r. InefficientDistribution_globalUniqueConsecutiveLocationIndex"
  iw_inv fst iw_held iw_patch "\<lambda>w. map call_loc (snd w)"
  "\<lambda>w. InefficientDistribution_allGatherv" "\<lambda>w r. InefficientDistribution_globalUniqueConsecutiveLocationIndex"
  "\<lambda>w. InefficientDistribution_max"
  by unfold_locales (auto simp: InefficientDistribution_max_def PairOfDistributions_localOffset_def iw_held_const
      InefficientDistribution_globalUniqueConsecutiveLocationIndex_def)

subsection \<open>The accumulator of a pair\<close>

locale pair_of_summing =
  pair_of_distributions inv1 procs1 held1 patch1 gathered1 gather1 index1 inv2 procs2 held2 patch2 gathered2 gather2 index2 max1 +
  first: summing_distribution inv1 procs1 held1 patch1 create1 add1 compute1 +
  second: summing_distribution inv2 procs2 held2 patch2 create2 add2 compute2
  for inv1 :: "'d1 \<Rightarrow> bool" and procs1 and held1 :: "'d1 \<Rightarrow> nat \<Rightarrow> 'l1 list" and patch1 gathered1
    and gather1 :: "'d1 \<Rightarrow> 'x list list \<Rightarrow> 'x list list result" and index1
    and inv2 :: "'d2 \<Rightarrow> bool" and procs2 and held2 :: "'d2 \<Rightarrow> nat \<Rightarrow> 'l2 list" and patch2 gathered2
    and gather2 :: "'d2 \<Rightarrow> 'x list list \<Rightarrow> 'x list list result" and index2 max1
    and create1 and add1 :: "nat \<Rightarrow> 'v :: comm_monoid_add \<Rightarrow> 'a1 \<Rightarrow> 'a1" and compute1
    and create2 and add2 :: "nat \<Rightarrow> 'v \<Rightarrow> 'a2 \<Rightarrow> 'a2" and compute2

lemma pair_fold_addTerm:
  fixes a :: "('a1, 'a2) pair_accumulator"
  shows "n \<le> acc_firstNumLocs a \<Longrightarrow>
    fold (\<lambda>i. PairOfDistributionsAccumulator_addTerm add1 add2 i (t i)) [0..<n] a
      = a \<lparr> firstAccumulator := fold (\<lambda>i. add1 i (t i)) [0..<n] (firstAccumulator a) \<rparr>"
    and "acc_firstNumLocs a = n \<Longrightarrow>
    fold (\<lambda>i. PairOfDistributionsAccumulator_addTerm add1 add2 i (t i)) [n..<n + m] a
      = a \<lparr> secondAccumulator := fold (\<lambda>i. add2 i (t (n + i))) [0..<m] (secondAccumulator a) \<rparr>"
proof -
  show "n \<le> acc_firstNumLocs a \<Longrightarrow>
    fold (\<lambda>i. PairOfDistributionsAccumulator_addTerm add1 add2 i (t i)) [0..<n] a
      = a \<lparr> firstAccumulator := fold (\<lambda>i. add1 i (t i)) [0..<n] (firstAccumulator a) \<rparr>"
    by (induction n) (simp_all add: PairOfDistributionsAccumulator_addTerm_def)
  show "acc_firstNumLocs a = n \<Longrightarrow>
    fold (\<lambda>i. PairOfDistributionsAccumulator_addTerm add1 add2 i (t i)) [n..<n + m] a
      = a \<lparr> secondAccumulator := fold (\<lambda>i. add2 i (t (n + i))) [0..<m] (secondAccumulator a) \<rparr>"
    by (induction m) (simp_all add: PairOfDistributionsAccumulator_addTerm_def)
qed

sublocale pair_of_summing \<subseteq> pair: summing_distribution
  "pair_inv inv1 inv2 procs1 procs2" "\<lambda>d. procs1 (fst d)" "pair_held held1 held2"
  "pair_patch patch1 patch2 (pair_state procs1 held1 max1 index1) (pair_held held1 held2)"
  "\<lambda>d r. PairOfDistributions_createAccumulator (create1 (fst d) r) (create2 (snd d) r) (pair_state procs1 held1 max1 index1 d ! r)"
  "PairOfDistributionsAccumulator_addTerm add1 add2"
  "\<lambda>d. PairOfDistributionsAccumulator_computeResult (compute1 (fst d)) (compute2 (snd d))"
proof
  fix d and q :: "'l1 + 'l2 \<Rightarrow> 'v"
  assume d: "pair_inv inv1 inv2 procs1 procs2 d"
  then have d1: "inv1 (fst d)" and d2: "inv2 (snd d)" and n: "procs2 (snd d) = procs1 (fst d)"
    by (simp_all add: pair_inv_def)
  let ?acc = "\<lambda>r. PairOfDistributions_createAccumulator (create1 (fst d) r) (create2 (snd d) r) (pair_state procs1 held1 max1 index1 d ! r)"
  let ?run = "\<lambda>r. fold (\<lambda>i. PairOfDistributionsAccumulator_addTerm add1 add2 i (q (pair_held held1 held2 d r ! i)))
      [0..<length (pair_held held1 held2 d r)] (?acc r)"
  let ?run1 = "\<lambda>r. fold (\<lambda>i. add1 i (q (Inl (held1 (fst d) r ! i)))) [0..<length (held1 (fst d) r)] (create1 (fst d) r)"
  let ?run2 = "\<lambda>r. fold (\<lambda>i. add2 i (q (Inr (held2 (snd d) r ! i)))) [0..<length (held2 (snd d) r)] (create2 (snd d) r)"
  have run: "firstAccumulator (?run r) = ?run1 r" "secondAccumulator (?run r) = ?run2 r" if r: "r < procs1 (fst d)" for r
  proof -
    let ?t = "\<lambda>i. q (pair_held held1 held2 d r ! i)" and ?n = "length (held1 (fst d) r)" and ?m = "length (held2 (snd d) r)"
    let ?add = "\<lambda>i. PairOfDistributionsAccumulator_addTerm add1 add2 i (?t i)"
    have acc: "acc_firstNumLocs (?acc r) = ?n"
      by (simp add: PairOfDistributions_createAccumulator_def pair_state_nth(1) r)
    let ?acc1 = "?acc r \<lparr> firstAccumulator := fold (\<lambda>i. add1 i (?t i)) [0..<?n] (firstAccumulator (?acc r)) \<rparr>"
    have "length (pair_held held1 held2 d r) = ?n + ?m" by (simp add: pair_held_def)
    then have "?run r = fold ?add [?n..<?n + ?m] (fold ?add [0..<?n] (?acc r))"
      by (simp only: upt_add_eq_append [of 0, OF le0] fold_append comp_apply add_0)
    also have "fold ?add [0..<?n] (?acc r) = ?acc1"
      by (rule pair_fold_addTerm(1)) (simp only: acc order_refl)
    also have "fold ?add [?n..<?n + ?m] ?acc1 = ?acc1 \<lparr> secondAccumulator := fold (\<lambda>i. add2 i (?t (?n + i))) [0..<?m] (secondAccumulator ?acc1) \<rparr>"
      by (rule pair_fold_addTerm(2)) (simp add: acc)
    finally have "?run r = ?acc r \<lparr> firstAccumulator := fold (\<lambda>i. add1 i (?t i)) [0..<?n] (create1 (fst d) r),
        secondAccumulator := fold (\<lambda>i. add2 i (?t (?n + i))) [0..<?m] (create2 (snd d) r) \<rparr>"
      by (simp add: PairOfDistributions_createAccumulator_def)
    moreover have "fold (\<lambda>i. add1 i (?t i)) [0..<?n] (create1 (fst d) r) = ?run1 r"
      by (rule fold_cong) (auto simp: pair_held_def nth_append)
    moreover have "fold (\<lambda>i. add2 i (?t (?n + i))) [0..<?m] (create2 (snd d) r) = ?run2 r"
      by (rule fold_cong) (auto simp: pair_held_def nth_append)
    ultimately show "firstAccumulator (?run r) = ?run1 r" "secondAccumulator (?run r) = ?run2 r" by simp_all
  qed
  have "sum q (all_locs (procs1 (fst d)) (pair_held held1 held2 d))
      = sum (q \<circ> Inl) (all_locs (procs1 (fst d)) (held1 (fst d))) + sum (q \<circ> Inr) (all_locs (procs2 (snd d)) (held2 (snd d)))"
    unfolding pair_all_locs [OF d] by (subst sum.union_disjoint) (auto simp: sum.reindex)
  moreover have "map firstAccumulator (map ?run [0..<procs1 (fst d)]) = map ?run1 [0..<procs1 (fst d)]"
    "map secondAccumulator (map ?run [0..<procs1 (fst d)]) = map ?run2 [0..<procs1 (fst d)]"
    by (simp_all only: map_map comp_def, (rule map_cong; simp add: run)+)
  ultimately show "PairOfDistributionsAccumulator_computeResult (compute1 (fst d)) (compute2 (snd d)) (map ?run [0..<procs1 (fst d)])
      = map (\<lambda>_. sum q (all_locs (procs1 (fst d)) (pair_held held1 held2 d))) [0..<procs1 (fst d)]"
    using first.sums_once [OF d1, of "q \<circ> Inl"] second.sums_once [OF d2, of "q \<circ> Inr"]
    by (simp only: PairOfDistributionsAccumulator_computeResult_def comp_apply n map2_map_upt)
qed

interpretation nonov_pair: pair_of_summing nw_inv nw_procs nw_held nw_patch nw_gathered
  "\<lambda>w. NonoverlappingDistribution_allGatherv (nw_comm w) (nw_states w)" nw_gindex
  nw_inv nw_procs nw_held nw_patch nw_gathered
  "\<lambda>w. NonoverlappingDistribution_allGatherv (nw_comm w) (nw_states w)" nw_gindex
  "\<lambda>w. NonoverlappingDistribution_reductionImpl (c_max_size (nw_comm w))"
  "\<lambda>w r. NonoverlappingDistribution_createAccumulator 0" NonoverlappingDistributionAccumulator_addTerm
  "\<lambda>w. NonoverlappingDistributionAccumulator_computeResult (c_sum (nw_comm w))"
  "\<lambda>w r. NonoverlappingDistribution_createAccumulator 0" NonoverlappingDistributionAccumulator_addTerm
  "\<lambda>w. NonoverlappingDistributionAccumulator_computeResult (c_sum (nw_comm w))"
  by unfold_locales

section \<open>createReplicaDistribution\<close>

datatype replica_kind = ReplicaOfNonoverlappingKind | InefficientKind | ReplicaOfGeneralKind

definition createReplicaDistribution :: "bool \<Rightarrow> bool \<Rightarrow> replica_kind" where
  "createReplicaDistribution master_isNonoverlapping master_isIdentity =
     (if master_isNonoverlapping then ReplicaOfNonoverlappingKind
      else if master_isIdentity then InefficientKind else ReplicaOfGeneralKind)"

section \<open>Properties\<close>

definition replica_example :: "(nat, nat) replica_world" where
  "replica_example = halo_replica halo_example [(2, 0, (0, 0)), (1, 1, (0, 0)), (7, 2, (0, 0))]"

lemma replica_example_inv: "rw_inv replica_example"
  unfolding replica_example_def
  by (rule halo_replica_inv [OF halo_example_inv]) (simp_all add: UNASSIGNED_def)

text \<open>C9. A \<open>ReplicaOfGeneralDistribution\<close> of a \<open>Halo\<close> master: for any locations presented in increasing order,
  \<open>computePatchLocs()\<close> succeeds on every rank (no location is without an owner), the patch observations partition the
  held locations, and \<open>allGatherv()\<close> agrees with \<open>globalUniqueConsecutiveLocationIndex()\<close>.\<close>

theorem Replica_of_Halo_contract:
  fixes w :: "('x, 'v :: {comm_monoid_add, linorder}) halo_world" and f :: "nat \<Rightarrow> 'x"
  assumes "hw_inv w" "sorted_wrt (<) (map call_loc calls)" "length calls < UNASSIGNED"
  defines "rep \<equiv> halo_replica w calls"
  shows "(\<exists>ds. rw_states rep = Inr ds)
    \<and> set (rw_gathered rep) = all_locs (rw_procs rep) (rw_held rep) \<and> distinct (rw_gathered rep)
    \<and> (\<exists>y. ReplicaOfGeneralDistribution_allGatherv (rw_comm rep) (rw_all_states rep) (map (\<lambda>r. map f (rw_held rep r)) [0..<rw_procs rep])
          = Inr (replicate (rw_procs rep) y)
        \<and> (\<forall>r i. r < rw_procs rep \<and> i < length (rw_held rep r) \<longrightarrow>
             rw_gindex rep r i < length y \<and> y ! rw_gindex rep r i = f (rw_held rep r ! i)))"
proof -
  have inv: "rw_inv rep" unfolding rep_def by (rule halo_replica_inv [OF assms(1-3)])
  have "\<exists>ds. rw_states rep = Inr ds" by (rule rw_states_ok [OF inv]) blast
  then show ?thesis
    using replica.gathered_set [OF inv] replica.gathered_distinct [OF inv] replica.gathers [OF inv, of f]
      replica.gathered_value [OF inv, of _ _ f] replica.gindex_bound [OF inv]
    by (intro conjI exI [of _ "map f (rw_gathered rep)"]) (simp_all add: map_replicate_const)
qed

lemma halo_example_isMy:
  "Halo_isMyRecord (hw_state halo_example 0) = (\<lambda>rec. rec = 0 \<or> rec = 1)"
  "Halo_isMyRecord (hw_state halo_example (Suc 0)) = (\<lambda>rec. rec = 1 \<or> rec = 2)"
proof -
  have "Halo_isMyRecord (hw_state halo_example r) = in_halo (hw_distance halo_example) (hw_config halo_example r) (hw_calls halo_example)"
    if "r < 2" for r
    using that by (simp add: hw_isMy [OF halo_example_inv])
  from this [of 0] this [of 1]
  show "Halo_isMyRecord (hw_state halo_example 0) = (\<lambda>rec. rec = 0 \<or> rec = 1)"
    "Halo_isMyRecord (hw_state halo_example (Suc 0)) = (\<lambda>rec. rec = 1 \<or> rec = 2)"
    by (simp, auto simp: fun_eq_iff in_halo_def halo_example_def Halo_config_def)+
qed

lemma replica_example_held:
  "rw_held replica_example 0 = [1]" "rw_held replica_example (Suc 0) = [0, 1]" "rw_procs replica_example = 2"
proof -
  show n: "rw_procs replica_example = 2"
    by (simp add: rw_procs_def replica_example_def halo_replica_def halo_example_def seq_comm_def)
  show "rw_held replica_example 0 = [1]" "rw_held replica_example (Suc 0) = [0, 1]"
    using rw_assigned_fields(3) [OF replica_example_inv] n
    by (simp_all add: replica_example_def halo_replica_def halo_example_isMy)
qed

theorem Replica_of_Halo_contract_witness:
  "(\<exists>ds. rw_states replica_example = Inr ds) \<and> set (rw_gathered replica_example) = {0, 1}"
proof -
  have "sorted_wrt (<) (map call_loc [(2, 0, (0, 0)), (1, 1, (0, 0)), (7, 2, (0, 0))])"
    "length [(2, 0, (0, 0)), (1, 1, (0, 0)), (7, 2, (0, 0)) :: assign_call] < UNASSIGNED"
    by (simp_all add: UNASSIGNED_def)
  note R = Replica_of_Halo_contract [OF halo_example_inv this, of id, folded replica_example_def]
  have "all_locs (rw_procs replica_example) (rw_held replica_example) = {0, 1}"
    by (auto simp: replica_example_held all_locs_def numeral_2_eq_2 lessThan_Suc)
  with R show ?thesis by simp
qed





text \<open>Two ranks whose halos overlap.\<close>

definition halo_pair_example :: "(nat, nat) halo_world" where
  "halo_pair_example = halo_example \<lparr> hw_calls := [(0, 0, (9, 0)), (1, 1, (4, 0))] \<rparr>"

lemma halo_pair_example_inv: "hw_inv halo_pair_example"
  by (simp add: hw_inv_def halo_pair_example_def halo_example_def comm_ok_seq_comm)

lemma halo_pair_example_held:
  "hw_held halo_pair_example 0 = [1]" "hw_held halo_pair_example (Suc 0) = [0, 1]" "hw_procs halo_pair_example = 2"
  "hw_dist halo_pair_example 0 1 = 4" "hw_dist halo_pair_example (Suc 0) 1 = 6"
  by (simp_all add: hw_held_def hw_assigned_def halo_pair_example_def halo_example_def Halo_config_def assigned_halo_state
      Halo_isMyRecord_def in_halo_def hw_procs_def seq_comm_def hw_dist_def)

lemma halo_pair_example_gathered: "hw_gathered halo_pair_example = [1, 0]"
proof -
  note inv = halo_pair_example_inv and held = halo_pair_example_held
  have "hw_owner halo_pair_example 0 < 2" "0 \<in> set (hw_held halo_pair_example (hw_owner halo_pair_example 0))"
    using hw_owner_holds(1,2) [OF inv, of "Suc 0" 0] held by simp_all
  then have 0: "hw_owner halo_pair_example 0 = Suc 0" using held by (cases "hw_owner halo_pair_example 0") auto
  have "hw_owner halo_pair_example 1 < 2" "hw_dist halo_pair_example (hw_owner halo_pair_example 1) 1 \<le> 4"
    using hw_owner_holds(1,3) [OF inv, of 0 1] held by simp_all
  then have 1: "hw_owner halo_pair_example (Suc 0) = 0" using held by (cases "hw_owner halo_pair_example (Suc 0)") auto
  show ?thesis
    by (simp add: hw_gathered_def gathered_locs_def held hw_patch_eq [OF inv] upt_rec 0 1 numeral_2_eq_2)
qed

lemma halo_pair_example_index:
  "hw_gindex halo_pair_example 0 0 = 0" "hw_gindex halo_pair_example (Suc 0) 0 = 1" "hw_gindex halo_pair_example (Suc 0) (Suc 0) = 0"
proof -
  have "hw_gindex halo_pair_example r i < 2" "[1, 0] ! hw_gindex halo_pair_example r i = hw_held halo_pair_example r ! i"
    if "r < 2" "i < length (hw_held halo_pair_example r)" for r i
    using halo.gindex_bound [OF halo_pair_example_inv] halo.gindex_nth [OF halo_pair_example_inv] that
    by (simp_all add: halo_pair_example_gathered halo_pair_example_held numeral_2_eq_2)
  from this [of 0 0] this [of "Suc 0" 0] this [of "Suc 0" "Suc 0"]
  show "hw_gindex halo_pair_example 0 0 = 0" "hw_gindex halo_pair_example (Suc 0) 0 = 1" "hw_gindex halo_pair_example (Suc 0) (Suc 0) = 0"
    by (auto simp: halo_pair_example_held less_2_cases_iff)
qed


end
