(* ===== verification/Ioda_Std.thy ===== *)
theory Ioda_Std
  imports Ioda_Prelude "HOL-Library.List_Lexorder" "HOL-Library.Char_ord"
begin

text \<open>
  The parts of the C++ standard library that the modelled code uses: \<open>std::map\<close> as an association list
  kept in the order of its keys, \<open>std::vector::resize\<close>, and the search and splitting functions of
  \<open>std::string\<close>. A \<open>std::string\<close> is a list of characters, ordered lexicographically.
\<close>

section \<open>Ordered maps\<close>

type_synonym ('k, 'v) std_map = "('k \<times> 'v) list"

abbreviation std_find :: "('k, 'v) std_map \<Rightarrow> 'k \<Rightarrow> 'v option" where
  "std_find \<equiv> map_of"

text \<open>\<open>insert()\<close> leaves the map unchanged if the key is present.\<close>

fun std_insert :: "'k :: linorder \<Rightarrow> 'v \<Rightarrow> ('k, 'v) std_map \<Rightarrow> ('k, 'v) std_map" where
  "std_insert k v [] = [(k, v)]"
| "std_insert k v ((k', v') # m) =
     (if k = k' then (k', v') # m else if k < k' then (k, v) # (k', v') # m else (k', v') # std_insert k v m)"

text \<open>Assignment through \<open>operator[]\<close> replaces the value of a present key.\<close>

fun std_assign :: "'k :: linorder \<Rightarrow> 'v \<Rightarrow> ('k, 'v) std_map \<Rightarrow> ('k, 'v) std_map" where
  "std_assign k v [] = [(k, v)]"
| "std_assign k v ((k', v') # m) =
     (if k = k' then (k, v) # m else if k < k' then (k, v) # (k', v') # m else (k', v') # std_assign k v m)"

definition std_erase :: "'k \<Rightarrow> ('k, 'v) std_map \<Rightarrow> ('k, 'v) std_map" where
  "std_erase k m = filter (\<lambda>e. fst e \<noteq> k) m"

definition std_keys :: "('k, 'v) std_map \<Rightarrow> 'k list" where
  "std_keys m = map fst m"

definition std_map_ok :: "('k :: linorder, 'v) std_map \<Rightarrow> bool" where
  "std_map_ok m \<longleftrightarrow> sorted_wrt (<) (std_keys m)"

lemma std_map_ok_Nil [simp]: "std_map_ok []"
  by (simp add: std_map_ok_def std_keys_def)

lemma std_find_not_less:
  fixes k :: "'k :: linorder"
  shows "\<forall>k' \<in> fst ` set m. k < k' \<Longrightarrow> map_of m k = None"
  unfolding map_of_eq_None_iff by blast

lemma std_keys_insert: "fst ` set (std_insert k v m) = insert k (fst ` set m)"
  by (induction k v m rule: std_insert.induct) auto

lemma std_keys_assign: "fst ` set (std_assign k v m) = insert k (fst ` set m)"
  by (induction k v m rule: std_assign.induct) auto

lemma std_map_ok_insert [simp]: "std_map_ok m \<Longrightarrow> std_map_ok (std_insert k v m)"
proof (induction m)
  case (Cons e m)
  then show ?case
    using std_keys_insert [of k v m] by (cases e) (force simp: std_map_ok_def std_keys_def)
qed (simp add: std_map_ok_def std_keys_def)

lemma std_map_ok_assign [simp]: "std_map_ok m \<Longrightarrow> std_map_ok (std_assign k v m)"
proof (induction m)
  case (Cons e m)
  then show ?case
    using std_keys_assign [of k v m] by (cases e) (force simp: std_map_ok_def std_keys_def)
qed (simp add: std_map_ok_def std_keys_def)

lemma std_map_ok_erase [simp]: "std_map_ok m \<Longrightarrow> std_map_ok (std_erase k m)"
  by (simp add: std_map_ok_def std_keys_def std_erase_def sorted_wrt_map sorted_wrt_filter)

lemma std_find_insert:
  "std_map_ok m \<Longrightarrow>
   std_find (std_insert k v m) k' = (if k' = k then Some (case std_find m k of Some w \<Rightarrow> w | None \<Rightarrow> v) else std_find m k')"
proof (induction m)
  case (Cons e m)
  then show ?case
    using std_find_not_less [of m k] by (cases e) (force simp: std_map_ok_def std_keys_def split: option.split)
qed simp

lemma std_find_assign:
  "std_map_ok m \<Longrightarrow> std_find (std_assign k v m) k' = (if k' = k then Some v else std_find m k')"
  by (induction m) (auto simp: std_map_ok_def std_keys_def)

lemma std_find_erase: "std_find (std_erase k m) k' = (if k' = k then None else std_find m k')"
  by (induction m) (auto simp: std_erase_def)

lemma std_keys_find: "k \<in> set (std_keys m) \<longleftrightarrow> std_find m k \<noteq> None"
  by (auto simp: std_keys_def map_of_eq_None_iff)

section \<open>Vectors\<close>

definition vec_resize :: "nat \<Rightarrow> 'a \<Rightarrow> 'a list \<Rightarrow> 'a list" where
  "vec_resize n fill xs = take n xs @ replicate (n - length xs) fill"

lemma length_vec_resize [simp]: "length (vec_resize n fill xs) = n"
  by (simp add: vec_resize_def)

lemma vec_resize_nth: "i < n \<Longrightarrow> vec_resize n fill xs ! i = (if i < length xs then xs ! i else fill)"
  by (auto simp: vec_resize_def nth_append)

section \<open>Strings\<close>

text \<open>\<open>find\<close> and \<open>find_last_of\<close> with one character; \<open>None\<close> is \<open>npos\<close>.\<close>

fun str_find :: "char \<Rightarrow> string \<Rightarrow> nat option" where
  "str_find c [] = None"
| "str_find c (x # xs) = (if x = c then Some 0 else map_option Suc (str_find c xs))"

definition str_find_last_of :: "char \<Rightarrow> string \<Rightarrow> nat option" where
  "str_find_last_of c s = map_option (\<lambda>i. length s - 1 - i) (str_find c (rev s))"

lemma str_find_None: "str_find c s = None \<longleftrightarrow> c \<notin> set s"
  by (induction s) auto

lemma str_find_append:
  "c \<notin> set xs \<Longrightarrow> str_find c (xs @ c # ys) = Some (length xs)"
  by (induction xs) auto

lemma str_find_Some:
  "str_find c s = Some i \<Longrightarrow> i < length s \<and> s ! i = c \<and> c \<notin> set (take i s)"
  by (induction s arbitrary: i) (auto split: if_splits)

lemma str_find_last_append:
  "c \<notin> set ys \<Longrightarrow> str_find_last_of c (xs @ c # ys) = Some (length xs)"
  using str_find_append [of c "rev ys" "rev xs"] by (simp add: str_find_last_of_def)

lemma str_find_last_None: "str_find_last_of c s = None \<longleftrightarrow> c \<notin> set s"
  using str_find_None [of c "rev s"] by (simp add: str_find_last_of_def)


text \<open>\<open>std::to_string\<close> of an integer.\<close>

definition digit_char :: "nat \<Rightarrow> char" where
  "digit_char d = char_of (48 + d)"

fun nat_string :: "nat \<Rightarrow> string" where
  "nat_string n = (if n < 10 then [digit_char n] else nat_string (n div 10) @ [digit_char (n mod 10)])"

declare nat_string.simps [simp del]

definition to_string :: "int \<Rightarrow> string" where
  "to_string i = (if i < 0 then CHR ''-'' # nat_string (nat (- i)) else nat_string (nat i))"

lemma digit_char_inj: "a < 10 \<Longrightarrow> b < 10 \<Longrightarrow> digit_char a = digit_char b \<longleftrightarrow> a = b"
  by (auto simp: digit_char_def dest: arg_cong [of _ _ "of_char :: char \<Rightarrow> nat"])

lemma nat_string_last:
  "nat_string n \<noteq> []" "last (nat_string n) = digit_char (n mod 10)"
  "butlast (nat_string n) = (if n < 10 then [] else nat_string (n div 10))"
  by (subst nat_string.simps; simp)+

lemma nat_string_inj: "nat_string m = nat_string n \<longleftrightarrow> m = n"
proof (induction m arbitrary: n rule: less_induct)
  case (less m)
  show ?case
  proof
    assume eq: "nat_string m = nat_string n"
    from arg_cong [OF eq, of last] have 1: "m mod 10 = n mod 10" by (simp add: nat_string_last digit_char_inj)
    from arg_cong [OF eq, of butlast] have "m div 10 = n div 10"
      using less [of "m div 10" "n div 10"] nat_string_last(1) [of "m div 10"] nat_string_last(1) [of "n div 10"]
      by (auto simp: nat_string_last(3) split: if_splits)
    with 1 show "m = n" by (metis div_mult_mod_eq)
  qed simp
qed

lemma nat_string_digits: "c \<in> set (nat_string n) \<Longrightarrow> \<exists>d < 10. c = digit_char d"
proof (induction n rule: nat_string.induct)
  case (1 n)
  then show ?case by (subst (asm) (2) nat_string.simps) (auto split: if_splits intro: exI [of _ "n mod 10"])
qed

lemma digit_char_not_minus: "d < 10 \<Longrightarrow> digit_char d \<noteq> CHR ''-''"
  by (auto simp: digit_char_def dest: arg_cong [of _ _ "of_char :: char \<Rightarrow> nat"])

lemma to_string_inj: "to_string i = to_string j \<longleftrightarrow> i = j"
proof -
  have "CHR ''-'' # s \<noteq> nat_string n" for s n
    using nat_string_digits [of "CHR ''-''" n] digit_char_not_minus by (metis list.set_intros(1))
  moreover from this have "nat_string n \<noteq> CHR ''-'' # s" for s n by metis
  ultimately show ?thesis by (auto simp: to_string_def nat_string_inj)
qed

end
