(* ===== verification/Ioda_Locations.thy ===== *)
theory Ioda_Locations
  imports Ioda_Replica Ioda_Std
begin

text \<open>
  The locations of a frame (\<open>io/ObsFrameRead.cc\<close>): which locations of the frame are kept, the number of the record
  of each of them, and the distribution of the records to the ranks. The vectors that the functions of the code read
  from the frame (times, latitudes, longitudes, grouping values) are arguments here; the reading is in
  \<open>Ioda_Frame\<close>. \<open>util::DateTime\<close> is a linearly ordered type \<open>'t\<close>.

  The locale \<open>frame_distribution\<close> is what the reader needs of a distribution beyond \<open>record_assigner\<close>: no assertion
  fails as long as the record numbers arrive in consecutive order. It is interpreted on \<open>RoundRobin\<close> and the other
  non-overlapping distributions, \<open>AtlasDistribution\<close> and \<open>Halo\<close>. Inside it the main fact is proved once: after
  any number of frames the state is the one that the locations of the source before the frame determine
  (\<open>located\<close>), so that it does not depend on the size of the frames.
\<close>

section \<open>State\<close>

record 'd frame_locations =
  frame_start :: nat
  adjusted_location_frame_start :: nat
  adjusted_location_frame_count :: nat
  obs_grouping :: "(string, nat) std_map"
  indx :: "nat list"
  recnums :: "nat list"
  next_rec_num :: nat
  rec_num_increment :: nat
  unique_rec_nums :: "nat set"
  frame_loc_index :: "nat list"
  nlocs :: nat
  nrecs :: nat
  gnlocs :: nat
  gnlocs_outside_timewindow :: nat
  dist :: 'd

section \<open>Location checks\<close>

definition insideTimingWindow :: "'t :: linorder \<Rightarrow> 't \<Rightarrow> 't \<Rightarrow> bool" where
  "insideTimingWindow windowStart windowEnd obsDt \<longleftrightarrow> obsDt > windowStart \<and> obsDt \<le> windowEnd"

definition genFrameLocationsAll ::
    "nat \<Rightarrow> ('d, 'z) frame_locations_scheme \<Rightarrow> nat list \<times> nat list \<times> ('d, 'z) frame_locations_scheme" where
  "genFrameLocationsAll locSize st =
     ([frame_start st..<frame_start st + locSize], [0..<locSize], st \<lparr> gnlocs := gnlocs st + locSize \<rparr>)"

text \<open>One pass of the loop over the frame; the index vectors grow at their end.\<close>

definition qcheck_location ::
    "'t :: linorder \<Rightarrow> 't \<Rightarrow> 't list \<Rightarrow> 'f list \<Rightarrow> 'f \<Rightarrow> 'f list \<Rightarrow> 'f \<Rightarrow> nat \<Rightarrow>
     nat list \<times> nat list \<times> ('d, 'z) frame_locations_scheme \<Rightarrow> nat list \<times> nat list \<times> ('d, 'z) frame_locations_scheme" where
  "qcheck_location windowStart windowEnd dtimeVals lats latFillValue lons lonFillValue i s =
     (let (locIndex, frameIndex, st) = s;
          keepThisLocation = insideTimingWindow windowStart windowEnd (dtimeVals ! i);
          st = (if \<not> keepThisLocation then st \<lparr> gnlocs_outside_timewindow := gnlocs_outside_timewindow st + 1 \<rparr> else st);
          keepThisLocation = (if keepThisLocation then if lats ! i = latFillValue then False else keepThisLocation else keepThisLocation);
          keepThisLocation = (if keepThisLocation then if lons ! i = lonFillValue then False else keepThisLocation else keepThisLocation)
      in if keepThisLocation then (locIndex @ [frame_start st + i], frameIndex @ [i], st) else (locIndex, frameIndex, st))"

definition genFrameLocationsWithQcheck ::
    "'t :: linorder \<Rightarrow> 't \<Rightarrow> nat \<Rightarrow> 't list \<Rightarrow> 'f list \<Rightarrow> 'f \<Rightarrow> 'f list \<Rightarrow> 'f \<Rightarrow>
     ('d, 'z) frame_locations_scheme \<Rightarrow> nat list \<times> nat list \<times> ('d, 'z) frame_locations_scheme" where
  "genFrameLocationsWithQcheck windowStart windowEnd frameCount dtimeVals lats latFillValue lons lonFillValue st =
     (let (locIndex, frameIndex, st) =
        fold (qcheck_location windowStart windowEnd dtimeVals lats latFillValue lons lonFillValue) [0..<frameCount] ([], [], st)
      in (locIndex, frameIndex, st \<lparr> gnlocs := gnlocs st + length locIndex \<rparr>))"

section \<open>Record numbers\<close>

definition genRecordNumbersAll ::
    "nat list \<Rightarrow> ('d, 'z) frame_locations_scheme \<Rightarrow> nat list \<times> ('d, 'z) frame_locations_scheme" where
  "genRecordNumbersAll locIndex st =
     fold (\<lambda>i (records, st). (records[i := next_rec_num st], st \<lparr> next_rec_num := next_rec_num st + rec_num_increment st \<rparr>))
       [0..<length locIndex] (replicate (length locIndex) 0, st)"

definition genRecordNumbersGrouping ::
    "string list \<Rightarrow> ('d, 'z) frame_locations_scheme \<Rightarrow> nat list \<times> ('d, 'z) frame_locations_scheme" where
  "genRecordNumbersGrouping obsGroupingKeys st =
     fold (\<lambda>i (records, st).
         let st = (if std_find (obs_grouping st) (obsGroupingKeys ! i) = None
                   then st \<lparr> obs_grouping := std_insert (obsGroupingKeys ! i) (next_rec_num st) (obs_grouping st),
                             next_rec_num := next_rec_num st + rec_num_increment st \<rparr>
                   else st)
         in (records[i := the (std_find (obs_grouping st) (obsGroupingKeys ! i))], st))
       [0..<length obsGroupingKeys] (replicate (length obsGroupingKeys) 0, st)"

text \<open>The segment of one variable is appended to the keys.\<close>

definition appendKeySegments :: "nat \<Rightarrow> string list \<Rightarrow> nat list \<Rightarrow> string list \<Rightarrow> string list" where
  "appendKeySegments i segments frameIndex groupingKeys =
     fold (\<lambda>j keys. let keySegment = segments ! (frameIndex ! j)
                    in if i = 0 then keys[j := keySegment] else keys[j := keys ! j @ '':'' @ keySegment])
       [0..<length frameIndex] groupingKeys"

section \<open>Distribution to the ranks\<close>

definition assign_location ::
    "(assign_call \<Rightarrow> 'd \<Rightarrow> 'd result) \<Rightarrow> ('d \<Rightarrow> nat \<Rightarrow> bool) \<Rightarrow> real list \<Rightarrow> real list \<Rightarrow> nat \<Rightarrow> nat \<Rightarrow>
     ('d, 'z) frame_locations_scheme \<Rightarrow> ('d, 'z) frame_locations_scheme result" where
  "assign_location assignRecord isMyRecord lons lats rowNum recNum st =
     (let frameIndex = rowNum - frame_start st;
          point = (lons ! frameIndex, lats ! frameIndex);
          globalLocIndex = rowNum
      in bind_result (assignRecord (recNum, globalLocIndex, point) (dist st)) (\<lambda>d.
         let st = st \<lparr> dist := d \<rparr>
         in Inr (if isMyRecord (dist st) recNum
                 then st \<lparr> indx := indx st @ [globalLocIndex], recnums := recnums st @ [recNum],
                        unique_rec_nums := insert recNum (unique_rec_nums st),
                        frame_loc_index := frame_loc_index st @ [frameIndex], nlocs := nlocs st + 1 \<rparr>
                 else st)))"

definition applyMpiDistribution ::
    "(assign_call \<Rightarrow> 'd \<Rightarrow> 'd result) \<Rightarrow> ('d \<Rightarrow> nat \<Rightarrow> bool) \<Rightarrow> nat list \<Rightarrow> nat list \<Rightarrow> real list \<Rightarrow> real list \<Rightarrow>
     ('d, 'z) frame_locations_scheme \<Rightarrow> ('d, 'z) frame_locations_scheme result" where
  "applyMpiDistribution assignRecord isMyRecord locIndex records lons lats st =
     bind_result (fold_result (\<lambda>i. assign_location assignRecord isMyRecord lons lats (locIndex ! i) (records ! i))
         [0..<length locIndex] (st \<lparr> frame_loc_index := [] \<rparr>)) (\<lambda>st.
       Inr (st \<lparr> nrecs := card (unique_rec_nums st) \<rparr>))"

section \<open>The locations kept in a frame\<close>

definition location_kept ::
    "'t :: linorder \<Rightarrow> 't \<Rightarrow> (nat \<Rightarrow> 't) \<Rightarrow> (nat \<Rightarrow> 'f) \<Rightarrow> 'f \<Rightarrow> (nat \<Rightarrow> 'f) \<Rightarrow> 'f \<Rightarrow> nat \<Rightarrow> bool" where
  "location_kept windowStart windowEnd dtime lat latFillValue lon lonFillValue i \<longleftrightarrow>
     insideTimingWindow windowStart windowEnd (dtime i) \<and> lat i \<noteq> latFillValue \<and> lon i \<noteq> lonFillValue"

lemma qcheck_location_eq:
  "qcheck_location b e dt lats latFill lons lonFill i (ls, fs, st) =
    (if location_kept b e ((!) dt) ((!) lats) latFill ((!) lons) lonFill i then (ls @ [frame_start st + i], fs @ [i], st)
     else (ls, fs, if insideTimingWindow b e (dt ! i) then st
             else st \<lparr> gnlocs_outside_timewindow := gnlocs_outside_timewindow st + 1 \<rparr>))"
  by (simp add: qcheck_location_def location_kept_def)

lemma qcheck_fold:
  "fold (qcheck_location b e dt lats latFill lons lonFill) is (ls, fs, st) =
    (ls @ map (\<lambda>i. frame_start st + i) (filter (location_kept b e ((!) dt) ((!) lats) latFill ((!) lons) lonFill) is),
     fs @ filter (location_kept b e ((!) dt) ((!) lats) latFill ((!) lons) lonFill) is,
     st \<lparr> gnlocs_outside_timewindow := gnlocs_outside_timewindow st
           + length (filter (\<lambda>i. \<not> insideTimingWindow b e (dt ! i)) is) \<rparr>)"
proof (induction "is" arbitrary: ls fs st)
  case (Cons i "is")
  show ?case by (simp add: qcheck_location_eq Cons.IH) (simp add: location_kept_def)
qed simp

lemma upt_shift: "[s..<s + c] = map ((+) s) [0..<c]" for s :: nat
  by (rule nth_equalityI) simp_all

lemma genFrameLocationsWithQcheck_eq:
  assumes "\<And>i. i < c \<Longrightarrow> dt ! i = dtime (s + i) \<and> lats ! i = lat (s + i) \<and> lons ! i = lon (s + i)" "frame_start st = s"
  shows "genFrameLocationsWithQcheck b e c dt lats latFill lons lonFill st =
    (filter (location_kept b e dtime lat latFill lon lonFill) [s..<s + c],
     map (\<lambda>i. i - s) (filter (location_kept b e dtime lat latFill lon lonFill) [s..<s + c]),
     st \<lparr> gnlocs := gnlocs st + length (filter (location_kept b e dtime lat latFill lon lonFill) [s..<s + c]),
          gnlocs_outside_timewindow := gnlocs_outside_timewindow st
            + length (filter (\<lambda>i. \<not> insideTimingWindow b e (dtime i)) [s..<s + c]) \<rparr>)"
proof -
  have k: "filter (location_kept b e ((!) dt) ((!) lats) latFill ((!) lons) lonFill) [0..<c]
      = filter (\<lambda>i. location_kept b e dtime lat latFill lon lonFill (s + i)) [0..<c]"
    using assms(1) by (intro filter_cong) (auto simp: location_kept_def)
  have o: "filter (\<lambda>i. \<not> insideTimingWindow b e (dt ! i)) [0..<c] = filter (\<lambda>i. \<not> insideTimingWindow b e (dtime (s + i))) [0..<c]"
    using assms(1) by (intro filter_cong) auto
  show ?thesis
    by (simp add: genFrameLocationsWithQcheck_def qcheck_fold k o assms(2) upt_shift [of s c] filter_map comp_def)
qed

section \<open>The numbers of the records\<close>

text \<open>The number of a key: how many different keys come before its first occurrence.\<close>

definition rec_no :: "'k list \<Rightarrow> 'k \<Rightarrow> nat" where
  "rec_no ks k = card (set (takeWhile (\<lambda>k'. k' \<noteq> k) ks))"

lemma rec_no_old: "k \<in> set ks \<Longrightarrow> rec_no (ks @ ks') k = rec_no ks k"
  by (simp add: rec_no_def takeWhile_append1)

lemma rec_no_new: "k \<notin> set ks \<Longrightarrow> rec_no (ks @ k # ks') k = card (set ks)"
  unfolding rec_no_def by (subst takeWhile_append2) auto

lemma rec_no_image: "rec_no ks ` set ks = {..<card (set ks)}"
proof (induction ks rule: rev_induct)
  case (snoc k ks)
  have old: "rec_no (ks @ [k]) ` set ks = {..<card (set ks)}"
    using snoc by (simp add: rec_no_old cong: image_cong)
  show ?case
  proof (cases "k \<in> set ks")
    case True
    then show ?thesis using old by (simp add: insert_absorb)
  next
    case False
    then show ?thesis using old rec_no_new [OF False, of "[]"] by (simp add: lessThan_Suc)
  qed
qed simp

lemma rec_no_inj: "inj_on (rec_no ks) (set ks)"
  by (rule eq_card_imp_inj_on) (simp_all add: rec_no_image)

lemma rec_no_distinct:
  assumes "distinct ks" "i < length ks"
  shows "rec_no ks (ks ! i) = i"
proof -
  have "takeWhile (\<lambda>k. k \<noteq> ks ! i) ks = take i ks"
    using assms by (intro takeWhile_eq_take_P_nth) (auto simp: nth_eq_iff_index_eq)
  then show ?thesis using assms by (simp add: rec_no_def distinct_card)
qed

lemma genRecordNumbersAll_eq:
  assumes "rec_num_increment st = 1"
  shows "genRecordNumbersAll ls st =
    (map (\<lambda>i. next_rec_num st + i) [0..<length ls], st \<lparr> next_rec_num := next_rec_num st + length ls \<rparr>)"
proof -
  let ?step = "\<lambda>i (rs, st). (rs[i := next_rec_num st], st \<lparr> next_rec_num := next_rec_num st + rec_num_increment st \<rparr>)"
  have "fold ?step [0..<n] (replicate (length ls) 0, st)
      = (map (\<lambda>i. next_rec_num st + i) [0..<n] @ replicate (length ls - n) 0, st \<lparr> next_rec_num := next_rec_num st + n \<rparr>)"
    if "n \<le> length ls" for n
    using that
  proof (induction n)
    case (Suc n)
    have "length ls - n = Suc (length ls - Suc n)" using Suc.prems by simp
    with Suc assms show ?case by (simp add: list_update_append)
  qed simp
  from this [of "length ls"] show ?thesis by (simp add: genRecordNumbersAll_def)
qed

text \<open>The map of the grouping after the keys \<open>ks\<close>.\<close>

definition grouping_of :: "string list \<Rightarrow> ('d, 'z) frame_locations_scheme \<Rightarrow> bool" where
  "grouping_of ks st \<longleftrightarrow> std_map_ok (obs_grouping st) \<and> next_rec_num st = card (set ks) \<and> rec_num_increment st = 1 \<and>
     (\<forall>k. std_find (obs_grouping st) k = (if k \<in> set ks then Some (rec_no ks k) else None))"

lemma grouping_of_cong:
  "obs_grouping st = obs_grouping st' \<Longrightarrow> next_rec_num st = next_rec_num st' \<Longrightarrow> rec_num_increment st = rec_num_increment st' \<Longrightarrow>
   grouping_of ks st = grouping_of ks st'"
  by (simp add: grouping_of_def)

definition number_key :: "string \<Rightarrow> ('d, 'z) frame_locations_scheme \<Rightarrow> ('d, 'z) frame_locations_scheme" where
  "number_key k st =
     (if std_find (obs_grouping st) k = None
      then st \<lparr> obs_grouping := std_insert k (next_rec_num st) (obs_grouping st),
                next_rec_num := next_rec_num st + rec_num_increment st \<rparr>
      else st)"

lemma number_key_grouping:
  assumes "grouping_of ks st"
  shows "grouping_of (ks @ [k]) (number_key k st)" "std_find (obs_grouping (number_key k st)) k = Some (rec_no (ks @ [k]) k)"
proof -
  show g: "grouping_of (ks @ [k]) (number_key k st)"
  proof (cases "k \<in> set ks")
    case True
    then show ?thesis using assms by (auto simp: grouping_of_def number_key_def rec_no_old insert_absorb)
  next
    case False
    then show ?thesis
      using assms rec_no_new [OF False, of "[]"] by (auto simp: grouping_of_def number_key_def std_find_insert rec_no_old)
  qed
  then show "std_find (obs_grouping (number_key k st)) k = Some (rec_no (ks @ [k]) k)" by (simp add: grouping_of_def)
qed

lemma number_key_other:
  "\<exists>g' m'. number_key k (st \<lparr> obs_grouping := g, next_rec_num := m \<rparr>) = st \<lparr> obs_grouping := g', next_rec_num := m' \<rparr>"
  by (auto simp: number_key_def)

lemma genRecordNumbersGrouping_eq:
  assumes "grouping_of ks0 st"
  shows "\<exists>g m. genRecordNumbersGrouping ks st = (map (rec_no (ks0 @ ks)) ks, st \<lparr> obs_grouping := g, next_rec_num := m \<rparr>) \<and>
    grouping_of (ks0 @ ks) (st \<lparr> obs_grouping := g, next_rec_num := m \<rparr>)"
proof -
  let ?step = "\<lambda>i (rs, st). let st = number_key (ks ! i) st in (rs[i := the (std_find (obs_grouping st) (ks ! i))], st)"
  have "\<exists>g m. fold ?step [0..<n] (replicate (length ks) 0, st)
        = (map (rec_no (ks0 @ take n ks)) (take n ks) @ replicate (length ks - n) 0, st \<lparr> obs_grouping := g, next_rec_num := m \<rparr>) \<and>
      grouping_of (ks0 @ take n ks) (st \<lparr> obs_grouping := g, next_rec_num := m \<rparr>)" if "n \<le> length ks" for n
    using that
  proof (induction n)
    case 0
    show ?case by (rule exI [of _ "obs_grouping st"], rule exI [of _ "next_rec_num st"]) (use assms in simp)
  next
    case (Suc n)
    let ?k = "ks ! n" and ?old = "ks0 @ take n ks"
    obtain g m where st': "fold ?step [0..<n] (replicate (length ks) 0, st)
        = (map (rec_no ?old) (take n ks) @ replicate (length ks - n) 0, st \<lparr> obs_grouping := g, next_rec_num := m \<rparr>)"
      "grouping_of ?old (st \<lparr> obs_grouping := g, next_rec_num := m \<rparr>)" using Suc by auto
    obtain g' m' where new: "number_key ?k (st \<lparr> obs_grouping := g, next_rec_num := m \<rparr>) = st \<lparr> obs_grouping := g', next_rec_num := m' \<rparr>"
      using number_key_other [where k = ?k and st = st and g = g and m = m] by (elim exE)
    have t: "take (Suc n) ks = take n ks @ [?k]" using Suc.prems by (simp add: take_Suc_conv_app_nth)
    note k = number_key_grouping [OF st'(2), of ?k, unfolded new]
    have old: "map (rec_no (?old @ [?k])) (take n ks) = map (rec_no ?old) (take n ks)"
      by (intro map_cong refl rec_no_old) simp
    have "length ks - n = Suc (length ks - Suc n)" using Suc.prems by simp
    then have "(map (rec_no ?old) (take n ks) @ replicate (length ks - n) 0)[n := rec_no (?old @ [?k]) ?k]
        = map (rec_no (?old @ [?k])) (take (Suc n) ks) @ replicate (length ks - Suc n) 0"
      using Suc.prems unfolding t map_append old by (simp add: list_update_append)
    then have "fold ?step [0..<Suc n] (replicate (length ks) 0, st)
        = (map (rec_no (?old @ [?k])) (take (Suc n) ks) @ replicate (length ks - Suc n) 0, st \<lparr> obs_grouping := g', next_rec_num := m' \<rparr>)"
      using st'(1) k(2) new by (simp add: Let_def)
    moreover have "ks0 @ take (Suc n) ks = ?old @ [?k]" by (simp add: t)
    ultimately show ?case using k(1) by (intro exI [of _ g'] exI [of _ m']) simp
  qed
  from this [of "length ks"] show ?thesis
    by (simp add: genRecordNumbersGrouping_def number_key_def)
qed

section \<open>Grouping keys\<close>

fun join_segments :: "string list \<Rightarrow> string" where
  "join_segments [] = ''''"
| "join_segments [s] = s"
| "join_segments (s # ss) = s @ '':'' @ join_segments ss"

lemma join_segments_snoc: "ss \<noteq> [] \<Longrightarrow> join_segments (ss @ [s]) = join_segments ss @ '':'' @ s"
  by (induction ss rule: join_segments.induct) simp_all

lemma appendKeySegments_eq:
  assumes "length keys = length fi"
  shows "appendKeySegments i segs fi keys
    = map2 (\<lambda>key f. if i = 0 then segs ! f else key @ '':'' @ segs ! f) keys fi"
proof -
  let ?g = "\<lambda>key f. if i = 0 then segs ! f else key @ '':'' @ segs ! f"
  let ?step = "\<lambda>j keys. let keySegment = segs ! (fi ! j)
      in if i = 0 then keys[j := keySegment] else keys[j := keys ! j @ '':'' @ keySegment]"
  have "fold ?step [0..<n] keys = map2 ?g (take n keys) (take n fi) @ drop n keys" if "n \<le> length fi" for n
    using that
  proof (induction n)
    case (Suc n)
    have d: "drop n keys = keys ! n # drop (Suc n) keys" using Suc.prems assms by (simp add: Cons_nth_drop_Suc)

    have "fold ?step [0..<n] keys = map2 ?g (take n keys) (take n fi) @ drop n keys" using Suc by simp
    then have "fold ?step [0..<Suc n] keys = ?step n (map2 ?g (take n keys) (take n fi) @ drop n keys)"
      by (simp only: upt_Suc le0 if_True fold_append fold_simps comp_apply)
    also have "\<dots> = map2 ?g (take n keys) (take n fi) @ ?g (keys ! n) (fi ! n) # drop (Suc n) keys"
      using Suc.prems assms unfolding d by (cases "i = 0") (simp_all add: list_update_append nth_append Let_def)
    also have "\<dots> = map2 ?g (take (Suc n) keys) (take (Suc n) fi) @ drop (Suc n) keys"
      using Suc.prems assms by (simp add: take_Suc_conv_app_nth)
    finally show ?case .
  qed simp
  from this [of "length fi"] show ?thesis using assms by (simp add: appendKeySegments_def)
qed

section \<open>The distribution of a frame\<close>

locale frame_distribution = record_assigner assign isMy start
  for assign :: "assign_call \<Rightarrow> 'd \<Rightarrow> 'd result" and isMy and start +
  assumes assigns: "consecutive 0 (calls @ [c]) \<Longrightarrow> fold_result assign calls start = Inr s \<Longrightarrow> \<exists>s'. assign c s = Inr s'"

lemma fold_result_map: "fold_result f (map g xs) s = fold_result (\<lambda>x. f (g x)) xs s"
proof (induction xs arbitrary: s)
  case (Cons x xs)
  then show ?case by (cases "f (g x) s") simp_all
qed simp

lemma fold_result_zip:
  assumes "length xs = length ys"
  shows "fold_result (\<lambda>i. f (xs ! i) (ys ! i)) [0..<length xs] s = fold_result (\<lambda>(x, y). f x y) (zip xs ys) s"
proof -
  have "zip xs ys = map (\<lambda>i. (xs ! i, ys ! i)) [0..<length xs]" using assms by (intro nth_equalityI) simp_all
  then show ?thesis by (simp add: fold_result_map)
qed

lemma consecutive_append1: "consecutive k (xs @ ys) \<Longrightarrow> consecutive k xs"
  by (induction xs arbitrary: k) (auto split: if_splits)

text \<open>The state after the calls \<open>cs\<close> of one frame.\<close>

definition distributed ::
    "('d \<Rightarrow> nat \<Rightarrow> bool) \<Rightarrow> 'd \<Rightarrow> assign_call list \<Rightarrow> ('d, 'z) frame_locations_scheme \<Rightarrow> ('d, 'z) frame_locations_scheme" where
  "distributed isMy d cs st =
     (let mine = filter (\<lambda>c. isMy d (call_rec c)) cs
      in st \<lparr> dist := d, indx := indx st @ map call_loc mine, recnums := recnums st @ map call_rec mine,
              unique_rec_nums := unique_rec_nums st \<union> call_rec ` set mine,
              frame_loc_index := frame_loc_index st @ map (\<lambda>c. call_loc c - frame_start st) mine,
              nlocs := nlocs st + length mine \<rparr>)"

definition frame_calls :: "nat \<Rightarrow> real list \<Rightarrow> real list \<Rightarrow> (nat \<times> nat) list \<Rightarrow> assign_call list" where
  "frame_calls s lons lats = map (\<lambda>(l, r). (r, l, (lons ! (l - s), lats ! (l - s))))"

context frame_distribution
begin

lemma assign_locations:
  assumes "fold_result assign calls start = Inr (dist st)" "consecutive 0 (calls @ frame_calls (frame_start st) lons lats ps)"
  shows "\<exists>d. fold_result (\<lambda>(l, r). assign_location assign isMy lons lats l r) ps st
      = Inr (distributed isMy d (frame_calls (frame_start st) lons lats ps) st) \<and>
    fold_result assign (calls @ frame_calls (frame_start st) lons lats ps) start = Inr d"
  using assms
proof (induction ps arbitrary: calls st)
  case Nil
  have "distributed isMy (dist st) [] st = st" by (simp add: distributed_def)
  then show ?case using Nil by (auto simp: frame_calls_def)
next
  case (Cons p ps)
  obtain l r where p: "p = (l, r)" by (cases p)
  let ?s = "frame_start st" and ?cs = "frame_calls (frame_start st) lons lats ps"
  let ?c = "(r, l, (lons ! (l - frame_start st), lats ! (l - frame_start st)))"
  have cs: "frame_calls ?s lons lats (p # ps) = ?c # ?cs" by (simp add: frame_calls_def p)
  have con: "consecutive 0 ((calls @ [?c]) @ ?cs)" using Cons.prems(2) by (simp add: cs)
  obtain d1 where d1: "assign ?c (dist st) = Inr d1"
    using assigns [OF consecutive_append1 [OF con] Cons.prems(1)] by blast
  define st1 where "st1 = distributed isMy d1 [?c] st"
  have step: "assign_location assign isMy lons lats l r st = Inr st1"
    using d1 by (simp add: assign_location_def st1_def distributed_def)
  have f1: "dist st1 = d1" "frame_start st1 = ?s" by (simp_all add: st1_def distributed_def Let_def)
  have run1: "fold_result assign (calls @ [?c]) start = Inr (dist st1)"
    using Cons.prems(1) d1 by (simp add: fold_result_append f1)
  obtain d where d: "fold_result (\<lambda>(l, r). assign_location assign isMy lons lats l r) ps st1 = Inr (distributed isMy d ?cs st1)"
      "fold_result assign ((calls @ [?c]) @ ?cs) start = Inr d"
    using Cons.IH [OF run1] con by (auto simp: f1)
  have "fold_result assign ?cs d1 = Inr d"
    using d(2) unfolding fold_result_append [of _ "calls @ [?c]"] run1 f1(1) by simp
  then have "isMy d r = isMy d1 r" using run1 by (intro stable_later [of "calls @ [?c]"]) (simp_all add: f1)
  then have "distributed isMy d ?cs st1 = distributed isMy d (?c # ?cs) st"
    by (simp add: st1_def distributed_def Let_def)
  with d step show ?case unfolding cs by (intro exI [of _ d]) (simp add: p)
qed

lemma applyMpiDistribution_run:
  assumes "fold_result assign calls start = Inr (dist st)" "length recs = length ls"
    "consecutive 0 (calls @ frame_calls (frame_start st) lons lats (zip ls recs))"
  shows "\<exists>d. fold_result assign (calls @ frame_calls (frame_start st) lons lats (zip ls recs)) start = Inr d \<and>
    applyMpiDistribution assign isMy ls recs lons lats st
      = Inr (let st' = distributed isMy d (frame_calls (frame_start st) lons lats (zip ls recs)) (st \<lparr> frame_loc_index := [] \<rparr>)
             in st' \<lparr> nrecs := card (unique_rec_nums st') \<rparr>)"
  using assign_locations [of calls "st \<lparr> frame_loc_index := [] \<rparr>" lons lats "zip ls recs"] assms
  by (auto simp: applyMpiDistribution_def fold_result_zip Let_def)

end

section \<open>Record numbers are consecutive\<close>

text \<open>The number of the record of an accepted location: by the key of the location, or by its position.\<close>

definition numbered :: "(nat \<Rightarrow> 'k) \<Rightarrow> (nat \<Rightarrow> bool) \<Rightarrow> nat \<Rightarrow> nat" where
  "numbered kf acc i = rec_no (map kf (filter acc [0..<Suc i])) (kf i)"

definition record_number :: "bool \<Rightarrow> (nat \<Rightarrow> bool) \<Rightarrow> (nat \<Rightarrow> string) \<Rightarrow> nat \<Rightarrow> nat" where
  "record_number grouped acc key i = (if grouped then numbered key acc i else length (filter acc [0..<i]))"

definition source_calls :: "bool \<Rightarrow> (nat \<Rightarrow> bool) \<Rightarrow> (nat \<Rightarrow> string) \<Rightarrow> (nat \<Rightarrow> point2) \<Rightarrow> nat \<Rightarrow> assign_call list" where
  "source_calls grouped acc key pt k = map (\<lambda>i. (record_number grouped acc key i, i, pt i)) (filter acc [0..<k])"

lemma filter_upt_split: "i \<le> n \<Longrightarrow> filter acc [0..<n] = filter acc [0..<i] @ filter acc [i..<n]" for i :: nat
  by (metis filter_append le0 le_add_diff_inverse upt_add_eq_append)

lemma numbered_stable:
  assumes "acc i" "i < n"
  shows "numbered kf acc i = rec_no (map kf (filter acc [0..<n])) (kf i)"
proof -
  have "filter acc [0..<n] = filter acc [0..<Suc i] @ filter acc [Suc i..<n]" using assms(2) by (intro filter_upt_split) simp
  then show ?thesis
    using rec_no_old [of "kf i" "map kf (filter acc [0..<Suc i])" "map kf (filter acc [Suc i..<n])"] assms(1)
    by (simp add: numbered_def)
qed

lemma numbered_id:
  assumes "acc i"
  shows "numbered (\<lambda>i. i) acc i = length (filter acc [0..<i])"
proof -
  have "numbered (\<lambda>i. i) acc i = card (set (filter acc [0..<i]))"
    using assms rec_no_new [of i "filter acc [0..<i]" "[]"] by (simp add: numbered_def)
  also have "\<dots> = length (filter acc [0..<i])" by (rule distinct_card) simp
  finally show ?thesis .
qed

lemma numbered_image: "numbered kf acc ` set (filter acc [0..<k]) = {..<card (kf ` set (filter acc [0..<k]))}"
proof -
  have "numbered kf acc ` set (filter acc [0..<k])
      = (\<lambda>i. rec_no (map kf (filter acc [0..<k])) (kf i)) ` set (filter acc [0..<k])"
    using numbered_stable by (intro image_cong) auto
  also have "\<dots> = rec_no (map kf (filter acc [0..<k])) ` set (map kf (filter acc [0..<k]))" by auto
  also have "\<dots> = {..<card (set (map kf (filter acc [0..<k])))}" by (rule rec_no_image)
  finally show ?thesis by (simp only: set_map)
qed

lemma consecutive_snoc:
  "consecutive k (xs @ [c]) \<longleftrightarrow> consecutive k xs \<and> call_rec c \<le> k + card (call_rec ` set xs - {..<k})"
proof (induction xs arbitrary: k)
  case (Cons x xs)
  let ?R = "call_rec ` set xs"
  have "insert k ?R - {..<k} = insert k (?R - {..<Suc k})" by auto
  then have new: "card (insert k ?R - {..<k}) = Suc (card (?R - {..<Suc k}))" by simp
  show ?case
  proof (cases "call_rec x = k")
    case True
    then show ?thesis using Cons.IH [of "Suc k"] new by simp
  next
    case False
    have "insert (call_rec x) ?R - {..<k} = ?R - {..<k}" if "call_rec x < k" using that by auto
    then show ?thesis using False Cons.IH [of k] by (cases "call_rec x < k") simp_all
  qed
qed (simp add: le_less)

lemma numbered_bound:
  assumes "acc k"
  shows "numbered kf acc k \<le> card (kf ` set (filter acc [0..<k]))"
proof -
  let ?L = "map kf (filter acc [0..<k])"
  have n: "numbered kf acc k = rec_no (?L @ [kf k]) (kf k)" using assms by (simp add: numbered_def)
  have "rec_no (?L @ [kf k]) (kf k) \<le> card (set ?L)"
  proof (cases "kf k \<in> set ?L")
    case True
    then have "rec_no ?L (kf k) \<in> rec_no ?L ` set ?L" by (rule imageI)
    then have "rec_no ?L (kf k) < card (set ?L)" by (simp only: rec_no_image lessThan_iff)
    then show ?thesis using rec_no_old [OF True, of "[kf k]"] by (simp only: less_imp_le)
  next
    case False
    from rec_no_new [OF this, of "[]"] show ?thesis by (simp only: order_refl)
  qed
  then show ?thesis by (simp only: n set_map)
qed

lemma consecutive_numbered: "consecutive 0 (map (\<lambda>i. (numbered kf acc i, i, pt i)) (filter acc [0..<k]))"
proof (induction k)
  case (Suc k)
  have "call_rec ` set (map (\<lambda>i. (numbered kf acc i, i, pt i)) (filter acc [0..<k])) = {..<card (kf ` set (filter acc [0..<k]))}"
    unfolding set_map image_image call_simps by (rule numbered_image)
  then show ?case using Suc numbered_bound [of acc k kf] by (simp add: consecutive_snoc)
qed simp

lemma record_number_numbered:
  assumes "acc i"
  shows "record_number grouped acc key i = (if grouped then numbered key acc i else numbered (\<lambda>i. i) acc i)"
  using numbered_id [of acc, OF assms] by (simp add: record_number_def)

lemma consecutive_source_calls: "consecutive 0 (source_calls grouped acc key pt k)"
proof (cases grouped)
  case True
  then show ?thesis using consecutive_numbered [of key acc pt k] by (simp add: source_calls_def record_number_def)
next
  case False
  have "source_calls grouped acc key pt k = map (\<lambda>i. (numbered (\<lambda>i. i) acc i, i, pt i)) (filter acc [0..<k])"
    using False by (simp add: source_calls_def record_number_def numbered_id)
  then show ?thesis by (simp only: consecutive_numbered)
qed

lemma source_calls_split:
  "source_calls grouped acc key pt (s + c)
    = source_calls grouped acc key pt s @ map (\<lambda>i. (record_number grouped acc key i, i, pt i)) (filter acc [s..<s + c])"
  using filter_upt_split [of s "s + c" acc] by (simp add: source_calls_def)

section \<open>The state after the locations before a frame\<close>

text \<open>What the reader knows of the source: which locations are accepted, which are outside the time window, the grouping
  keys (if there is grouping) and the points.\<close>

record source_locations =
  src_grouped :: bool
  src_accept :: "nat \<Rightarrow> bool"
  src_outside :: "nat \<Rightarrow> bool"
  src_key :: "nat \<Rightarrow> string"
  src_point :: "nat \<Rightarrow> point2"

abbreviation src_calls :: "source_locations \<Rightarrow> nat \<Rightarrow> assign_call list" where
  "src_calls src \<equiv> source_calls (src_grouped src) (src_accept src) (src_key src) (src_point src)"

definition located ::
    "(assign_call \<Rightarrow> 'd \<Rightarrow> 'd result) \<Rightarrow> ('d \<Rightarrow> nat \<Rightarrow> bool) \<Rightarrow> 'd \<Rightarrow> source_locations \<Rightarrow> nat \<Rightarrow> ('d, 'z) frame_locations_scheme \<Rightarrow> bool" where
  "located assign isMy start src k st \<longleftrightarrow>
     gnlocs st = length (filter (src_accept src) [0..<k]) \<and>
     gnlocs_outside_timewindow st = length (filter (src_outside src) [0..<k]) \<and>
     rec_num_increment st = 1 \<and>
     (if src_grouped src then grouping_of (map (src_key src) (filter (src_accept src) [0..<k])) st
      else next_rec_num st = length (filter (src_accept src) [0..<k])) \<and>
     fold_result assign (src_calls src k) start = Inr (dist st) \<and>
     (let mine = filter (\<lambda>c. isMy (dist st) (call_rec c)) (src_calls src k)
      in indx st = map call_loc mine \<and> recnums st = map call_rec mine \<and> unique_rec_nums st = call_rec ` set mine \<and>
         nlocs st = length mine \<and> nrecs st = card (unique_rec_nums st))"

definition frame_records :: "source_locations \<Rightarrow> nat list \<Rightarrow> ('d, 'z) frame_locations_scheme \<Rightarrow> nat list \<times> ('d, 'z) frame_locations_scheme" where
  "frame_records src ls st = (if src_grouped src then genRecordNumbersGrouping (map (src_key src) ls) st else genRecordNumbersAll ls st)"

lemma frame_records_eq:
  assumes "if src_grouped src then grouping_of (map (src_key src) (filter (src_accept src) [0..<s])) st
           else next_rec_num st = length (filter (src_accept src) [0..<s])" "rec_num_increment st = 1"
  shows "\<exists>g m. frame_records src (filter (src_accept src) [s..<s + c]) st
      = (map (record_number (src_grouped src) (src_accept src) (src_key src)) (filter (src_accept src) [s..<s + c]),
         st \<lparr> obs_grouping := g, next_rec_num := m \<rparr>) \<and>
    (if src_grouped src then grouping_of (map (src_key src) (filter (src_accept src) [0..<s + c])) (st \<lparr> obs_grouping := g, next_rec_num := m \<rparr>)
     else m = length (filter (src_accept src) [0..<s + c]))"
proof -
  let ?acc = "src_accept src" and ?key = "src_key src"
  let ?ls = "filter ?acc [s..<s + c]" and ?old = "filter ?acc [0..<s]"
  have all: "filter ?acc [0..<s + c] = ?old @ ?ls" by (rule filter_upt_split) simp
  show ?thesis
  proof (cases "src_grouped src")
    case True
    then have old: "grouping_of (map ?key ?old) st" using assms(1) by simp
    have eq: "map (rec_no (map ?key ?old @ map ?key ?ls)) (map ?key ?ls) = map (record_number True ?acc ?key) ?ls"
      unfolding map_append [symmetric] all [symmetric] map_map
      by (intro map_cong refl) (auto simp: numbered_stable [where n = "s + c"] record_number_def)
    show ?thesis using genRecordNumbersGrouping_eq [OF old, of "map ?key ?ls"] True unfolding eq
      by (simp add: frame_records_def all)
  next
    case False
    then have n: "next_rec_num st = length ?old" using assms(1) by simp
    have "length (filter ?acc [0..<?ls ! j]) = length ?old + j" if "j < length ?ls" for j
    proof -
      have in_ls: "?ls ! j \<in> set ?ls" using that by (rule nth_mem)
      then have "?acc (?ls ! j)" "?ls ! j < s + c" by auto
      then have "length (filter ?acc [0..<?ls ! j]) = rec_no (filter ?acc [0..<s + c]) (?ls ! j)"
        using numbered_id [of ?acc "?ls ! j"] numbered_stable [of ?acc "?ls ! j" "s + c" "\<lambda>i. i"] by simp
      moreover have "rec_no (filter ?acc [0..<s + c]) (filter ?acc [0..<s + c] ! (length ?old + j)) = length ?old + j"
      proof (rule rec_no_distinct)
        show "length ?old + j < length (filter ?acc [0..<s + c])" using that by (simp add: all)
      qed simp
      moreover have "?ls ! j = filter ?acc [0..<s + c] ! (length ?old + j)" by (simp add: all)
      ultimately show ?thesis by simp
    qed
    then have "map (\<lambda>i. length ?old + i) [0..<length ?ls] = map (record_number False ?acc ?key) ?ls"
      by (intro nth_equalityI) (simp_all add: record_number_def)
    then show ?thesis using genRecordNumbersAll_eq [OF assms(2), of ?ls] False n
      by (auto simp: frame_records_def all intro!: exI [of _ "obs_grouping st"])
  qed
qed

text \<open>The rows of the frame that are kept.\<close>

definition kept_rows :: "('d \<Rightarrow> nat \<Rightarrow> bool) \<Rightarrow> 'd \<Rightarrow> source_locations \<Rightarrow> nat \<Rightarrow> nat \<Rightarrow> nat list" where
  "kept_rows isMy d src s c =
     filter (\<lambda>i. isMy d (record_number (src_grouped src) (src_accept src) (src_key src) i)) (filter (src_accept src) [s..<s + c])"

lemma src_calls_split:
  "src_calls src (s + c) = src_calls src s @
     map (\<lambda>i. (record_number (src_grouped src) (src_accept src) (src_key src) i, i, src_point src i)) (filter (src_accept src) [s..<s + c])"
  by (rule source_calls_split)

context frame_distribution
begin

lemma locate_frame:
  assumes loc: "located assign isMy start src s st" and s: "frame_start st = s"
    and recs: "frame_records src (filter (src_accept src) [s..<s + c])
        (st \<lparr> gnlocs := gnlocs st + length (filter (src_accept src) [s..<s + c]),
              gnlocs_outside_timewindow := gnlocs_outside_timewindow st + length (filter (src_outside src) [s..<s + c]) \<rparr>) = (recs, st2)"
    and pts: "\<forall>i \<in> set (filter (src_accept src) [s..<s + c]). (lons ! (i - s), lats ! (i - s)) = src_point src i"
  shows "\<exists>st3. applyMpiDistribution assign isMy (filter (src_accept src) [s..<s + c]) recs lons lats st2 = Inr st3 \<and>
    located assign isMy start src (s + c) st3 \<and> frame_start st3 = s \<and>
    frame_loc_index st3 = map (\<lambda>i. i - s) (kept_rows isMy (dist st3) src s c) \<and>
    indx st3 = indx st @ kept_rows isMy (dist st3) src s c \<and>
    adjusted_location_frame_start st3 = adjusted_location_frame_start st \<and> frame_locations.more st3 = frame_locations.more st"
proof -
  let ?ls = "filter (src_accept src) [s..<s + c]" and ?rn = "record_number (src_grouped src) (src_accept src) (src_key src)"
  let ?new = "map (\<lambda>i. (?rn i, i, src_point src i)) ?ls"
  define st1 where "st1 = st \<lparr> gnlocs := gnlocs st + length ?ls,
     gnlocs_outside_timewindow := gnlocs_outside_timewindow st + length (filter (src_outside src) [s..<s + c]) \<rparr>"
  have "if src_grouped src then grouping_of (map (src_key src) (filter (src_accept src) [0..<s])) st1
        else next_rec_num st1 = length (filter (src_accept src) [0..<s])" "rec_num_increment st1 = 1"
    using loc by (auto simp: located_def st1_def grouping_of_def)
  from frame_records_eq [OF this, of c] recs obtain g m where
    g: "recs = map ?rn ?ls" "st2 = st1 \<lparr> obs_grouping := g, next_rec_num := m \<rparr>"
      "if src_grouped src then grouping_of (map (src_key src) (filter (src_accept src) [0..<s + c])) st2
       else m = length (filter (src_accept src) [0..<s + c])"
    unfolding st1_def [symmetric] by auto
  have old: "fold_result assign (src_calls src s) start = Inr (dist st2)" "frame_start st2 = s"
    using loc s by (auto simp: located_def g(2) st1_def)
  have calls: "frame_calls (frame_start st2) lons lats (zip ?ls recs) = ?new"
    unfolding frame_calls_def g(1) old(2) zip_map2 zip_same_conv_map using pts by simp
  have con: "consecutive 0 (src_calls src s @ ?new)" unfolding src_calls_split [symmetric] by (rule consecutive_source_calls)
  obtain d where d: "fold_result assign (src_calls src s @ ?new) start = Inr d"
      "applyMpiDistribution assign isMy ?ls recs lons lats st2 = Inr (let st' = distributed isMy d ?new (st2 \<lparr> frame_loc_index := [] \<rparr>)
             in st' \<lparr> nrecs := card (unique_rec_nums st') \<rparr>)"
    using applyMpiDistribution_run [OF old(1), of recs ?ls lons lats] con unfolding calls by (auto simp: g(1))
  define st3 where "st3 = (let st' = distributed isMy d ?new (st2 \<lparr> frame_loc_index := [] \<rparr>) in st' \<lparr> nrecs := card (unique_rec_nums st') \<rparr>)"
  let ?mine = "filter (\<lambda>c. isMy d (call_rec c))"
  have new: "?mine ?new = map (\<lambda>i. (?rn i, i, src_point src i)) (kept_rows isMy d src s c)"
    by (simp add: kept_rows_def filter_map comp_def)
  have "fold_result assign ?new (dist st2) = Inr d" using d(1) unfolding fold_result_append old(1) by simp
  then have "?mine (src_calls src s) = filter (\<lambda>c. isMy (dist st2) (call_rec c)) (src_calls src s)"
    using stable_later [OF old(1)] by (intro filter_cong) auto
  then have mine: "?mine (src_calls src (s + c)) = filter (\<lambda>c. isMy (dist st) (call_rec c)) (src_calls src s) @ ?mine ?new"
    by (simp add: src_calls_split g(2) st1_def)
  have dist3: "dist st3 = d" by (simp add: st3_def distributed_def Let_def)
  have f3: "gnlocs st3 = gnlocs st + length ?ls"
    "gnlocs_outside_timewindow st3 = gnlocs_outside_timewindow st + length (filter (src_outside src) [s..<s + c])"
    "rec_num_increment st3 = rec_num_increment st2" "obs_grouping st3 = obs_grouping st2" "next_rec_num st3 = next_rec_num st2"
    "indx st3 = indx st @ map call_loc (?mine ?new)" "recnums st3 = recnums st @ map call_rec (?mine ?new)"
    "unique_rec_nums st3 = unique_rec_nums st \<union> call_rec ` set (?mine ?new)" "nlocs st3 = nlocs st + length (?mine ?new)"
    "nrecs st3 = card (unique_rec_nums st3)" "rec_num_increment st2 = rec_num_increment st" "next_rec_num st2 = m"
    by (simp_all add: st3_def distributed_def Let_def g(2) st1_def)
  have all: "length (filter P [0..<s + c]) = length (filter P [0..<s]) + length (filter P [s..<s + c])" for P
    by (subst filter_upt_split [of s]) simp_all
  note l = loc [unfolded located_def Let_def]
  have "located assign isMy start src (s + c) st3"
    unfolding located_def Let_def dist3 mine
  proof (intro conjI)
    show "fold_result assign (src_calls src (s + c)) start = Inr d" using d(1) by (simp only: src_calls_split)
    show "if src_grouped src then grouping_of (map (src_key src) (filter (src_accept src) [0..<s + c])) st3
      else next_rec_num st3 = length (filter (src_accept src) [0..<s + c])"
      using g(3) grouping_of_cong [OF f3(4,5,3)] by (simp only: f3(5,12))
  qed (use l d(1) f3 all in \<open>simp_all only: map_append length_append image_Un set_append\<close>)
  moreover have "frame_loc_index st3 = map (\<lambda>i. i - s) (kept_rows isMy d src s c)" "indx st3 = indx st @ kept_rows isMy d src s c"
    by (simp_all add: st3_def distributed_def Let_def new comp_def old(2) g(2) st1_def s)
  moreover have "frame_start st3 = s" "adjusted_location_frame_start st3 = adjusted_location_frame_start st"
      "frame_locations.more st3 = frame_locations.more st"
    by (simp_all add: st3_def distributed_def Let_def g(2) st1_def s)
  ultimately show ?thesis using d(2) [folded st3_def] dist3 by (intro exI [of _ st3]) simp
qed

end

section \<open>Distributions that the reader can use\<close>

interpretation nonov: frame_distribution
  "\<lambda>c d. Inr (NonoverlappingDistribution_assignRecord isMy c d)" "\<lambda>d. isMy" NonoverlappingDistribution
  for isMy
  by unfold_locales simp

interpretation atlas: frame_distribution "AtlasDistribution_assignRecord locator rank"
  AtlasDistribution_isMyRecord AtlasDistribution
  for locator rank
proof
  fix calls c s
  assume "consecutive 0 (calls @ [c])"
    and s: "fold_result (AtlasDistribution_assignRecord locator rank) calls AtlasDistribution = Inr s"
  then have "consecutive (nextRecordToAssign AtlasDistribution) (calls @ [c])" by (simp add: AtlasDistribution_def)
  from Atlas_run [OF this, of locator rank] obtain d where
    "fold_result (AtlasDistribution_assignRecord locator rank) (calls @ [c]) AtlasDistribution = Inr d" by (elim exE conjE)
  then have "bind_result (AtlasDistribution_assignRecord locator rank c s) (fold_result (AtlasDistribution_assignRecord locator rank) []) = Inr d"
    unfolding fold_result_append s by simp
  then show "\<exists>s'. AtlasDistribution_assignRecord locator rank c s = Inr s'" unfolding bind_result_eq_Inr by blast
qed

interpretation halo: frame_distribution
  "\<lambda>c h. Inr (Halo_assignRecord distance cfg c h)" Halo_isMyRecord Halo
  for distance cfg
  by unfold_locales simp

interpretation ineff: frame_distribution "\<lambda>c d. Inr d" "\<lambda>d. InefficientDistribution_isMyRecord" "()"
  by unfold_locales simp_all

interpretation replica: frame_distribution
  "\<lambda>c d. Inr (ReplicaOfGeneralDistribution_assignRecord isMy c d)" ReplicaOfGeneralDistribution_isMyRecord
  "ReplicaOfGeneralDistribution patch recs"
  for isMy patch recs
  by unfold_locales simp

end
