(* ===== verification/Ioda_Selection.thy ===== *)
theory Ioda_Selection
  imports Ioda_Prelude
begin

text \<open>
  Selections of the in-memory engine (\<open>Engines/ObsStore/Selection.cpp\<close>, \<open>ObsStore-selection.cpp\<close>): the
  counter that walks through the selected indices, the iterator of linear memory indices, and the
  translation of hyperslabs, point lists and dimension indices into per-dimension index lists.

  The locale \<open>lin_index_iterator\<close> is what the transfer loops of \<open>VarAttrStore\<close> rely on; it is interpreted on
  \<open>Selection\<close>. Sizes are \<open>nat\<close>; the two places where the 64-bit wrap-around or the conversion to
  \<open>int\<close> can be seen (\<open>max_index_\<close>, \<open>gsl::narrow<int>\<close>) are written out.
\<close>

section \<open>SelectCounter\<close>

datatype SelectionModes = ALL_MODE | INTERSECT | POINT

record select_counter =
  counter_mode :: SelectionModes
  digits :: "nat list"
  icount :: nat
  ndigits :: nat
  digit_sizes :: "nat list"
  counter_end :: bool

definition SelectCounter :: select_counter where
  "SelectCounter = \<lparr> counter_mode = ALL_MODE, digits = [], icount = 0, ndigits = 0, digit_sizes = [], counter_end = False \<rparr>"

definition SelectCounter_reset :: "SelectionModes \<Rightarrow> nat list \<Rightarrow> select_counter \<Rightarrow> select_counter" where
  "SelectCounter_reset mode sizes c =
     c \<lparr> counter_mode := mode, digit_sizes := sizes, ndigits := length sizes,
         digits := replicate (length sizes) 0, counter_end := False \<rparr>"

text \<open>The \<open>while\<close> loop that applies the carry rules, from digit \<open>i\<close>: the digits, the last position and
  whether the counter overflowed.\<close>

fun carry :: "nat list \<Rightarrow> nat list \<Rightarrow> nat \<Rightarrow> nat list \<times> nat \<times> bool" where
  "carry sizes ds 0 = (ds, 0, ds ! 0 = sizes ! 0)"
| "carry sizes ds (Suc i) =
     (if ds ! Suc i = sizes ! Suc i
      then let ds = ds[Suc i := 0]; ds = ds[i := ds ! i + 1] in carry sizes ds i
      else (ds, Suc i, False))"

definition SelectCounter_inc :: "select_counter \<Rightarrow> select_counter" where
  "SelectCounter_inc c =
     (if counter_mode c = POINT
      then if digits c ! 0 = ndigits c - 1 then c \<lparr> counter_end := True \<rparr>
           else c \<lparr> digits := map (\<lambda>d. d + 1) (digits c) \<rparr>
      else let i = ndigits c - 1;
               ds = (digits c)[i := digits c ! i + 1];
               (ds, i, overflow) = carry (digit_sizes c) ds i
           in c \<lparr> digits := ds, icount := i, counter_end := counter_end c \<or> overflow \<rparr>)"

definition SelectCounter_finished :: "select_counter \<Rightarrow> bool" where
  "SelectCounter_finished c = counter_end c"

definition SelectCounter_count :: "select_counter \<Rightarrow> nat list" where
  "SelectCounter_count c = digits c"

section \<open>Selection\<close>

record selection =
  sel_mode :: SelectionModes
  sel_end :: int
  sel_index :: int
  npoints :: nat
  max_index :: nat
  dim_selects :: "nat list list"
  dim_sizes :: "nat list"
  dim_select_sizes :: "nat list"
  counter :: select_counter

text \<open>The constructor for mode \<open>ALL\<close>; \<open>gsl::narrow\<close> throws if the count does not fit an \<open>int\<close>. The 64-bit
  \<open>max_index_\<close> of an empty selection is the wrapped value of -1.\<close>

definition Selection_all :: "nat \<Rightarrow> nat \<Rightarrow> selection result" where
  "Selection_all start n =
     (if start + n \<ge> 2 ^ 31 then Inl (Exception ''narrowing'')
      else Inr \<lparr> sel_mode = ALL_MODE, sel_end = int (start + n) - 1, sel_index = 0, npoints = n,
             max_index = (start + n + (2 ^ 64 - 1)) mod 2 ^ 64,
             dim_selects = [], dim_sizes = [], dim_select_sizes = [], counter = SelectCounter \<rparr>)"

definition Selection :: "SelectionModes \<Rightarrow> nat list list \<Rightarrow> nat list \<Rightarrow> selection" where
  "Selection mode selects sizes =
     (let (ss, np, mx) =
        fold (\<lambda>i (ss, np, mx).
            (ss @ [length (selects ! i)],
             if i = 0 \<or> mode = INTERSECT then np * length (selects ! i) else np,
             mx * sizes ! i))
          [0..<length selects] ([], 1, 1)
      in \<lparr> sel_mode = mode, sel_end = 0, sel_index = 0, npoints = np,
           max_index = (mx + (2 ^ 64 - 1)) mod 2 ^ 64,
           dim_selects = selects, dim_sizes = sizes, dim_select_sizes = ss, counter = SelectCounter \<rparr>)"

definition Selection_init_lin_indx :: "selection \<Rightarrow> selection" where
  "Selection_init_lin_indx s =
     (if sel_mode s = ALL_MODE then s \<lparr> sel_index := 0 \<rparr>
      else s \<lparr> counter := SelectCounter_reset (sel_mode s) (dim_select_sizes s) (counter s) \<rparr>)"

text \<open>The linear index of the current count.\<close>

definition lin_index_of :: "selection \<Rightarrow> nat list \<Rightarrow> nat" where
  "lin_index_of s cur =
     fold (\<lambda>i lin. lin * dim_sizes s ! i + dim_selects s ! i ! (cur ! i)) [1..<length (dim_selects s)]
       (dim_selects s ! 0 ! (cur ! 0))"

definition Selection_next_lin_indx :: "selection \<Rightarrow> (nat \<times> selection) result" where
  "Selection_next_lin_indx s =
     (let (lin, s) =
        (if sel_mode s = ALL_MODE then (nat (sel_index s), s \<lparr> sel_index := sel_index s + 1 \<rparr>)
         else (lin_index_of s (SelectCounter_count (counter s)), s \<lparr> counter := SelectCounter_inc (counter s) \<rparr>))
      in if lin > max_index s then Inl (Exception ''Next linear index is out of bounds.'') else Inr (lin, s))"

definition Selection_end_lin_indx :: "selection \<Rightarrow> bool" where
  "Selection_end_lin_indx s =
     (if sel_mode s = ALL_MODE then sel_index s > sel_end s else SelectCounter_finished (counter s))"

section \<open>Mixed-radix numbers\<close>

fun radix_val :: "nat list \<Rightarrow> nat list \<Rightarrow> nat" where
  "radix_val (d # ds) (s # ss) = d * prod_list ss + radix_val ds ss"
| "radix_val _ _ = 0"

fun digits_of :: "nat list \<Rightarrow> nat \<Rightarrow> nat list" where
  "digits_of [] k = []"
| "digits_of (s # ss) k = k div prod_list ss # digits_of ss (k mod prod_list ss)"

lemma length_digits_of [simp]: "length (digits_of ss k) = length ss"
  by (induction ss arbitrary: k) auto

lemma radix_val_append:
  "length ds = length ss \<Longrightarrow>
   radix_val (ds @ ds') (ss @ ss') = radix_val ds ss * prod_list ss' + radix_val ds' ss'"
  by (induction ds ss rule: list_induct2) (auto simp: algebra_simps)

lemma radix_val_zeros [simp]: "radix_val (replicate n 0) ss = 0"
proof (induction n arbitrary: ss)
  case (Suc n)
  then show ?case by (cases ss) auto
qed simp

lemma radix_val_less:
  "list_all2 (<) ds ss \<Longrightarrow> radix_val ds ss < prod_list ss"
proof (induction ds ss rule: list_all2_induct)
  case (Cons d ds s ss)
  have "d * prod_list ss + radix_val ds ss < d * prod_list ss + prod_list ss" using Cons by simp
  also have "\<dots> = Suc d * prod_list ss" by simp
  also have "\<dots> \<le> s * prod_list ss" using Cons.hyps(1) by (intro mult_le_mono1) simp
  finally show ?case by simp
qed simp

lemma digits_of_radix_val: "list_all2 (<) ds ss \<Longrightarrow> digits_of ss (radix_val ds ss) = ds"
proof (induction ds ss rule: list_all2_induct)
  case (Cons d ds s ss)
  then have "radix_val ds ss < prod_list ss" by (simp add: radix_val_less)
  with Cons show ?case by simp
qed simp

lemma digits_of_valid:
  "k < prod_list ss \<Longrightarrow> list_all2 (<) (digits_of ss k) ss \<and> radix_val (digits_of ss k) ss = k"
proof (induction ss arbitrary: k)
  case Nil
  then show ?case by simp
next
  case (Cons s ss)
  then have p: "prod_list ss > 0" by (cases "prod_list ss") auto
  then have "k div prod_list ss < s" using Cons.prems by (simp add: less_mult_imp_div_less)
  with Cons.IH [of "k mod prod_list ss"] p show ?case by simp
qed

text \<open>Counting up through the digits is the lexicographic enumeration of the combinations.\<close>

lemma upt_mult_concat: "map f [0..<s * p] = concat (map (\<lambda>x. map (\<lambda>j. f (x * p + j)) [0..<p]) [0..<s])" for p :: nat
proof (induction s)
  case 0
  then show ?case by simp
next
  case (Suc s)
  have "[0..<Suc s * p] = [0..<s * p] @ map (\<lambda>j. s * p + j) [0..<p]"
    using upt_add_eq_append [of 0 "s * p" p] by (simp add: add.commute map_add_upt [symmetric])
  then have "map f [0..<Suc s * p] = map f [0..<s * p] @ map (\<lambda>j. f (s * p + j)) [0..<p]" by (simp add: comp_def)
  with Suc show ?case by simp
qed

lemma prod_list_pos: "(\<And>s. s \<in> set ss \<Longrightarrow> 0 < s) \<Longrightarrow> 0 < prod_list (ss :: nat list)"
  by (induction ss) auto

lemma product_lists_digits:
  "(\<And>xs. xs \<in> set xss \<Longrightarrow> xs \<noteq> []) \<Longrightarrow>
   product_lists xss = map (\<lambda>k. map2 (!) xss (digits_of (map length xss) k)) [0..<prod_list (map length xss)]"
proof (induction xss)
  case Nil
  then show ?case by simp
next
  case (Cons xs xss)
  let ?p = "prod_list (map length xss)"
  let ?g = "\<lambda>k. map2 (!) xss (digits_of (map length xss) k)"
  have p: "?p > 0" using Cons.prems by (intro prod_list_pos) auto
  have IH: "product_lists xss = map ?g [0..<?p]" using Cons by simp
  have "map (\<lambda>k. map2 (!) (xs # xss) (digits_of (map length (xs # xss)) k)) [0..<prod_list (map length (xs # xss))]
      = map (\<lambda>k. xs ! (k div ?p) # ?g (k mod ?p)) [0..<length xs * ?p]"
    by simp
  also have "\<dots> = concat (map (\<lambda>x. map (\<lambda>j. xs ! x # ?g j) [0..<?p]) [0..<length xs])"
    unfolding upt_mult_concat by (intro arg_cong [where f = concat] map_cong refl) (use p in auto)
  also have "\<dots> = concat (map (\<lambda>x. map ((#) x) (map ?g [0..<?p])) (map ((!) xs) [0..<length xs]))"
    by (simp add: comp_def)
  also have "\<dots> = product_lists (xs # xss)" by (simp add: IH map_nth)
  finally show ?case by simp
qed

section \<open>The counter counts\<close>

lemma radix_val_carry:
  assumes "length ds = length ss" "Suc i < length ss" "ds ! Suc i = ss ! Suc i"
  shows "radix_val (ds[Suc i := 0, i := ds ! i + 1]) ss = radix_val ds ss"
  using assms
proof (induction i arbitrary: ds ss)
  case 0
  then obtain d e ds' s t ss' where "ds = d # e # ds'" "ss = s # t # ss'"
    by (metis (no_types, opaque_lifting) length_Suc_conv Suc_less_eq gr0_conv_Suc less_Suc_eq_0_disj list.size(3) not_less0 length_greater_0_conv neq_Nil_conv)
  then show ?case using 0 by (simp add: algebra_simps)
next
  case (Suc i)
  then obtain d ds' s ss' where "ds = d # ds'" "ss = s # ss'"
    by (metis length_greater_0_conv neq_Nil_conv not_less0 length_0_conv)
  then show ?case using Suc.prems Suc.IH [of ds' ss'] by simp
qed

lemma radix_val_inc:
  "length ds = length ss \<Longrightarrow> ss \<noteq> [] \<Longrightarrow>
   radix_val (ds[length ss - 1 := ds ! (length ss - 1) + 1]) ss = radix_val ds ss + 1"
proof (induction ds ss rule: list_induct2)
  case Nil
  then show ?case by simp
next
  case (Cons d ds s ss)
  then show ?case by (cases "ss = []") (auto simp: nth_Cons' list_update_def split: nat.split)
qed

lemma carry_ok:
  assumes "length ds = length ss" "i < length ss" "\<forall>j < i. ds ! j < ss ! j" "ds ! i \<le> ss ! i"
    "\<forall>j. i < j \<and> j < length ss \<longrightarrow> ds ! j = 0" "\<forall>j < length ss. 0 < ss ! j"
    "carry ss ds i = (ds', i', ov)"
  shows "length ds' = length ss \<and>
    (if ov then radix_val ds ss = prod_list ss
     else list_all2 (<) ds' ss \<and> radix_val ds' ss = radix_val ds ss)"
  using assms
proof (induction i arbitrary: ds)
  case 0
  show ?case
  proof (cases "ds ! 0 = ss ! 0")
    case True
    obtain s ss' where ss: "ss = s # ss'" using "0.prems"(2) by (cases ss) auto
    have ds: "ds = s # replicate (length ss') 0"
      using "0.prems" True ss by (intro nth_equalityI) (auto simp: nth_Cons split: nat.split)
    have "ds' = ds" "ov" using "0.prems"(7) True by auto
    then show ?thesis by (simp add: ss ds)
  next
    case False
    have "ds ! j < ss ! j" if "j < length ss" for j
      using "0.prems"(4-6) False that by (cases j) auto
    then show ?thesis using "0.prems"(1,7) False by (auto simp: list_all2_conv_all_nth)
  qed
next
  case (Suc i)
  show ?case
  proof (cases "ds ! Suc i = ss ! Suc i")
    case True
    let ?ds = "ds[Suc i := 0, i := ds ! i + 1]"
    have "length ds' = length ss \<and> (if ov then radix_val ?ds ss = prod_list ss
        else list_all2 (<) ds' ss \<and> radix_val ds' ss = radix_val ?ds ss)"
    proof (rule Suc.IH)
      show "carry ss ?ds i = (ds', i', ov)" using Suc.prems(7) True by (simp add: Let_def)
      show "length ?ds = length ss" "i < length ss" using Suc.prems(1,2) by simp_all
      show "\<forall>j < i. ?ds ! j < ss ! j" using Suc.prems(3) by simp
      show "?ds ! i \<le> ss ! i" using Suc.prems(1-3) by (simp add: Suc_leI)
      show "\<forall>j. i < j \<and> j < length ss \<longrightarrow> ?ds ! j = 0"
        using Suc.prems(1,5) by (auto simp: nth_list_update)
    qed (rule Suc.prems(6))
    then show ?thesis unfolding radix_val_carry [OF Suc.prems(1,2) True] .
  next
    case False
    have "ds ! j < ss ! j" if "j < length ss" for j
      using Suc.prems(3-6) False that by (cases j "Suc i" rule: linorder_cases) auto
    then show ?thesis using Suc.prems(1,7) False by (auto simp: list_all2_conv_all_nth)
  qed
qed

lemma SelectCounter_inc_ok:
  assumes "counter_mode c \<noteq> POINT" "digit_sizes c = ss" "ndigits c = length ss" "ss \<noteq> []" "\<forall>s \<in> set ss. 0 < s"
    "digits c = digits_of ss k" "k < prod_list ss" "\<not> counter_end c"
  shows "counter_mode (SelectCounter_inc c) = counter_mode c" "digit_sizes (SelectCounter_inc c) = ss"
    "ndigits (SelectCounter_inc c) = length ss"
    "counter_end (SelectCounter_inc c) \<longleftrightarrow> Suc k = prod_list ss"
    "Suc k < prod_list ss \<Longrightarrow> digits (SelectCounter_inc c) = digits_of ss (Suc k)"
proof -
  let ?i = "length ss - 1" and ?ds = "(digits c)[length ss - 1 := digits c ! (length ss - 1) + 1]"
  obtain ds' i' ov where carry: "carry ss ?ds ?i = (ds', i', ov)" by (metis prod_cases3)
  have inc: "SelectCounter_inc c = c \<lparr> digits := ds', icount := i', counter_end := ov \<rparr>"
    using assms(1-3,8) carry by (simp add: SelectCounter_inc_def Let_def)
  then show "counter_mode (SelectCounter_inc c) = counter_mode c" "digit_sizes (SelectCounter_inc c) = ss"
    "ndigits (SelectCounter_inc c) = length ss"
    using assms(2,3) by simp_all
  have valid: "list_all2 (<) (digits c) ss" "radix_val (digits c) ss = k"
    using digits_of_valid [OF assms(7)] assms(6) by simp_all
  have len: "length (digits c) = length ss" using assms(6) by simp
  have val: "radix_val ?ds ss = Suc k" using radix_val_inc [OF len assms(4)] valid(2) by simp
  have lt: "digits c ! j < ss ! j" if "j < length ss" for j
    using valid(1) that by (simp add: list_all2_conv_all_nth)
  have "length ds' = length ss \<and> (if ov then radix_val ?ds ss = prod_list ss
      else list_all2 (<) ds' ss \<and> radix_val ds' ss = radix_val ?ds ss)"
  proof (rule carry_ok [OF _ _ _ _ _ _ carry])
    show "length ?ds = length ss" "?i < length ss" using len assms(4) by simp_all
    show "\<forall>j < ?i. ?ds ! j < ss ! j" using lt by auto
    show "?ds ! ?i \<le> ss ! ?i" using lt [of ?i] len assms(4) by (simp add: Suc_leI)
    show "\<forall>j. ?i < j \<and> j < length ss \<longrightarrow> ?ds ! j = 0" by auto
    show "\<forall>j < length ss. 0 < ss ! j" using assms(5) by simp
  qed
  then have *: "if ov then Suc k = prod_list ss else list_all2 (<) ds' ss \<and> radix_val ds' ss = Suc k"
    unfolding val by (rule conjunct2)
  then show "counter_end (SelectCounter_inc c) \<longleftrightarrow> Suc k = prod_list ss"
    using radix_val_less [of ds' ss] inc by (cases ov) auto
  show "digits (SelectCounter_inc c) = digits_of ss (Suc k)" if "Suc k < prod_list ss"
  proof -
    have "list_all2 (<) ds' ss" "radix_val ds' ss = Suc k" using * that by (auto split: if_splits)
    then show ?thesis using digits_of_radix_val [of ds' ss] inc by simp
  qed
qed

section \<open>The iterator contract\<close>

text \<open>
  \<open>remaining s xs\<close>: the iterator \<open>s\<close> will deliver exactly the indices \<open>xs\<close>. This is all that the transfer loops use.
\<close>

locale lin_index_iterator =
  fixes wf :: "'s \<Rightarrow> bool" and points :: "'s \<Rightarrow> nat list" and remaining :: "'s \<Rightarrow> nat list \<Rightarrow> bool"
    and init :: "'s \<Rightarrow> 's" and next_index :: "'s \<Rightarrow> (nat \<times> 's) result" and at_end :: "'s \<Rightarrow> bool"
  assumes init_remaining: "wf s \<Longrightarrow> remaining (init s) (points s)"
    and remaining_Nil: "remaining s [] \<Longrightarrow> at_end s"
    and remaining_Cons: "remaining s (x # xs) \<Longrightarrow> \<not> at_end s"
    and remaining_next: "remaining s (x # xs) \<Longrightarrow> \<exists>s'. next_index s = Inr (x, s') \<and> remaining s' xs"

text \<open>The loop \<open>while (!end_lin_indx()) next_lin_indx()\<close>, with fuel; \<open>None\<close> is running out of it.\<close>

fun lin_indices :: "nat \<Rightarrow> selection \<Rightarrow> nat list result option" where
  "lin_indices 0 s = (if Selection_end_lin_indx s then Some (Inr []) else None)"
| "lin_indices (Suc fuel) s =
     (if Selection_end_lin_indx s then Some (Inr [])
      else case Selection_next_lin_indx s of
             Inl e \<Rightarrow> Some (Inl e)
           | Inr (i, s) \<Rightarrow> map_option (\<lambda>r. bind_result r (\<lambda>is. Inr (i # is))) (lin_indices fuel s))"

text \<open>What a selection promises to deliver.\<close>

definition selection_wf :: "selection \<Rightarrow> bool" where
  "selection_wf s \<longleftrightarrow>
     (sel_mode s = ALL_MODE \<and> (\<exists>n. sel_end s = int n - 1 \<and> (n > 0 \<longrightarrow> max_index s = n - 1)))
   \<or> (sel_mode s = INTERSECT \<and> dim_selects s \<noteq> [] \<and> length (dim_sizes s) = length (dim_selects s) \<and>
        dim_select_sizes s = map length (dim_selects s) \<and>
        (\<forall>xs \<in> set (dim_selects s). xs \<noteq> []) \<and>
        list_all2 (\<lambda>xs n. \<forall>x \<in> set xs. x < n) (dim_selects s) (dim_sizes s) \<and>
        max_index s = prod_list (dim_sizes s) - 1)"

definition selection_points :: "selection \<Rightarrow> nat list" where
  "selection_points s =
     (if sel_mode s = ALL_MODE then [0..<nat (sel_end s + 1)]
      else map (\<lambda>coords. radix_val coords (dim_sizes s)) (product_lists (dim_selects s)))"

text \<open>The linear index is the row-major address of the selected coordinates (Horner's rule).\<close>

lemma horner_radix_val:
  assumes "length cs = length ss" "cs \<noteq> []"
  shows "fold (\<lambda>i lin. lin * ss ! i + cs ! i) [1..<length cs] (cs ! 0) = radix_val cs ss"
  using assms
proof (induction cs arbitrary: ss rule: rev_induct)
  case Nil
  then show ?case by simp
next
  case (snoc c cs)
  then obtain ss' s where ss: "ss = ss' @ [s]" "length ss' = length cs" by (cases ss rule: rev_cases) auto
  show ?case
  proof (cases "cs = []")
    case True
    then show ?thesis using ss by simp
  next
    case False
    have "fold (\<lambda>i lin. lin * (ss' @ [s]) ! i + (cs @ [c]) ! i) [1..<length cs] (cs ! 0)
        = fold (\<lambda>i lin. lin * ss' ! i + cs ! i) [1..<length cs] (cs ! 0)"
      using ss(2) by (intro fold_cong) (auto simp: nth_append fun_eq_iff)
    then show ?thesis
      using snoc.IH [OF ss(2) [symmetric] False] False ss by (simp add: nth_append radix_val_append Suc_leI)
  qed
qed

lemma lin_index_of_eq:
  assumes "length (dim_sizes s) = length (dim_selects s)" "length cur = length (dim_selects s)" "dim_selects s \<noteq> []"
  shows "lin_index_of s cur = radix_val (map2 (!) (dim_selects s) cur) (dim_sizes s)"
proof -
  let ?cs = "map2 (!) (dim_selects s) cur"
  have "lin_index_of s cur = fold (\<lambda>i lin. lin * dim_sizes s ! i + ?cs ! i) [1..<length ?cs] (?cs ! 0)"
    using assms unfolding lin_index_of_def by (intro fold_cong) (auto simp: fun_eq_iff)
  moreover have "cur \<noteq> []" using assms(2,3) by auto
  ultimately show ?thesis using assms horner_radix_val [of ?cs "dim_sizes s"] by simp
qed

definition selection_remaining :: "selection \<Rightarrow> nat list \<Rightarrow> bool" where
  "selection_remaining s xs \<longleftrightarrow> selection_wf s \<and>
     (if sel_mode s = ALL_MODE
      then \<exists>k n. sel_end s = int n - 1 \<and> sel_index s = int k \<and> k \<le> n \<and> xs = [k..<n]
      else counter_mode (counter s) = INTERSECT \<and> digit_sizes (counter s) = dim_select_sizes s \<and>
           ndigits (counter s) = length (dim_select_sizes s) \<and>
           (if counter_end (counter s) then xs = []
            else \<exists>k < prod_list (dim_select_sizes s). digits (counter s) = digits_of (dim_select_sizes s) k \<and>
                   xs = map (\<lambda>k. lin_index_of s (digits_of (dim_select_sizes s) k)) [k..<prod_list (dim_select_sizes s)]))"

lemma selection_intersect_facts:
  assumes "selection_wf s" "sel_mode s \<noteq> ALL_MODE"
  shows "sel_mode s = INTERSECT" "dim_selects s \<noteq> []" "length (dim_sizes s) = length (dim_selects s)"
    "dim_select_sizes s = map length (dim_selects s)" "\<forall>xs \<in> set (dim_selects s). xs \<noteq> []"
    "list_all2 (\<lambda>xs n. \<forall>x \<in> set xs. x < n) (dim_selects s) (dim_sizes s)" "max_index s = prod_list (dim_sizes s) - 1"
    "0 < prod_list (dim_select_sizes s)"
proof -
  show 1: "sel_mode s = INTERSECT" "dim_selects s \<noteq> []" "length (dim_sizes s) = length (dim_selects s)"
    "dim_select_sizes s = map length (dim_selects s)" "\<forall>xs \<in> set (dim_selects s). xs \<noteq> []"
    "list_all2 (\<lambda>xs n. \<forall>x \<in> set xs. x < n) (dim_selects s) (dim_sizes s)" "max_index s = prod_list (dim_sizes s) - 1"
    using assms by (auto simp: selection_wf_def)
  then show "0 < prod_list (dim_select_sizes s)" by (auto intro!: prod_list_pos)
qed

lemma intersect_points:
  assumes "selection_wf s" "sel_mode s \<noteq> ALL_MODE"
  shows "map (\<lambda>k. lin_index_of s (digits_of (dim_select_sizes s) k)) [0..<prod_list (dim_select_sizes s)] = selection_points s"
proof -
  note f = selection_intersect_facts [OF assms]
  have "product_lists (dim_selects s)
      = map (\<lambda>k. map2 (!) (dim_selects s) (digits_of (dim_select_sizes s) k)) [0..<prod_list (dim_select_sizes s)]"
    using product_lists_digits [of "dim_selects s"] f(4,5) by simp
  then show ?thesis using f assms(2) by (simp add: selection_points_def lin_index_of_eq)
qed

lemma lin_index_in_bounds:
  assumes "selection_wf s" "sel_mode s \<noteq> ALL_MODE" "k < prod_list (dim_select_sizes s)"
  shows "lin_index_of s (digits_of (dim_select_sizes s) k) \<le> max_index s"
proof -
  note f = selection_intersect_facts [OF assms(1,2)]
  let ?cs = "map2 (!) (dim_selects s) (digits_of (dim_select_sizes s) k)"
  have v: "list_all2 (<) (digits_of (dim_select_sizes s) k) (dim_select_sizes s)"
    using digits_of_valid [OF assms(3)] by simp
  have "list_all2 (<) ?cs (dim_sizes s)"
    using f(3,4,6) v by (auto simp: list_all2_conv_all_nth)
  from radix_val_less [OF this] show ?thesis using f by (simp add: lin_index_of_eq)
qed

interpretation sel: lin_index_iterator selection_wf selection_points selection_remaining
  Selection_init_lin_indx Selection_next_lin_indx Selection_end_lin_indx
proof
  fix s x xs
  show "selection_remaining (Selection_init_lin_indx s) (selection_points s)" if wf: "selection_wf s"
  proof (cases "sel_mode s = ALL_MODE")
    case True
    with wf obtain n where n: "sel_end s = int n - 1" "n > 0 \<longrightarrow> max_index s = n - 1"
      by (auto simp: selection_wf_def)
    with True wf show ?thesis
      by (auto simp: selection_remaining_def Selection_init_lin_indx_def selection_points_def selection_wf_def)
  next
    case False
    note f = selection_intersect_facts [OF wf False]
    let ?s = "Selection_init_lin_indx s"
    have s: "?s = s \<lparr> counter := SelectCounter_reset (sel_mode s) (dim_select_sizes s) (counter s) \<rparr>"
      using False by (simp add: Selection_init_lin_indx_def)
    have "digits_of (dim_select_sizes s) 0 = replicate (length (dim_select_sizes s)) 0"
      using digits_of_radix_val [of "replicate (length (dim_select_sizes s)) 0" "dim_select_sizes s"] f(4,5)
      by (simp add: list_all2_conv_all_nth)
    moreover have "lin_index_of ?s = lin_index_of s" by (simp add: s lin_index_of_def fun_eq_iff)
    moreover have "selection_wf ?s" using wf by (simp add: s selection_wf_def)
    ultimately show ?thesis
      using intersect_points [OF wf False] False f(1,8)
      by (auto simp: selection_remaining_def s SelectCounter_reset_def intro!: exI [of _ "0 :: nat"])
  qed
  show "Selection_end_lin_indx s" if "selection_remaining s []"
    using that by (auto simp: selection_remaining_def Selection_end_lin_indx_def SelectCounter_finished_def
        eq_commute [of "[]"] split: if_splits)
  show "\<not> Selection_end_lin_indx s" if "selection_remaining s (x # xs)"
  proof (cases "sel_mode s = ALL_MODE")
    case True
    with that obtain k n where "sel_end s = int n - 1" "sel_index s = int k" "x # xs = [k..<n]"
      by (auto simp: selection_remaining_def)
    moreover from this have "k < n" by (metis list.distinct(1) not_less upt_conv_Nil)
    ultimately show ?thesis using True by (simp add: Selection_end_lin_indx_def)
  next
    case False
    then show ?thesis using that
      by (auto simp: selection_remaining_def Selection_end_lin_indx_def SelectCounter_finished_def split: if_splits)
  qed
  show "\<exists>s'. Selection_next_lin_indx s = Inr (x, s') \<and> selection_remaining s' xs" if rem: "selection_remaining s (x # xs)"
  proof (cases "sel_mode s = ALL_MODE")
    case True
    with rem obtain k n where n: "sel_end s = int n - 1" "sel_index s = int k" "x # xs = [k..<n]" and wf: "selection_wf s"
      by (auto simp: selection_remaining_def)
    from n(3) have k: "k < n" by (metis list.distinct(1) not_less upt_conv_Nil)
    with n(3) have x: "x = k" "xs = [Suc k..<n]" by (simp_all add: upt_conv_Cons)
    have "max_index s = n - 1" using wf True n(1) k by (auto simp: selection_wf_def)
    then have "Selection_next_lin_indx s = Inr (x, s \<lparr> sel_index := int (Suc k) \<rparr>)"
      using True n k x by (simp add: Selection_next_lin_indx_def add.commute)
    moreover have "selection_wf (s \<lparr> sel_index := int (Suc k) \<rparr>)" using wf by (simp add: selection_wf_def)
    moreover have "\<exists>k' n'. sel_end s = int n' - 1 \<and> int (Suc k) = int k' \<and> k' \<le> n' \<and> xs = [k'..<n']"
      using n(1) k x(2) by (intro exI [of _ "Suc k"] exI [of _ n]) simp
    ultimately have "selection_remaining (s \<lparr> sel_index := int (Suc k) \<rparr>) xs"
      using True by (simp add: selection_remaining_def)
    with \<open>Selection_next_lin_indx s = Inr (x, s \<lparr> sel_index := int (Suc k) \<rparr>)\<close> show ?thesis by blast
  next
    case False
    let ?ss = "dim_select_sizes s"
    from rem False have wf: "selection_wf s" and c: "counter_mode (counter s) = INTERSECT" "digit_sizes (counter s) = ?ss"
        "ndigits (counter s) = length ?ss" "\<not> counter_end (counter s)"
      by (auto simp: selection_remaining_def split: if_splits)
    from rem False c obtain k where k: "k < prod_list ?ss" "digits (counter s) = digits_of ?ss k"
        "x # xs = map (\<lambda>k. lin_index_of s (digits_of ?ss k)) [k..<prod_list ?ss]"
      by (auto simp: selection_remaining_def)
    note f = selection_intersect_facts [OF wf False]
    have x: "x = lin_index_of s (digits_of ?ss k)" "xs = map (\<lambda>k. lin_index_of s (digits_of ?ss k)) [Suc k..<prod_list ?ss]"
      using k(1,3) by (simp_all add: upt_conv_Cons)
    let ?s' = "s \<lparr> counter := SelectCounter_inc (counter s) \<rparr>"
    have ss: "?ss \<noteq> []" "\<forall>n \<in> set ?ss. 0 < n" using f(2,4,5) by auto
    have mode: "counter_mode (counter s) \<noteq> POINT" using c(1) by simp
    note inc = SelectCounter_inc_ok [OF mode c(2,3) ss k(2,1) c(4)]
    have lin: "lin_index_of ?s' = lin_index_of s" by (simp add: lin_index_of_def fun_eq_iff)
    have "selection_remaining ?s' xs"
    proof (cases "Suc k = prod_list ?ss")
      case True
      then show ?thesis using inc wf False c x(2) by (auto simp: selection_remaining_def selection_wf_def)
    next
      case notlast: False
      then have "Suc k < prod_list ?ss" using k(1) by simp
      with inc wf False c x(2) notlast show ?thesis
        by (auto simp: selection_remaining_def selection_wf_def lin intro!: exI [of _ "Suc k"])
    qed
    moreover have "Selection_next_lin_indx s = Inr (x, ?s')"
      using False lin_index_in_bounds [OF wf False k(1)] x(1) k(2)
      by (simp add: Selection_next_lin_indx_def SelectCounter_count_def)
    ultimately show ?thesis by blast
  qed
qed

lemma lin_indices_remaining:
  "selection_remaining s xs \<Longrightarrow> length xs \<le> fuel \<Longrightarrow> lin_indices fuel s = Some (Inr xs)"
proof (induction fuel arbitrary: s xs)
  case 0
  then show ?case using sel.remaining_Nil by simp
next
  case (Suc fuel)
  show ?case
  proof (cases xs)
    case Nil
    then show ?thesis using Suc.prems sel.remaining_Nil by simp
  next
    case (Cons x ys)
    from sel.remaining_next [OF Suc.prems(1) [unfolded Cons]] obtain s' where
      s': "Selection_next_lin_indx s = Inr (x, s')" "selection_remaining s' ys" by blast
    then have "lin_indices fuel s' = Some (Inr ys)" using Suc.prems(2) Cons by (intro Suc.IH) auto
    then show ?thesis using s'(1) sel.remaining_Cons [OF Suc.prems(1) [unfolded Cons]] Cons by simp
  qed
qed

section \<open>Construction of selections\<close>

lemma Selection_fields:
  "sel_mode (Selection mode selects sizes) = mode" "dim_selects (Selection mode selects sizes) = selects"
  "dim_sizes (Selection mode selects sizes) = sizes"
  "dim_select_sizes (Selection mode selects sizes) = map length selects"
  "mode = INTERSECT \<Longrightarrow> npoints (Selection mode selects sizes) = prod_list (map length selects)"
  "length sizes = length selects \<Longrightarrow> 0 < prod_list sizes \<Longrightarrow> prod_list sizes \<le> 2 ^ 64 \<Longrightarrow>
     max_index (Selection mode selects sizes) = prod_list sizes - 1"
proof -
  let ?step = "\<lambda>i (ss, np, mx). (ss @ [length (selects ! i)],
             if i = 0 \<or> mode = INTERSECT then np * length (selects ! i) else np, mx * sizes ! i)"
  have run: "\<exists>np. fold ?step [0..<k] ([], 1, 1) = (map length (take k selects), np, prod_list (take k sizes))
      \<and> (mode = INTERSECT \<longrightarrow> np = prod_list (map length (take k selects)))"
    if "k \<le> length selects" "length sizes = length selects" for k
    using that
  proof (induction k)
    case 0
    then show ?case by simp
  next
    case (Suc k)
    then obtain np where "fold ?step [0..<k] ([], 1, 1) = (map length (take k selects), np, prod_list (take k sizes))"
      "mode = INTERSECT \<longrightarrow> np = prod_list (map length (take k selects))" by auto
    with Suc.prems show ?case by (simp add: take_Suc_conv_app_nth)
  qed
  have ss: "fst (fold ?step [0..<k] ([], 1, 1)) = map length (take k selects)" if "k \<le> length selects" for k
    using that by (induction k) (auto simp: take_Suc_conv_app_nth split_def)
  have np: "mode = INTERSECT \<Longrightarrow> fst (snd (fold ?step [0..<k] ([], 1, 1))) = prod_list (map length (take k selects))"
    if "k \<le> length selects" for k
    using that by (induction k) (auto simp: take_Suc_conv_app_nth split_def)
  show "sel_mode (Selection mode selects sizes) = mode" "dim_selects (Selection mode selects sizes) = selects"
    "dim_sizes (Selection mode selects sizes) = sizes"
    by (simp_all add: Selection_def Let_def split_def)
  show "dim_select_sizes (Selection mode selects sizes) = map length selects"
    using ss [of "length selects"] by (simp add: Selection_def Let_def split_def)
  show "npoints (Selection mode selects sizes) = prod_list (map length selects)" if "mode = INTERSECT"
    using np [of "length selects"] that by (simp add: Selection_def Let_def split_def)
  show "max_index (Selection mode selects sizes) = prod_list sizes - 1"
    if len: "length sizes = length selects" and pos: "0 < prod_list sizes" "prod_list sizes \<le> 2 ^ 64"
  proof -
    have "snd (snd (fold ?step [0..<length selects] ([], 1, 1))) = prod_list sizes"
      using run [of "length selects"] len by auto
    then have "max_index (Selection mode selects sizes) = (prod_list sizes + (2 ^ 64 - 1)) mod 2 ^ 64"
      by (simp add: Selection_def Let_def split_def)
    also have "prod_list sizes + (2 ^ 64 - 1) = 2 ^ 64 + (prod_list sizes - 1)" using pos(1) by simp
    also have "(2 ^ 64 + (prod_list sizes - 1)) mod 2 ^ 64 = prod_list sizes - 1"
    proof -
      have "prod_list sizes - 1 < 2 ^ 64" using pos by linarith
      then show ?thesis by (simp only: mod_add_self1 mod_less)
    qed
    finally show ?thesis .
  qed
qed

text \<open>An \<open>INTERSECT\<close> selection is well formed if the index lists are non-empty and in range.\<close>

lemma Selection_intersect_wf:
  assumes "selects \<noteq> []" "\<forall>xs \<in> set selects. xs \<noteq> []" "list_all2 (\<lambda>xs n. \<forall>x \<in> set xs. x < n) selects sizes"
    "prod_list sizes \<le> 2 ^ 64"
  shows "selection_wf (Selection INTERSECT selects sizes)"
proof -
  have len: "length sizes = length selects" using assms(3) by (simp add: list_all2_lengthD)
  have "0 < n" if "n \<in> set sizes" for n
  proof -
    from that obtain i where i: "i < length sizes" "sizes ! i = n" by (auto simp: in_set_conv_nth)
    then have "selects ! i \<noteq> []" "\<forall>x \<in> set (selects ! i). x < n"
      using assms(2,3) len by (auto simp: list_all2_conv_all_nth)
    then show ?thesis by (cases "selects ! i") auto
  qed
  then have "0 < prod_list sizes" by (rule prod_list_pos)
  with assms len show ?thesis by (simp add: selection_wf_def Selection_fields)
qed

lemma Selection_all_wf:
  "Selection_all 0 n = Inr s \<Longrightarrow> selection_wf s \<and> selection_points s = [0..<n] \<and> npoints s = n"
  by (auto simp: Selection_all_def selection_wf_def selection_points_def split: if_splits)
     (auto simp: nat_int_add mod_if)

subsection \<open>From user selections\<close>

datatype SelectionState = SELECT_ALL | SELECT_NONE

record SingleSelection =
  slab_start :: "nat list"
  slab_count :: "nat list"
  slab_stride :: "nat list"
  slab_block :: "nat list"
  sel_points :: "nat list list"
  dimension :: nat
  dimension_indices_starts :: "nat list"
  dimension_indices_counts :: "nat list"

definition genDimSelects_slab ::
    "nat list \<Rightarrow> nat list \<Rightarrow> nat list \<Rightarrow> nat list \<Rightarrow> nat list list" where
  "genDimSelects_slab start count stride block =
     map (\<lambda>idim.
         let dim_stride = (if stride \<noteq> [] then stride ! idim else 1);
             dim_block = (if block \<noteq> [] then block ! idim else 1)
         in concat (map (\<lambda>i. map (\<lambda>j. start ! idim + i * dim_stride + j) [0..<dim_block]) [0..<count ! idim]))
       [0..<length start]"

definition genDimSelects_points :: "nat list list \<Rightarrow> nat list list" where
  "genDimSelects_points points =
     map (\<lambda>idim. map (\<lambda>ipnt. points ! ipnt ! idim) [0..<length points]) [0..<length (points ! 0)]"

text \<open>The indices of one action, as the ordered \<open>std::set\<close> lists them.\<close>

definition action_indices :: "SingleSelection \<Rightarrow> nat list" where
  "action_indices a =
     (let starts = dimension_indices_starts a; counts = dimension_indices_counts a
      in sort (remdups (concat (map (\<lambda>i.
           if counts \<noteq> [] then map (\<lambda>j. starts ! i + j) [0..<length counts] else [starts ! i]) [0..<length starts]))))"

definition genDimSelects_actions :: "SingleSelection list \<Rightarrow> nat list \<Rightarrow> nat list list" where
  "genDimSelects_actions actions sizes =
     (let selects = fold (\<lambda>a selects. selects[dimension a := action_indices a]) actions (replicate (length sizes) [])
      in map (\<lambda>idim. if selects ! idim = [] then [0..<sizes ! idim] else selects ! idim) [0..<length selects])"

definition createObsStoreSelection ::
    "SelectionState \<Rightarrow> SingleSelection list \<Rightarrow> nat list \<Rightarrow> selection result" where
  "createObsStoreSelection dflt actions sizes =
     (if dflt = SELECT_ALL \<and> actions = [] then Selection_all 0 (fold (\<lambda>n np. np * n) sizes 1)
      else let first_action = hd actions
           in if slab_start first_action \<noteq> []
              then Inr (Selection INTERSECT (genDimSelects_slab (slab_start first_action) (slab_count first_action)
                     (slab_stride first_action) (slab_block first_action)) sizes)
              else if sel_points first_action \<noteq> []
              then Inr (Selection POINT (genDimSelects_points (sel_points first_action)) sizes)
              else if dimension_indices_starts first_action \<noteq> []
              then Inr (Selection INTERSECT (genDimSelects_actions actions sizes) sizes)
              else Inl (Exception ''Unrecongnized selection mode''))"

lemma product_lists_in_range:
  "list_all2 (\<lambda>xs n. \<forall>x \<in> set xs. x < n) xss sizes \<Longrightarrow> cs \<in> set (product_lists xss) \<Longrightarrow> list_all2 (<) cs sizes"
proof (induction xss sizes arbitrary: cs rule: list_all2_induct)
  case Nil
  then show ?case by simp
next
  case (Cons xs n xss sizes)
  then show ?case by auto
qed

lemma selection_points_distinct:
  assumes "selection_wf s" "\<forall>xs \<in> set (dim_selects s). distinct xs"
  shows "distinct (selection_points s)"
proof (cases "sel_mode s = ALL_MODE")
  case False
  note f = selection_intersect_facts [OF assms(1) False]
  have "inj_on (\<lambda>cs. radix_val cs (dim_sizes s)) (set (product_lists (dim_selects s)))"
    using product_lists_in_range [OF f(6)] digits_of_radix_val by (intro inj_onI) metis
  then show ?thesis
    using False assms(2) by (simp add: selection_points_def distinct_map distinct_product_lists)
qed (simp add: selection_points_def)

lemma selection_points_bound:
  assumes "selection_wf s" "x \<in> set (selection_points s)"
  shows "x \<le> max_index s"
proof (cases "sel_mode s = ALL_MODE")
  case True
  then show ?thesis using assms by (auto simp: selection_wf_def selection_points_def)
next
  case False
  note f = selection_intersect_facts [OF assms(1) False]
  from assms(2) False obtain cs where "cs \<in> set (product_lists (dim_selects s))" "x = radix_val cs (dim_sizes s)"
    by (auto simp: selection_points_def)
  then have "x < prod_list (dim_sizes s)" using product_lists_in_range [OF f(6)] radix_val_less by blast
  then show ?thesis using f(7) by simp
qed

lemma length_selection_points:
  assumes "selection_wf s"
  shows "length (selection_points s) =
    (if sel_mode s = ALL_MODE then nat (sel_end s + 1) else prod_list (dim_select_sizes s))"
  using assms selection_intersect_facts [OF assms]
  by (auto simp: selection_points_def length_product_lists prod_list.eq_foldr foldr_map comp_def)

text \<open>A hyperslab that fits into the dimensions.\<close>

definition slab_fits :: "nat list \<Rightarrow> nat list \<Rightarrow> nat list \<Rightarrow> nat list \<Rightarrow> nat list \<Rightarrow> bool" where
  "slab_fits start count stride block sizes \<longleftrightarrow>
     start \<noteq> [] \<and> length count = length start \<and> length stride = length start \<and> length block = length start \<and>
     length sizes = length start \<and>
     (\<forall>i < length start. 0 < count ! i \<and> 0 < block ! i \<and> block ! i \<le> stride ! i \<and>
        start ! i + (count ! i - 1) * stride ! i + block ! i \<le> sizes ! i)"

lemma slab_indices:
  assumes "slab_fits start count stride block sizes" "i < length start"
  shows "genDimSelects_slab start count stride block ! i \<noteq> []"
    and "x \<in> set (genDimSelects_slab start count stride block ! i) \<Longrightarrow> x < sizes ! i"
    and "distinct (genDimSelects_slab start count stride block ! i)"
proof -
  let ?b = "block ! i" and ?c = "count ! i" and ?s = "stride ! i" and ?st = "start ! i"
  have ne: "stride \<noteq> []" "block \<noteq> []" and fit: "0 < ?c" "0 < ?b" "?b \<le> ?s" "?st + (?c - 1) * ?s + ?b \<le> sizes ! i"
    using assms by (auto simp: slab_fits_def)
  have eq: "genDimSelects_slab start count stride block ! i
      = concat (map (\<lambda>k. map (\<lambda>j. ?st + k * ?s + j) [0..<?b]) [0..<?c])"
    using assms(2) ne by (simp add: genDimSelects_slab_def Let_def)
  show "genDimSelects_slab start count stride block ! i \<noteq> []"
    using fit length_concat_map_upt [of "\<lambda>k j. ?st + k * ?s + j" ?b ?c] unfolding eq by (intro notI) simp
  show "x < sizes ! i" if "x \<in> set (genDimSelects_slab start count stride block ! i)"
  proof -
    from that obtain k j where kj: "k < ?c" "j < ?b" "x = ?st + k * ?s + j"
      unfolding eq in_concat_map_upt by blast
    have "k * ?s \<le> (?c - 1) * ?s" using kj(1) by (intro mult_le_mono1) linarith
    then have "x < ?st + (?c - 1) * ?s + ?b" using kj(2,3) by linarith
    also note fit(4)
    finally show ?thesis .
  qed
  have "distinct (concat (map (\<lambda>k. map (\<lambda>j. ?st + k * ?s + j) [0..<?b]) [0..<?c]))"
  proof (rule distinct_concat_map_upt)
    show "distinct (map (\<lambda>j. ?st + k * ?s + j) [0..<?b])" for k by (simp add: distinct_map inj_on_def)
    fix k k' y assume "y \<in> set (map (\<lambda>j. ?st + k * ?s + j) [0..<?b])" "y \<in> set (map (\<lambda>j. ?st + k' * ?s + j) [0..<?b])"
    then obtain j j' where j: "j < ?b" "j' < ?b" "y = ?st + k * ?s + j" "y = ?st + k' * ?s + j'"
      unfolding in_map_upt by blast
    then have lt: "j < ?s" "j' < ?s" and eq': "k * ?s + j = k' * ?s + j'" using fit(3) by linarith+
    have "k = (k * ?s + j) div ?s" using lt(1) by simp
    also have "\<dots> = k'" unfolding eq' using lt(2) by simp
    finally show "k = k'" .
  qed
  then show "distinct (genDimSelects_slab start count stride block ! i)" by (simp add: eq)
qed

section \<open>Properties\<close>

text \<open>C6. An \<open>INTERSECT\<close> selection delivers, in the order of nested loops, the row-major address of every
  combination of the selected indices, and then ends: \<open>npoints()\<close> steps are enough, no exception is thrown.\<close>

theorem Selection_intersect_enumerates:
  assumes "selects \<noteq> []" "\<forall>xs \<in> set selects. xs \<noteq> []" "list_all2 (\<lambda>xs n. \<forall>x \<in> set xs. x < n) selects sizes"
    "prod_list sizes \<le> 2 ^ 64"
  defines "s \<equiv> Selection INTERSECT selects sizes"
  shows "lin_indices (npoints s) (Selection_init_lin_indx s)
    = Some (Inr (map (\<lambda>coords. radix_val coords sizes) (product_lists selects)))"
proof -
  have wf: "selection_wf s" unfolding s_def by (rule Selection_intersect_wf [OF assms(1-4)])
  have "length (selection_points s) = npoints s"
    using length_selection_points [OF wf] by (simp add: s_def Selection_fields)
  then have "lin_indices (npoints s) (Selection_init_lin_indx s) = Some (Inr (selection_points s))"
    using sel.init_remaining [OF wf] by (intro lin_indices_remaining) auto
  then show ?thesis by (simp add: selection_points_def s_def Selection_fields)
qed

theorem Selection_intersect_enumerates_witness:
  "lin_indices 6 (Selection_init_lin_indx (Selection INTERSECT [[1, 7, 8], [2, 4]] [9, 5])) = Some (Inr [7, 9, 37, 39, 42, 44])"
proof -
  have "npoints (Selection INTERSECT [[1, 7, 8], [2, 4]] [9, 5]) = 6" by (simp add: Selection_fields)
  with Selection_intersect_enumerates [of "[[1, 7, 8], [2, 4]]" "[9, 5]"] show ?thesis by simp
qed



text \<open>A hyperslab (start, count, stride, block) that fits into the dimensions selects distinct addresses,
  all of them inside the array, as many as the product over the dimensions of count times block.\<close>

lemma Selection_hyperslab:
  assumes "slab_fits start count stride block sizes" "prod_list sizes \<le> 2 ^ 64"
  defines "s \<equiv> Selection INTERSECT (genDimSelects_slab start count stride block) sizes"
  shows "lin_indices (npoints s) (Selection_init_lin_indx s) = Some (Inr (selection_points s))
    \<and> distinct (selection_points s) \<and> (\<forall>x \<in> set (selection_points s). x < prod_list sizes)
    \<and> length (selection_points s) = prod_list (map2 (*) count block)"
proof -
  let ?sel = "genDimSelects_slab start count stride block"
  have len: "length ?sel = length start" by (simp add: genDimSelects_slab_def)
  have fit: "start \<noteq> []" "length sizes = length start" "length count = length start" "length block = length start" "length stride = length start"
    using assms(1) by (simp_all add: slab_fits_def)
  have all_sel: "(\<forall>xs \<in> set ?sel. P xs) \<longleftrightarrow> (\<forall>i < length start. P (?sel ! i))" for P
    by (simp add: all_set_conv_all_nth len)
  have ne: "?sel \<noteq> []" using len fit(1) by (metis list.size(3) length_0_conv)
  have "\<forall>xs \<in> set ?sel. xs \<noteq> []" unfolding all_sel by (simp add: slab_indices(1) [OF assms(1)])
  moreover have "list_all2 (\<lambda>xs n. \<forall>x \<in> set xs. x < n) ?sel sizes"
    unfolding list_all2_conv_all_nth using len fit(2) slab_indices(2) [OF assms(1)] by simp
  ultimately have wf: "selection_wf s" unfolding s_def by (intro Selection_intersect_wf ne assms(2))
  have "stride \<noteq> []" "block \<noteq> []" using fit by auto
  then have "length (?sel ! i) = count ! i * block ! i" if "i < length start" for i
    using that length_concat_map_upt [of "\<lambda>k j. start ! i + k * stride ! i + j" "block ! i" "count ! i"]
    by (simp only: genDimSelects_slab_def Let_def length_map length_upt nth_map nth_upt if_True simp_thms add_0 diff_zero)
  then have "map length ?sel = map2 (*) count block"
    using fit len by (intro nth_equalityI) simp_all
  then have n: "length (selection_points s) = prod_list (map2 (*) count block)" "npoints s = prod_list (map2 (*) count block)"
    using length_selection_points [OF wf] by (simp_all add: s_def Selection_fields)
  have "\<forall>xs \<in> set (dim_selects s). distinct xs" 
    unfolding s_def Selection_fields all_sel by (simp add: slab_indices(3) [OF assms(1)])
  then have d: "distinct (selection_points s)" by (rule selection_points_distinct [OF wf])
  have "0 < prod_list sizes"
  proof (rule prod_list_pos)
    fix m assume "m \<in> set sizes"
    then obtain i where i: "i < length start" "m = sizes ! i" using fit(2) by (auto simp: in_set_conv_nth)
    then have "0 < block ! i" "start ! i + (count ! i - 1) * stride ! i + block ! i \<le> sizes ! i"
      using assms(1) by (simp_all add: slab_fits_def)
    then show "0 < m" using i by simp
  qed
  then have "max_index s = prod_list sizes - 1" using fit(2) len assms(2) by (simp add: s_def Selection_fields)
  then have "x < prod_list sizes" if "x \<in> set (selection_points s)" for x
    using selection_points_bound [OF wf that] \<open>0 < prod_list sizes\<close> by linarith
  moreover have "lin_indices (npoints s) (Selection_init_lin_indx s) = Some (Inr (selection_points s))"
    using sel.init_remaining [OF wf] n by (intro lin_indices_remaining) auto
  ultimately show ?thesis using d n by simp
qed

text \<open>The walk of a \<open>POINT\<close> selection, from point \<open>k\<close> on.\<close>

lemma point_walk:
  assumes "sel_mode s = POINT" "dim_selects s \<noteq> []" "length (dim_sizes s) = length (dim_selects s)"
    "\<forall>xs \<in> set (dim_selects s). length (dim_selects s) \<le> length xs"
    "list_all2 (\<lambda>xs n. \<forall>x \<in> set xs. x < n) (dim_selects s) (dim_sizes s)" "max_index s = prod_list (dim_sizes s) - 1"
    "counter_mode (counter s) = POINT" "ndigits (counter s) = length (dim_selects s)"
    "digits (counter s) = replicate (length (dim_selects s)) k" "\<not> counter_end (counter s)"
    "k < length (dim_selects s)" "length (dim_selects s) - k \<le> fuel"
  shows "lin_indices fuel s =
    Some (Inr (map (\<lambda>k. radix_val (map (\<lambda>xs. xs ! k) (dim_selects s)) (dim_sizes s)) [k..<length (dim_selects s)]))"
  using assms
proof (induction fuel arbitrary: s k)
  case 0
  then show ?case by simp
next
  case (Suc fuel)
  let ?n = "length (dim_selects s)" and ?s' = "s \<lparr> counter := SelectCounter_inc (counter s) \<rparr>"
  let ?lin = "\<lambda>k. radix_val (map (\<lambda>xs. xs ! k) (dim_selects s)) (dim_sizes s)"
  have "map2 (!) (dim_selects s) (replicate ?n k) = map (\<lambda>xs. xs ! k) (dim_selects s)"
    by (rule nth_equalityI) simp_all
  then have lin: "lin_index_of s (digits (counter s)) = ?lin k"
    using Suc.prems(2,3,9) by (simp add: lin_index_of_eq)
  have "list_all2 (<) (map (\<lambda>xs. xs ! k) (dim_selects s)) (dim_sizes s)"
    unfolding list_all2_conv_all_nth
  proof (intro conjI allI impI)
    show "length (map (\<lambda>xs. xs ! k) (dim_selects s)) = length (dim_sizes s)" using Suc.prems(3) by simp
    fix i assume "i < length (map (\<lambda>xs. xs ! k) (dim_selects s))"
    then have i: "i < ?n" by simp
    then have "k < length (dim_selects s ! i)" using Suc.prems(4,11) by (meson less_le_trans nth_mem)
    then have "dim_selects s ! i ! k \<in> set (dim_selects s ! i)" by simp
    moreover have "\<forall>x \<in> set (dim_selects s ! i). x < dim_sizes s ! i"
      using list_all2_nthD [OF Suc.prems(5) i] .
    ultimately show "map (\<lambda>xs. xs ! k) (dim_selects s) ! i < dim_sizes s ! i" using i by simp
  qed
  from radix_val_less [OF this] have le: "?lin k \<le> max_index s" using Suc.prems(6) by simp
  have nxt: "Selection_next_lin_indx s = Inr (?lin k, ?s')"
    using Suc.prems(1) lin le by (simp add: Selection_next_lin_indx_def SelectCounter_count_def)
  have not_end: "\<not> Selection_end_lin_indx s"
    using Suc.prems(1,10) by (simp add: Selection_end_lin_indx_def SelectCounter_finished_def)
  have d0: "digits (counter s) ! 0 = k" using Suc.prems(2,9) by simp
  show ?case
  proof (cases "k = ?n - 1")
    case True
    then have "Selection_end_lin_indx ?s'"
      using Suc.prems(1,7,8) d0 by (simp add: Selection_end_lin_indx_def SelectCounter_finished_def SelectCounter_inc_def)
    then have "lin_indices fuel ?s' = Some (Inr [])" by (cases fuel) simp_all
    moreover have "[k..<?n] = [k]" using True Suc.prems(11) by (simp add: upt_rec)
    ultimately show ?thesis using nxt not_end by simp
  next
    case False
    have c: "SelectCounter_inc (counter s) = counter s \<lparr> digits := replicate ?n (Suc k) \<rparr>"
      using False Suc.prems(7-9) d0 by (simp add: SelectCounter_inc_def)
    have "lin_indices fuel ?s' = Some (Inr (map (\<lambda>k. radix_val (map (\<lambda>xs. xs ! k) (dim_selects ?s')) (dim_sizes ?s')) [Suc k..<length (dim_selects ?s')]))"
      by (rule Suc.IH) (use Suc.prems c False in simp_all)
    moreover have "[k..<?n] = k # [Suc k..<?n]" using Suc.prems(11) by (simp add: upt_conv_Cons)
    ultimately show ?thesis using nxt not_end by simp
  qed
qed



text \<open>The counts of a selection by dimension indices are not used: each start is extended by the number of
  counts instead of by its own count.\<close>

lemma genDimSelects_ignores_counts:
  assumes "length (dimension_indices_counts a) = length (dimension_indices_counts b)"
    "dimension_indices_starts a = dimension_indices_starts b"
  shows "action_indices a = action_indices b"
  using assms by (cases "dimension_indices_counts a"; cases "dimension_indices_counts b") (auto simp: action_indices_def Let_def)

end
