(* ===== verification/Ioda_Store.thy ===== *)
theory Ioda_Store
  imports Ioda_Selection Ioda_Std
begin

text \<open>
  Typed storage of the in-memory engine: \<open>Type\<close>, \<open>VarAttrStore\<close>, \<open>Attribute\<close> and \<open>Has_Attributes\<close>,
  \<open>Variable\<close>, and the transfer functions of the frontend backends (\<open>ObsStore_Variable_Backend\<close>).

  A buffer of bytes is a list of elements of the storage type: the byte-wise copies of the code move
  whole elements. The two selections of a transfer advance together; the loop has the fuel
  \<open>npoints + rank\<close>, which suffices for every selection that the code can build from non-empty index
  lists (\<open>transfer_loop_copies\<close>); \<open>OutOfFuel\<close> is not a result of the code.
\<close>

section \<open>Types\<close>

datatype ObsTypes = NOTYPE | FLOAT | DOUBLE | LDOUBLE | SCHAR | SHORT | INT_TYPE | LONG | LLONG
  | UCHAR | UINT | USHORT | ULONG | ULLONG | CHAR_TYPE | WCHAR | CHAR16 | CHAR32 | ARRAY | STRING

datatype ObsTypeClasses = NOCLASS | INTEGER_CLASS | FLOAT_CLASS | STRING_CLASS | BITFIELD | OPAQUE | COMPOUND
  | REFERENCE | ENUM | VLEN_ARRAY | FIXED_ARRAY

datatype obs_type = Type (ty_dims: "nat list") (ty_type: ObsTypes) (ty_class: ObsTypeClasses)
  (ty_base: "obs_type option") (ty_size: nat) (ty_num_elements: nat) (ty_signed: bool)

definition Type_fundamental :: "ObsTypes \<Rightarrow> ObsTypeClasses \<Rightarrow> nat \<Rightarrow> bool \<Rightarrow> obs_type" where
  "Type_fundamental dataType typeClass typeSize isTypeSigned = Type [] dataType typeClass None typeSize 1 isTypeSigned"

definition Type_array :: "nat list \<Rightarrow> ObsTypes \<Rightarrow> ObsTypeClasses \<Rightarrow> obs_type \<Rightarrow> obs_type" where
  "Type_array dims dataType typeClass baseType =
     (let n = fold (*) dims 1
      in Type dims dataType typeClass (Some baseType) (ty_size baseType * n) n (ty_signed baseType))"

fun Type_eq :: "obs_type \<Rightarrow> obs_type \<Rightarrow> bool" where
  "Type_eq (Type dims t c base sz n sg) (Type dims' t' c' base' sz' n' sg') \<longleftrightarrow>
     t = t' \<and> sz = sz' \<and> c = c' \<and> n = n' \<and> sg = sg' \<and> length dims = length dims' \<and>
     list_all (\<lambda>i. dims ! i = dims' ! i) [0..<length dims] \<and>
     (case base of
        Some b \<Rightarrow> (case base' of Some b' \<Rightarrow> Type_eq b b' | None \<Rightarrow> False)
      | None \<Rightarrow> base' = None)"

lemma Type_eq_iff: "Type_eq a b \<longleftrightarrow> a = b"
proof (induction a b rule: Type_eq.induct)
  case (1 dims t c base sz n sg dims' t' c' base' sz' n' sg')
  have "length dims = length dims' \<and> list_all (\<lambda>i. dims ! i = dims' ! i) [0..<length dims] \<longleftrightarrow> dims = dims'"
    by (auto simp: list_all_iff intro: nth_equalityI)
  with 1 show ?case by (auto split: option.splits)
qed

section \<open>VarAttrStore\<close>

datatype scalar = Integral int | Floating real | Text string

record var_attr_store =
  store_type :: ObsTypes
  var_attr_data :: "scalar list"
  num_elements :: nat

text \<open>The value-initialised element of the storage type, for \<open>std::vector::resize\<close>.\<close>

definition default_value :: "ObsTypes \<Rightarrow> scalar" where
  "default_value t =
     (if t = STRING then Text '''' else if t = FLOAT \<or> t = DOUBLE \<or> t = LDOUBLE then Floating 0 else Integral 0)"

definition createVarAttrStore :: "obs_type \<Rightarrow> var_attr_store result" where
  "createVarAttrStore dtype =
     (let baseType = (if ty_type dtype = ARRAY then ty_type (the (ty_base dtype)) else ty_type dtype)
      in if baseType = NOTYPE \<or> baseType = ARRAY then Inl (Exception ''Unrecognized data type'')
         else Inr \<lparr> store_type = baseType, var_attr_data = [], num_elements = ty_num_elements dtype \<rparr>)"

definition VarAttrStore_resize :: "nat \<Rightarrow> var_attr_store \<Rightarrow> var_attr_store" where
  "VarAttrStore_resize newSize st =
     st \<lparr> var_attr_data := vec_resize (newSize * num_elements st) (default_value (store_type st)) (var_attr_data st) \<rparr>"

definition VarAttrStore_resize_fill :: "nat \<Rightarrow> scalar list \<Rightarrow> var_attr_store \<Rightarrow> var_attr_store" where
  "VarAttrStore_resize_fill newSize fillValue st =
     st \<lparr> var_attr_data := vec_resize (newSize * num_elements st) (fillValue ! 0) (var_attr_data st) \<rparr>"

text \<open>The \<open>while\<close> loop that \<open>write\<close> and \<open>read\<close> share, with the copy of one datum as its body.\<close>

fun transfer_loop :: "nat \<Rightarrow> (nat \<Rightarrow> nat \<Rightarrow> 'a \<Rightarrow> 'a) \<Rightarrow> selection \<Rightarrow> selection \<Rightarrow> 'a \<Rightarrow> 'a result" where
  "transfer_loop 0 copy m f acc = (if Selection_end_lin_indx m then Inr acc else Inl OutOfFuel)"
| "transfer_loop (Suc fuel) copy m f acc =
     (if Selection_end_lin_indx m then Inr acc
      else bind_result (Selection_next_lin_indx m) (\<lambda>(m_indx, m).
           bind_result (Selection_next_lin_indx f) (\<lambda>(f_indx, f).
             transfer_loop fuel copy m f (copy m_indx f_indx acc))))"

definition transfer_fuel :: "selection \<Rightarrow> nat" where
  "transfer_fuel m = npoints m + length (dim_selects m)"

text \<open>Copy of the \<open>n\<close> elements of datum \<open>s\<close> of \<open>src\<close> to datum \<open>d\<close> of \<open>dst\<close>.\<close>

definition copy_datum :: "nat \<Rightarrow> scalar list \<Rightarrow> nat \<Rightarrow> nat \<Rightarrow> scalar list \<Rightarrow> scalar list" where
  "copy_datum n src s d dst = fold (\<lambda>i dst. dst[d * n + i := src ! (s * n + i)]) [0..<n] dst"

definition VarAttrStore_write ::
    "scalar list \<Rightarrow> selection \<Rightarrow> selection \<Rightarrow> var_attr_store \<Rightarrow> var_attr_store result" where
  "VarAttrStore_write data m_select f_select st =
     (if length data > 0
      then bind_result (transfer_loop (transfer_fuel m_select)
               (\<lambda>m_indx f_indx. copy_datum (num_elements st) data m_indx f_indx)
               (Selection_init_lin_indx m_select) (Selection_init_lin_indx f_select) (var_attr_data st))
             (\<lambda>xs. Inr (st \<lparr> var_attr_data := xs \<rparr>))
      else Inr st)"

definition VarAttrStore_read ::
    "scalar list \<Rightarrow> selection \<Rightarrow> selection \<Rightarrow> var_attr_store \<Rightarrow> scalar list result" where
  "VarAttrStore_read data m_select f_select st =
     (if length data > 0
      then transfer_loop (transfer_fuel m_select)
             (\<lambda>m_indx f_indx. copy_datum (num_elements st) (var_attr_data st) f_indx m_indx)
             (Selection_init_lin_indx m_select) (Selection_init_lin_indx f_select) data
      else Inr data)"

subsection \<open>What a transfer copies\<close>

lemma transfer_loop_copies:
  assumes "selection_remaining m ms" "selection_remaining f fs" "length ms \<le> length fs" "length ms \<le> fuel"
  shows "transfer_loop fuel copy m f acc = Inr (fold (\<lambda>(s, d). copy s d) (zip ms fs) acc)"
  using assms
proof (induction ms arbitrary: m f fs fuel acc)
  case Nil
  then show ?case using sel.remaining_Nil by (cases fuel) auto
next
  case (Cons x ms)
  then obtain y fs' fuel' where eq: "fs = y # fs'" "fuel = Suc fuel'"
    by (cases fs; cases fuel) auto
  from sel.remaining_next [OF Cons.prems(1)] obtain m' where
    m': "Selection_next_lin_indx m = Inr (x, m')" "selection_remaining m' ms" by blast
  from sel.remaining_next [OF Cons.prems(2) [unfolded eq]] obtain f' where
    f': "Selection_next_lin_indx f = Inr (y, f')" "selection_remaining f' fs'" by blast
  have "transfer_loop fuel' copy m' f' (copy x y acc) = Inr (fold (\<lambda>(s, d). copy s d) (zip ms fs') (copy x y acc))"
    using Cons.prems eq by (intro Cons.IH m' f') auto
  then show ?case using m'(1) f'(1) eq sel.remaining_Cons [OF Cons.prems(1)] by simp
qed

text \<open>The addresses of the elements of a list of data.\<close>

definition datum_indices :: "nat \<Rightarrow> nat list \<Rightarrow> nat list" where
  "datum_indices n is = concat (map (\<lambda>i. map (\<lambda>j. i * n + j) [0..<n]) is)"

lemma datum_indices_simps [simp]:
  "datum_indices n [] = []"
  "datum_indices n (i # is) = map (\<lambda>j. i * n + j) [0..<n] @ datum_indices n is"
  by (simp_all add: datum_indices_def)

lemma length_datum_indices [simp]: "length (datum_indices n is) = n * length is"
  by (induction "is") simp_all

lemma in_datum_block: "x \<in> set (map (\<lambda>j. i * n + j) [0..<n]) \<longleftrightarrow> n > 0 \<and> x div n = i"
  unfolding in_map_upt by (auto intro: exI [of _ "x mod n"])

lemma in_datum_indices: "x \<in> set (datum_indices n is) \<longleftrightarrow> n > 0 \<and> x div n \<in> set is"
  by (induction "is") (auto simp del: set_map simp: in_datum_block)

lemma distinct_datum_indices: "distinct is \<Longrightarrow> distinct (datum_indices n is)"
proof (induction "is")
  case (Cons i "is")
  have "distinct (map (\<lambda>j. i * n + j) [0..<n])" by (simp add: distinct_map inj_on_def)
  moreover have "set (map (\<lambda>j. i * n + j) [0..<n]) \<inter> set (datum_indices n is) = {}"
    using Cons.prems by (auto simp del: set_map simp: in_datum_block in_datum_indices)
  ultimately show ?case using Cons by simp
qed simp

lemma datum_indices_all: "datum_indices n [0..<k] = [0..<k * n]"
proof (induction k)
  case (Suc k)
  have "[0..<Suc k * n] = [0..<k * n] @ map (\<lambda>j. k * n + j) [0..<n]"
    using upt_add_eq_append [of 0 "k * n" n] by (simp add: add.commute map_add_upt [symmetric])
  then show ?case using Suc by (simp add: datum_indices_def)
qed simp

definition scatter :: "'a list \<Rightarrow> (nat \<times> nat) list \<Rightarrow> 'a list \<Rightarrow> 'a list" where
  "scatter src ps dst = fold (\<lambda>(s, d) dst. dst[d := src ! s]) ps dst"

lemma length_scatter [simp]: "length (scatter src ps dst) = length dst"
  unfolding scatter_def by (induction ps arbitrary: dst) auto

lemma scatter_other: "j \<notin> snd ` set ps \<Longrightarrow> scatter src ps dst ! j = dst ! j"
  unfolding scatter_def by (induction ps arbitrary: dst) (auto simp: nth_list_update)

lemma scatter_at:
  "distinct (map snd ps) \<Longrightarrow> (s, d) \<in> set ps \<Longrightarrow> d < length dst \<Longrightarrow> scatter src ps dst ! d = src ! s"
proof (induction ps arbitrary: dst)
  case (Cons p ps)
  show ?case
  proof (cases "p = (s, d)")
    case True
    then have "d \<notin> snd ` set ps" using Cons.prems(1) by auto
    then show ?thesis using True Cons.prems(3) scatter_other [of d ps src "dst[d := src ! s]"] by (simp add: scatter_def)
  next
    case False
    then show ?thesis using Cons.IH [of "dst[snd p := src ! fst p]"] Cons.prems by (simp add: scatter_def split_def)
  qed
qed simp

lemma fold_copy_datum:
  "length ss = length ds \<Longrightarrow>
   fold (\<lambda>(s, d). copy_datum n src s d) (zip ss ds) dst = scatter src (zip (datum_indices n ss) (datum_indices n ds)) dst"
proof (induction ss ds arbitrary: dst rule: list_induct2)
  case (Cons s ss d ds)
  have "fold (\<lambda>(s, d) dst. dst[d := src ! s]) (zip (map (\<lambda>j. s * n + j) [0..<n]) (map (\<lambda>j. d * n + j) [0..<n])) dst
      = copy_datum n src s d dst"
    by (simp add: copy_datum_def zip_map_map zip_same_conv_map fold_map comp_def)
  then show ?case using Cons by (simp add: scatter_def)
qed (simp add: scatter_def)

lemma zip_swap_fold: "fold (\<lambda>(s, d). g d s) (zip xs ys) = fold (\<lambda>(s, d). g s d) (zip ys xs)"
proof (induction xs arbitrary: ys)
  case (Cons x xs)
  then show ?case by (cases ys) auto
qed simp

lemma VarAttrStore_write_scatter:
  assumes "selection_wf m" "selection_wf f" "length (selection_points m) = length (selection_points f)"
    "length (selection_points m) \<le> transfer_fuel m" "data \<noteq> []"
  shows "VarAttrStore_write data m f st = Inr (st \<lparr> var_attr_data := scatter data
    (zip (datum_indices (num_elements st) (selection_points m)) (datum_indices (num_elements st) (selection_points f)))
    (var_attr_data st) \<rparr>)"
  using assms by (simp add: VarAttrStore_write_def fold_copy_datum
      transfer_loop_copies [OF sel.init_remaining sel.init_remaining])

lemma VarAttrStore_read_scatter:
  assumes "selection_wf m" "selection_wf f" "length (selection_points m) = length (selection_points f)"
    "length (selection_points m) \<le> transfer_fuel m" "data \<noteq> []"
  shows "VarAttrStore_read data m f st = Inr (scatter (var_attr_data st)
    (zip (datum_indices (num_elements st) (selection_points f)) (datum_indices (num_elements st) (selection_points m))) data)"
  using assms by (simp add: VarAttrStore_read_def fold_copy_datum
      transfer_loop_copies [OF sel.init_remaining sel.init_remaining]
      zip_swap_fold [of "\<lambda>d s. copy_datum (num_elements st) (var_attr_data st) d s"])

lemma scatter_roundtrip:
  assumes "length ss = length ds" "distinct ss" "distinct ds" "\<forall>d \<in> set ds. d < length dst" "length buf = length data"
    "j < length data"
  shows "scatter (scatter data (zip ss ds) dst) (zip ds ss) buf ! j = (if j \<in> set ss then data ! j else buf ! j)"
proof (cases "j \<in> set ss")
  case True
  then obtain k where k: "k < length ss" "ss ! k = j" by (auto simp: in_set_conv_nth)
  then have in1: "(j, ds ! k) \<in> set (zip ss ds)" and in2: "(ds ! k, j) \<in> set (zip ds ss)" and lt: "ds ! k < length dst"
    using assms(1,4) by (auto simp: set_zip)
  have "scatter (scatter data (zip ss ds) dst) (zip ds ss) buf ! j = scatter data (zip ss ds) dst ! (ds ! k)"
    using assms in2 by (intro scatter_at) auto
  also have "\<dots> = data ! j" using assms in1 lt by (intro scatter_at) auto
  finally show ?thesis using True by simp
next
  case False
  then show ?thesis using assms(1) by (subst scatter_other) (auto dest: set_zip_rightD)
qed

section \<open>Attributes\<close>

record attribute =
  att_dimensions :: "nat list"
  att_dtype :: obs_type
  attr_data :: var_attr_store

definition Attribute :: "nat list \<Rightarrow> obs_type \<Rightarrow> attribute result" where
  "Attribute dims dtype =
     bind_result (createVarAttrStore dtype) (\<lambda>store.
       let numElements = fold (*) dims 1
       in Inr \<lparr> att_dimensions = dims, att_dtype = dtype, attr_data = VarAttrStore_resize numElements store \<rparr>)"

definition Attribute_isOfType :: "obs_type \<Rightarrow> attribute \<Rightarrow> bool" where
  "Attribute_isOfType dtype a = Type_eq dtype (att_dtype a)"

definition Attribute_write :: "scalar list \<Rightarrow> obs_type \<Rightarrow> attribute \<Rightarrow> attribute result" where
  "Attribute_write data dtype a =
     (if \<not> Type_eq dtype (att_dtype a) then Inl (Exception ''Requested data type not equal to storage datatype.'')
      else let n = fold (\<lambda>idim n. n * att_dimensions a ! idim) [0..<length (att_dimensions a)] 1
           in bind_result (Selection_all 0 n) (\<lambda>m_select.
              bind_result (Selection_all 0 n) (\<lambda>f_select.
              bind_result (VarAttrStore_write data m_select f_select (attr_data a)) (\<lambda>st.
                Inr (a \<lparr> attr_data := st \<rparr>)))))"

definition Attribute_read :: "scalar list \<Rightarrow> obs_type \<Rightarrow> attribute \<Rightarrow> scalar list result" where
  "Attribute_read data dtype a =
     (if \<not> Type_eq dtype (att_dtype a) then Inl (Exception ''Requested data type not equal to storage datatype'')
      else let n = fold (\<lambda>idim n. n * att_dimensions a ! idim) [0..<length (att_dimensions a)] 1
           in bind_result (Selection_all 0 n) (\<lambda>m_select.
              bind_result (Selection_all 0 n) (\<lambda>f_select.
                VarAttrStore_read data m_select f_select (attr_data a))))"

type_synonym has_attributes = "(string, attribute) std_map"

text \<open>\<open>create\<close> returns the new attribute; the map keeps an older one of the same name.\<close>

definition Has_Attributes_create ::
    "string \<Rightarrow> obs_type \<Rightarrow> nat list \<Rightarrow> has_attributes \<Rightarrow> (attribute \<times> has_attributes) result" where
  "Has_Attributes_create name dtype dims atts =
     bind_result (Attribute dims dtype) (\<lambda>att. Inr (att, std_insert name att atts))"

definition Has_Attributes_open :: "string \<Rightarrow> has_attributes \<Rightarrow> attribute result" where
  "Has_Attributes_open name atts =
     (case std_find atts name of None \<Rightarrow> Inl (Exception ''Attribute not found.'') | Some att \<Rightarrow> Inr att)"

definition Has_Attributes_exists :: "string \<Rightarrow> has_attributes \<Rightarrow> bool" where
  "Has_Attributes_exists name atts = (std_find atts name \<noteq> None)"

definition Has_Attributes_remove :: "string \<Rightarrow> has_attributes \<Rightarrow> has_attributes" where
  "Has_Attributes_remove name atts = std_erase name atts"

definition Has_Attributes_rename :: "string \<Rightarrow> string \<Rightarrow> has_attributes \<Rightarrow> has_attributes result" where
  "Has_Attributes_rename oldName newName atts =
     bind_result (Has_Attributes_open oldName atts) (\<lambda>att. Inr (std_insert newName att (std_erase oldName atts)))"

definition Has_Attributes_list :: "has_attributes \<Rightarrow> string list" where
  "Has_Attributes_list atts = std_keys atts"

section \<open>Variables\<close>

text \<open>A dimension scale is a pointer to a variable: an address of the heap of variables.\<close>

record var_create_params =
  fvdata_set :: bool
  fill_value :: "scalar list"

record obs_variable =
  dimensions :: "nat list"
  max_dimensions :: "int list"
  dtype :: obs_type
  var_data :: var_attr_store
  fvdata :: "scalar list option"
  dim_scales :: "nat option list"
  is_scale :: bool
  scale_name :: string
  atts :: has_attributes
  impl_atts :: has_attributes

definition Variable_resize :: "nat list \<Rightarrow> obs_variable \<Rightarrow> obs_variable result" where
  "Variable_resize new_dim_sizes v =
     (if list_ex (\<lambda>i. max_dimensions v ! i \<ge> 0 \<and> int (new_dim_sizes ! i) > max_dimensions v ! i)
           [0..<length (max_dimensions v)]
      then Inl (Exception ''new_dim_sizes exceeds max_dimensions_'')
      else let v = v \<lparr> dimensions := new_dim_sizes \<rparr>; numElements = fold (*) new_dim_sizes 1
           in if Has_Attributes_exists ''_fillValue'' (impl_atts v)
              then let fvalue = replicate (ty_num_elements (dtype v)) (default_value (store_type (var_data v)))
                   in bind_result (Has_Attributes_open ''_fillValue'' (impl_atts v)) (\<lambda>att.
                      bind_result (Attribute_read fvalue (dtype v) att) (\<lambda>fillValue.
                        Inr (v \<lparr> var_data := VarAttrStore_resize_fill numElements fillValue (var_data v) \<rparr>)))
              else Inr (v \<lparr> var_data := VarAttrStore_resize numElements (var_data v) \<rparr>))"

definition Variable :: "nat list \<Rightarrow> int list \<Rightarrow> obs_type \<Rightarrow> var_create_params \<Rightarrow> obs_variable result" where
  "Variable dims max_dims ty params =
     bind_result (createVarAttrStore ty) (\<lambda>store.
     bind_result
       (if fvdata_set params
        then bind_result (Has_Attributes_create ''_fillValue'' ty [1] []) (\<lambda>(fv, fatts).
             bind_result (Attribute_write (fill_value params) ty fv) (\<lambda>fv.
               Inr (std_assign ''_fillValue'' fv fatts)))
        else Inr []) (\<lambda>impl.
     bind_result (Variable_resize dims
         \<lparr> dimensions = dims, max_dimensions = max_dims, dtype = ty, var_data = store,
           fvdata = (if fvdata_set params then Some (fill_value params) else None), dim_scales = [], is_scale = False, scale_name = '''', atts = [], impl_atts = impl \<rparr>)
       (\<lambda>v. Inr (v \<lparr> dim_scales := replicate (length (dimensions v)) None \<rparr>))))"

definition Variable_isOfType :: "obs_type \<Rightarrow> obs_variable \<Rightarrow> bool" where
  "Variable_isOfType ty v = Type_eq ty (dtype v)"

definition Variable_attachDimensionScale :: "nat \<Rightarrow> nat \<Rightarrow> obs_variable \<Rightarrow> obs_variable" where
  "Variable_attachDimensionScale dim_number scale v = v \<lparr> dim_scales := (dim_scales v)[dim_number := Some scale] \<rparr>"

definition Variable_detachDimensionScale :: "nat \<Rightarrow> nat \<Rightarrow> obs_variable \<Rightarrow> obs_variable result" where
  "Variable_detachDimensionScale dim_number scale v =
     (if dim_scales v ! dim_number = Some scale then Inr (v \<lparr> dim_scales := (dim_scales v)[dim_number := None] \<rparr>)
      else Inl (Exception ''specified scale is not found''))"

definition Variable_setIsDimensionScale :: "string \<Rightarrow> obs_variable \<Rightarrow> obs_variable" where
  "Variable_setIsDimensionScale name v = v \<lparr> is_scale := True, scale_name := name \<rparr>"

definition Variable_isDimensionScaleAttached :: "nat \<Rightarrow> nat \<Rightarrow> obs_variable \<Rightarrow> bool" where
  "Variable_isDimensionScaleAttached dim_number scale v \<longleftrightarrow> dim_scales v ! dim_number = Some scale"

definition Variable_write ::
    "scalar list \<Rightarrow> obs_type \<Rightarrow> selection \<Rightarrow> selection \<Rightarrow> obs_variable \<Rightarrow> obs_variable result" where
  "Variable_write data ty m_select f_select v =
     (if \<not> Type_eq ty (dtype v) then Inl (Exception ''Requested data type not equal to storage datatype'')
      else bind_result (VarAttrStore_write data m_select f_select (var_data v)) (\<lambda>st. Inr (v \<lparr> var_data := st \<rparr>)))"

definition Variable_read ::
    "scalar list \<Rightarrow> obs_type \<Rightarrow> selection \<Rightarrow> selection \<Rightarrow> obs_variable \<Rightarrow> scalar list result" where
  "Variable_read data ty m_select f_select v =
     (if \<not> Type_eq ty (dtype v) then Inl (Exception ''Requested data type not equal to storage datatype.'')
      else VarAttrStore_read data m_select f_select (var_data v))"

section \<open>The backend of the frontend variable\<close>

record user_selection =
  sel_default :: SelectionState
  sel_actions :: "SingleSelection list"
  sel_extent :: "nat list"

definition mem_dim_sizes :: "user_selection \<Rightarrow> nat \<Rightarrow> nat \<Rightarrow> nat list" where
  "mem_dim_sizes s data_size dtype_size =
     (if length (sel_extent s) = 0 then [data_size div dtype_size] else sel_extent s)"

definition Backend_write ::
    "scalar list \<Rightarrow> obs_type \<Rightarrow> user_selection \<Rightarrow> user_selection \<Rightarrow> obs_variable \<Rightarrow> obs_variable result" where
  "Backend_write data ty mem_selection file_selection v =
     bind_result (createObsStoreSelection (sel_default mem_selection) (sel_actions mem_selection)
         (mem_dim_sizes mem_selection (length data) (ty_num_elements ty))) (\<lambda>m_select.
     bind_result (createObsStoreSelection (sel_default file_selection) (sel_actions file_selection) (dimensions v)) (\<lambda>f_select.
       if npoints m_select > npoints f_select
       then Inl (Exception ''Number of points from memory is greater than that of file'')
       else Variable_write data ty m_select f_select v))"

definition Backend_read ::
    "scalar list \<Rightarrow> obs_type \<Rightarrow> user_selection \<Rightarrow> user_selection \<Rightarrow> obs_variable \<Rightarrow> scalar list result" where
  "Backend_read data ty mem_selection file_selection v =
     bind_result (createObsStoreSelection (sel_default mem_selection) (sel_actions mem_selection)
         (mem_dim_sizes mem_selection (length data) (ty_num_elements ty))) (\<lambda>m_select.
     bind_result (createObsStoreSelection (sel_default file_selection) (sel_actions file_selection) (dimensions v)) (\<lambda>f_select.
       if npoints m_select > npoints f_select
       then Inl (Exception ''Number of points from file is greater than that of memory'')
       else Variable_read data ty m_select f_select v))"

definition Backend_getDimensions :: "obs_variable \<Rightarrow> nat list \<times> int list \<times> nat \<times> nat" where
  "Backend_getDimensions v =
     (let numElems = fold (\<lambda>i n. n * dimensions v ! i) [0..<length (dimensions v)] 1
      in (dimensions v, max_dimensions v, length (dimensions v), numElems))"

section \<open>Invariants\<close>

definition attribute_ok :: "attribute \<Rightarrow> bool" where
  "attribute_ok a \<longleftrightarrow> num_elements (attr_data a) = ty_num_elements (att_dtype a) \<and>
     length (var_attr_data (attr_data a)) = prod_list (att_dimensions a) * num_elements (attr_data a)"

definition within_max :: "nat list \<Rightarrow> int list \<Rightarrow> bool" where
  "within_max dims max_dims \<longleftrightarrow> list_all2 (\<lambda>n m. m < 0 \<or> int n \<le> m) dims max_dims"

definition fill_ok :: "obs_variable \<Rightarrow> bool" where
  "fill_ok v \<longleftrightarrow>
     (case std_find (impl_atts v) ''_fillValue'' of
        None \<Rightarrow> True
      | Some a \<Rightarrow> att_dtype a = dtype v \<and> att_dimensions a = [1] \<and> attribute_ok a)"

text \<open>The rank is the same everywhere, the dimensions respect their limits, the storage holds one datum
  for each point, and the fill value is one datum of the variable's type.\<close>

definition variable_ok :: "obs_variable \<Rightarrow> bool" where
  "variable_ok v \<longleftrightarrow>
     within_max (dimensions v) (max_dimensions v) \<and> length (dim_scales v) = length (dimensions v) \<and>
     num_elements (var_data v) = ty_num_elements (dtype v) \<and> 0 < ty_num_elements (dtype v) \<and>
     length (var_attr_data (var_data v)) = prod_list (dimensions v) * num_elements (var_data v) \<and>
     std_map_ok (impl_atts v) \<and> std_map_ok (atts v) \<and> fill_ok v"

definition fill_element :: "obs_variable \<Rightarrow> scalar" where
  "fill_element v =
     (case std_find (impl_atts v) ''_fillValue'' of
        None \<Rightarrow> default_value (store_type (var_data v))
      | Some a \<Rightarrow> var_attr_data (attr_data a) ! 0)"

lemma fold_times_prod: "fold (*) ns k = prod_list ns * k" for k :: nat
  by (induction ns arbitrary: k) auto

lemma fold_times_nth: "fold (\<lambda>i n. n * ns ! i) [0..<length ns] 1 = prod_list ns" for ns :: "nat list"
proof -
  have "fold (\<lambda>i n. n * ns ! i) [0..<length ns] 1 = fold (\<lambda>x n. n * x) (map ((!) ns) [0..<length ns]) 1"
    by (simp add: fold_map comp_def)
  also have "\<dots> = prod_list ns" using fold_times_prod [of ns 1] by (simp add: map_nth mult.commute)
  finally show ?thesis .
qed

lemma scatter_all:
  assumes "length src = n" "length dst = n"
  shows "scatter src (zip [0..<n] [0..<n]) dst = src"
  using assms by (intro nth_equalityI) (auto intro!: scatter_at simp: zip_same_conv_map comp_def)

lemma Selection_all_Inr:
  assumes "n < 2 ^ 31"
  obtains s where "Selection_all 0 n = Inr s" "selection_wf s" "selection_points s = [0..<n]" "npoints s = n"
    "transfer_fuel s = n" "\<forall>xs \<in> set (dim_selects s). distinct xs"
proof -
  from assms obtain s where s: "Selection_all 0 n = Inr s" by (simp add: Selection_all_def)
  then have "dim_selects s = []" using assms by (auto simp: Selection_all_def)
  then show thesis using that [OF s] Selection_all_wf [OF s] by (simp add: transfer_fuel_def)
qed

lemma Attribute_read_all:
  assumes "attribute_ok a" "prod_list (att_dimensions a) < 2 ^ 31" "length buf = length (var_attr_data (attr_data a))"
  shows "Attribute_read buf (att_dtype a) a = Inr (var_attr_data (attr_data a))"
proof -
  let ?n = "prod_list (att_dimensions a)" and ?d = "attr_data a"
  from Selection_all_Inr [OF assms(2)] obtain s where s: "Selection_all 0 ?n = Inr s" "selection_wf s"
    "selection_points s = [0..<?n]" "npoints s = ?n" "transfer_fuel s = ?n" by blast
  have len: "length (var_attr_data ?d) = ?n * num_elements ?d" using assms(1) by (simp add: attribute_ok_def)
  have "VarAttrStore_read buf s s ?d = Inr (var_attr_data ?d)"
  proof (cases "buf = []")
    case True
    then show ?thesis using assms(3) by (simp add: VarAttrStore_read_def)
  next
    case False
    then show ?thesis using s len assms(3)
      by (simp add: VarAttrStore_read_scatter datum_indices_all scatter_all)
  qed
  then show ?thesis using s(1) unfolding Attribute_read_def fold_times_nth Type_eq_iff by simp
qed

lemma Attribute_write_all:
  assumes "attribute_ok a" "prod_list (att_dimensions a) < 2 ^ 31" "length data = length (var_attr_data (attr_data a))"
  shows "Attribute_write data (att_dtype a) a = Inr (a \<lparr> attr_data := (attr_data a) \<lparr> var_attr_data := data \<rparr> \<rparr>)"
proof -
  let ?n = "prod_list (att_dimensions a)" and ?d = "attr_data a"
  from Selection_all_Inr [OF assms(2)] obtain s where s: "Selection_all 0 ?n = Inr s" "selection_wf s"
    "selection_points s = [0..<?n]" "npoints s = ?n" "transfer_fuel s = ?n" by blast
  have len: "length (var_attr_data ?d) = ?n * num_elements ?d" using assms(1) by (simp add: attribute_ok_def)
  have "VarAttrStore_write data s s ?d = Inr (?d \<lparr> var_attr_data := data \<rparr>)"
  proof (cases "data = []")
    case True
    then show ?thesis using assms(3) by (simp add: VarAttrStore_write_def)
  next
    case False
    then show ?thesis using s len assms(3)
      by (simp add: VarAttrStore_write_scatter datum_indices_all scatter_all)
  qed
  then show ?thesis using s(1) unfolding Attribute_write_def fold_times_nth Type_eq_iff by simp
qed

lemma within_max_iff:
  "length ns = length ms \<Longrightarrow>
   within_max ns ms \<longleftrightarrow> \<not> list_ex (\<lambda>i. ms ! i \<ge> 0 \<and> int (ns ! i) > ms ! i) [0..<length ms]"
  by (simp add: within_max_def list_all2_conv_all_nth list_ex_iff not_less) (meson atLeastLessThan_iff not_less zero_le)

lemma Variable_resize_eq:
  assumes "fill_ok v" "length new = length (max_dimensions v)"
  shows "Variable_resize new v =
    (if within_max new (max_dimensions v)
     then Inr (v \<lparr> dimensions := new,
            var_data := (var_data v) \<lparr> var_attr_data :=
              vec_resize (prod_list new * num_elements (var_data v)) (fill_element v) (var_attr_data (var_data v)) \<rparr> \<rparr>)
     else Inl (Exception ''new_dim_sizes exceeds max_dimensions_''))"
proof (cases "std_find (impl_atts v) ''_fillValue''")
  case None
  then show ?thesis using within_max_iff [OF assms(2)]
    by (simp add: Variable_resize_def Has_Attributes_exists_def VarAttrStore_resize_def fill_element_def fold_times_prod)
next
  case (Some a)
  with assms(1) have a: "att_dtype a = dtype v" "att_dimensions a = [1]" "attribute_ok a"
    by (simp_all add: fill_ok_def)
  then have "length (var_attr_data (attr_data a)) = ty_num_elements (dtype v)" by (simp add: attribute_ok_def)
  then have "Attribute_read (replicate (ty_num_elements (dtype v)) x) (dtype v) a = Inr (var_attr_data (attr_data a))" for x
    using Attribute_read_all [of a "replicate (ty_num_elements (dtype v)) x"] a by simp
  then show ?thesis using Some within_max_iff [OF assms(2)]
    by (simp add: Variable_resize_def Has_Attributes_exists_def Has_Attributes_open_def VarAttrStore_resize_fill_def
        fill_element_def fold_times_prod)
qed

lemma variable_ok_resize:
  assumes "variable_ok v" "length new = length (max_dimensions v)" "Variable_resize new v = Inr v'"
  shows "variable_ok v'"
proof -
  have fill: "fill_ok v" using assms(1) by (simp add: variable_ok_def)
  note eq = Variable_resize_eq [OF fill assms(2)]
  have "within_max new (max_dimensions v)" using assms(3) unfolding eq by (auto split: if_splits)
  moreover from this have "v' = v \<lparr> dimensions := new, var_data := (var_data v) \<lparr> var_attr_data :=
      vec_resize (prod_list new * num_elements (var_data v)) (fill_element v) (var_attr_data (var_data v)) \<rparr> \<rparr>"
    using assms(3) unfolding eq by simp
  moreover have "length (dimensions v) = length new"
    using assms(1,2) by (auto simp: variable_ok_def within_max_def dest: list_all2_lengthD)
  moreover have "fill_ok (v \<lparr> dimensions := new, var_data := st \<rparr>)" for st
    using fill by (simp add: fill_ok_def split: option.splits)
  ultimately show ?thesis using assms(1) by (simp add: variable_ok_def)
qed

text \<open>A variable is built exactly when its dimensions respect the limits.\<close>

lemma Variable_created:
  assumes store: "createVarAttrStore ty = Inr store" and "length dims = length max_dims" "0 < ty_num_elements ty"
    "fvdata_set params \<Longrightarrow> length (fill_value params) = ty_num_elements ty"
  shows "if within_max dims max_dims
    then \<exists>v. Variable dims max_dims ty params = Inr v \<and> variable_ok v \<and> dimensions v = dims \<and> max_dimensions v = max_dims \<and>
      dtype v = ty \<and> var_attr_data (var_data v) = replicate (prod_list dims * ty_num_elements ty)
        (if fvdata_set params then fill_value params ! 0 else default_value (store_type (var_data v)))
    else Variable dims max_dims ty params = Inl (Exception ''new_dim_sizes exceeds max_dimensions_'')"
proof -
  have st: "var_attr_data store = []" "num_elements store = ty_num_elements ty"
    using store by (auto simp: createVarAttrStore_def Let_def split: if_splits)
  define a where "a = \<lparr> att_dimensions = [1], att_dtype = ty, attr_data = VarAttrStore_resize 1 store \<rparr>"
  define fv where "fv = a \<lparr> attr_data := (attr_data a) \<lparr> var_attr_data := fill_value params \<rparr> \<rparr>"
  define impl where "impl = (if fvdata_set params then [(''_fillValue'', fv)] else [])"
  define w where "w = \<lparr> dimensions = dims, max_dimensions = max_dims, dtype = ty, var_data = store,
      fvdata = (if fvdata_set params then Some (fill_value params) else None), dim_scales = [], is_scale = False, scale_name = '''', atts = [], impl_atts = impl \<rparr>"
  have a: "attribute_ok a" "att_dtype a = ty" "length (var_attr_data (attr_data a)) = ty_num_elements ty" "att_dimensions a = [1]"
    by (simp_all add: a_def attribute_ok_def VarAttrStore_resize_def st)
  have wr: "Attribute_write (fill_value params) ty a = Inr fv" if "fvdata_set params"
    using Attribute_write_all [of a "fill_value params"] a assms(4) that by (simp add: fv_def)
  have att: "Attribute [Suc 0] ty = Inr a" by (simp add: Attribute_def store a_def)
  have eq: "Variable dims max_dims ty params =
      bind_result (Variable_resize dims w) (\<lambda>v. Inr (v \<lparr> dim_scales := replicate (length (dimensions v)) None \<rparr>))"
  proof (cases "fvdata_set params")
    case True
    have "Has_Attributes_create ''_fillValue'' ty [1] [] = Inr (a, [(''_fillValue'', a)])"
      by (simp add: Has_Attributes_create_def att)
    with True show ?thesis by (simp only: Variable_def store wr w_def impl_def if_True bind_result.simps split std_assign.simps simp_thms)
  next
    case False
    then show ?thesis by (simp add: Variable_def store impl_def w_def)
  qed
  have fill: "fill_ok w"
    by (simp add: fill_ok_def w_def impl_def fv_def a_def attribute_ok_def VarAttrStore_resize_def st assms(4))
  have elt: "fill_element w = (if fvdata_set params then fill_value params ! 0 else default_value (store_type store))"
    by (simp add: fill_element_def w_def impl_def fv_def)
  have len: "length dims = length (max_dimensions w)" using assms(2) by (simp add: w_def)
  note res = Variable_resize_eq [OF fill len]
  let ?st = "store \<lparr> var_attr_data := replicate (prod_list dims * ty_num_elements ty) (fill_element w) \<rparr>"
  let ?v = "w \<lparr> dimensions := dims, var_data := ?st, dim_scales := replicate (length dims) None \<rparr>"
  have "fill_ok ?v" using fill by (simp add: fill_ok_def split: option.splits)
  moreover have "std_map_ok impl" by (simp add: impl_def std_map_ok_def std_keys_def)
  ultimately have "variable_ok ?v \<and> var_attr_data (var_data ?v) = replicate (prod_list dims * ty_num_elements ty)
      (if fvdata_set params then fill_value params ! 0 else default_value (store_type (var_data ?v)))" if "within_max dims max_dims"
    using that assms(2,3) st by (simp add: variable_ok_def elt) (simp add: w_def)
  moreover have "Variable dims max_dims ty params =
      (if within_max dims max_dims then Inr ?v else Inl (Exception ''new_dim_sizes exceeds max_dimensions_''))"
    unfolding eq res by (simp add: w_def st vec_resize_def)
  ultimately show ?thesis by (simp add: w_def)
qed

lemma variable_ok_created:
  assumes "Variable dims max_dims ty params = Inr v" "length dims = length max_dims" "0 < ty_num_elements ty"
    "fvdata_set params \<Longrightarrow> length (fill_value params) = ty_num_elements ty"
  shows "variable_ok v \<and> dimensions v = dims \<and> max_dimensions v = max_dims \<and> dtype v = ty \<and>
    var_attr_data (var_data v) = replicate (prod_list dims * ty_num_elements ty)
      (if fvdata_set params then fill_value params ! 0 else default_value (store_type (var_data v)))"
proof -
  obtain store where "createVarAttrStore ty = Inr store"
    using assms(1) by (cases "createVarAttrStore ty") (simp_all add: Variable_def)
  from Variable_created [OF this assms(2-4)] assms(1) show ?thesis by (auto split: if_splits)
qed

section \<open>Transfers of a variable\<close>

text \<open>Two selections that a transfer can use together: as many distinct points on both sides, all of them
  inside the buffer and inside the variable.\<close>

definition transfer_ok :: "nat \<Rightarrow> selection \<Rightarrow> selection \<Rightarrow> obs_variable \<Rightarrow> bool" where
  "transfer_ok len m f v \<longleftrightarrow>
     selection_wf m \<and> selection_wf f \<and> distinct (selection_points m) \<and> distinct (selection_points f) \<and>
     length (selection_points m) = length (selection_points f) \<and> length (selection_points m) \<le> transfer_fuel m \<and>
     (\<forall>i \<in> set (selection_points m). (i + 1) * num_elements (var_data v) \<le> len) \<and>
     (\<forall>i \<in> set (selection_points f). i < prod_list (dimensions v))"

lemma datum_indices_bound:
  assumes "\<forall>i \<in> set is. i < k" "x \<in> set (datum_indices n is)"
  shows "x < k * n"
  using assms by (auto simp: in_datum_indices div_less_iff_less_mult)

lemma Variable_write_scatter:
  assumes "variable_ok v" "transfer_ok (length data) m f v" "data \<noteq> []"
  shows "Variable_write data (dtype v) m f v = Inr (v \<lparr> var_data := (var_data v) \<lparr> var_attr_data := scatter data
    (zip (datum_indices (num_elements (var_data v)) (selection_points m))
      (datum_indices (num_elements (var_data v)) (selection_points f))) (var_attr_data (var_data v)) \<rparr> \<rparr>)"
  using assms VarAttrStore_write_scatter [of m f data "var_data v"]
  by (simp add: Variable_write_def Type_eq_iff transfer_ok_def)

lemma Variable_read_scatter:
  assumes "variable_ok v" "transfer_ok (length data) m f v" "data \<noteq> []"
  shows "Variable_read data (dtype v) m f v = Inr (scatter (var_attr_data (var_data v))
    (zip (datum_indices (num_elements (var_data v)) (selection_points f))
      (datum_indices (num_elements (var_data v)) (selection_points m))) data)"
  using assms VarAttrStore_read_scatter [of m f data "var_data v"]
  by (simp add: Variable_read_def Type_eq_iff transfer_ok_def)

lemma fill_ok_var_data [simp]: "fill_ok (v \<lparr> var_data := st \<rparr>) = fill_ok v"
  by (simp add: fill_ok_def split: option.splits)

lemma variable_ok_write:
  assumes "variable_ok v" "Variable_write data (dtype v) m f v = Inr v'" "transfer_ok (length data) m f v"
  shows "variable_ok v'"
proof (cases "data = []")
  case True
  then show ?thesis using assms by (auto simp: Variable_write_def VarAttrStore_write_def split: if_splits)
next
  case False
  then show ?thesis using assms by (auto simp: Variable_write_scatter variable_ok_def)
qed

section \<open>Properties\<close>

text \<open>C4. What is written through a pair of selections is read back through it: every selected element of
  the buffer returns with its value, no other element of the buffer and no unselected element of the
  variable changes, and the variable stays well formed.\<close>

theorem Variable_write_read:
  assumes "variable_ok v" "transfer_ok (length data) m f v" "data \<noteq> []"
  shows "\<exists>v'. Variable_write data (dtype v) m f v = Inr v' \<and> variable_ok v' \<and>
    (\<forall>j. j div num_elements (var_data v) \<notin> set (selection_points f) \<longrightarrow>
       var_attr_data (var_data v') ! j = var_attr_data (var_data v) ! j) \<and>
    (\<forall>buf. length buf = length data \<longrightarrow> (\<exists>buf'. Variable_read buf (dtype v) m f v' = Inr buf' \<and> length buf' = length buf \<and>
       (\<forall>j < length buf. buf' ! j = (if j div num_elements (var_data v) \<in> set (selection_points m) then data ! j else buf ! j))))"
proof -
  let ?n = "num_elements (var_data v)" and ?old = "var_attr_data (var_data v)"
  let ?ms = "datum_indices ?n (selection_points m)" and ?fs = "datum_indices ?n (selection_points f)"
  define v' where "v' = v \<lparr> var_data := (var_data v) \<lparr> var_attr_data := scatter data (zip ?ms ?fs) ?old \<rparr> \<rparr>"
  note w = Variable_write_scatter [OF assms, folded v'_def]
  have n: "?n > 0" and len: "length ?old = prod_list (dimensions v) * ?n" using assms(1) by (auto simp: variable_ok_def)
  have d: "distinct ?ms" "distinct ?fs" "length ?ms = length ?fs"
    using assms(2) by (simp_all add: transfer_ok_def distinct_datum_indices)
  have in_store: "\<forall>x \<in> set ?fs. x < length ?old"
    using assms(2) datum_indices_bound [of "selection_points f" "prod_list (dimensions v)"] len by (simp add: transfer_ok_def)
  have "scatter data (zip ?ms ?fs) ?old ! j = ?old ! j" if "j div ?n \<notin> set (selection_points f)" for j
    using that by (intro scatter_other) (auto dest: set_zip_rightD simp: in_datum_indices)
  moreover have "\<exists>buf'. Variable_read buf (dtype v) m f v' = Inr buf' \<and> length buf' = length buf \<and>
      (\<forall>j < length buf. buf' ! j = (if j div ?n \<in> set (selection_points m) then data ! j else buf ! j))"
    if buf: "length buf = length data" for buf
  proof -
    have ok': "variable_ok v'" using variable_ok_write [OF assms(1) w assms(2)] .
    have "transfer_ok (length buf) m f v'" using assms(2) buf by (simp add: transfer_ok_def v'_def)
    moreover have "buf \<noteq> []" using buf assms(3) by auto
    ultimately have "Variable_read buf (dtype v) m f v' = Inr (scatter (scatter data (zip ?ms ?fs) ?old) (zip ?fs ?ms) buf)"
      using Variable_read_scatter [OF ok', of buf m f] by (simp add: v'_def)
    then show ?thesis using scatter_roundtrip [OF d(3,1,2) in_store buf] n buf by (simp add: in_datum_indices)
  qed
  ultimately show ?thesis using w variable_ok_write [OF assms(1) w assms(2)] by (auto simp: v'_def)
qed

definition int_type :: obs_type where
  "int_type = Type_fundamental INT_TYPE INTEGER_CLASS 4 True"

lemma int_variable_created:
  "list_all2 (\<lambda>n m. m < 0 \<or> int n \<le> m) dims max_dims \<Longrightarrow>
   \<exists>v. Variable dims max_dims int_type \<lparr> fvdata_set = False, fill_value = [] \<rparr> = Inr v"
  using within_max_iff [of dims max_dims]
  by (simp add: Variable_def createVarAttrStore_def int_type_def Type_fundamental_def Variable_resize_def
      Has_Attributes_exists_def within_max_def list_all2_lengthD)

lemma int_variable:
  assumes "Variable dims max_dims int_type \<lparr> fvdata_set = False, fill_value = [] \<rparr> = Inr v" "length dims = length max_dims"
  shows "variable_ok v" "dimensions v = dims" "max_dimensions v = max_dims" "dtype v = int_type" "num_elements (var_data v) = 1"
    "length (var_attr_data (var_data v)) = prod_list dims" "impl_atts v = []"
proof -
  have *: "variable_ok v \<and> dimensions v = dims \<and> max_dimensions v = max_dims \<and> dtype v = int_type \<and>
      var_attr_data (var_data v) = replicate (prod_list dims * ty_num_elements int_type) (default_value (store_type (var_data v)))"
    using variable_ok_created [OF assms] by (simp add: int_type_def Type_fundamental_def)
  then show "variable_ok v" "dimensions v = dims" "max_dimensions v = max_dims" "dtype v = int_type" by simp_all
  with * show "num_elements (var_data v) = 1" "length (var_attr_data (var_data v)) = prod_list dims"
    by (simp_all add: variable_ok_def int_type_def Type_fundamental_def)
  show "impl_atts v = []"
    using assms(1) by (auto simp: Variable_def Variable_resize_def Has_Attributes_exists_def Let_def split: if_splits)
qed

theorem Variable_write_read_witness:
  "\<exists>v v'. Variable [4] [-1] int_type \<lparr> fvdata_set = False, fill_value = [] \<rparr> = Inr v \<and>
     Variable_write [Integral 7, Integral 9] int_type (Selection INTERSECT [[0, 1]] [2]) (Selection INTERSECT [[1, 3]] [4]) v = Inr v' \<and>
     Variable_read [Integral 0, Integral 0] int_type (Selection INTERSECT [[0, 1]] [2]) (Selection INTERSECT [[1, 3]] [4]) v'
       = Inr [Integral 7, Integral 9]"
proof -
  let ?m = "Selection INTERSECT [[0, 1]] [2]" and ?f = "Selection INTERSECT [[1, 3]] [4]"
  have wf: "selection_wf ?m" "selection_wf ?f" by (rule Selection_intersect_wf; simp)+
  obtain v where v: "Variable [4] [-1] int_type \<lparr> fvdata_set = False, fill_value = [] \<rparr> = Inr v"
    using int_variable_created [of "[4]" "[-1]"] by auto
  note v' = int_variable [OF v, simplified]
  have "transfer_ok (length [Integral 7, Integral 9]) ?m ?f v"
    using wf v' by (simp add: transfer_ok_def selection_points_def Selection_fields transfer_fuel_def)
  from Variable_write_read [OF v'(1) this] obtain w where
    w: "Variable_write [Integral 7, Integral 9] int_type ?m ?f v = Inr w" and
    r: "\<forall>buf. length buf = 2 \<longrightarrow> (\<exists>buf'. Variable_read buf int_type ?m ?f w = Inr buf' \<and> length buf' = length buf \<and>
       (\<forall>j < length buf. buf' ! j = (if j div 1 \<in> set (selection_points ?m) then [Integral 7, Integral 9] ! j else buf ! j)))"
    using v' by (auto simp: numeral_2_eq_2)
  from spec [OF r, of "[Integral 0, Integral 0]"] obtain buf' where
    b: "Variable_read [Integral 0, Integral 0] int_type ?m ?f w = Inr buf'" "length buf' = 2"
    "\<forall>j < 2. buf' ! j = (if j \<in> set (selection_points ?m) then [Integral 7, Integral 9] ! j else [Integral 0, Integral 0] ! j)"
    by (auto simp: numeral_2_eq_2)
  have "set (selection_points ?m) = {0, 1}" by (auto simp: selection_points_def Selection_fields)
  then have "buf' ! 0 = Integral 7" "buf' ! 1 = Integral 9"
    using b(3) [rule_format, of 0] b(3) [rule_format, of 1] by simp_all
  moreover obtain x y where "buf' = [x, y]" using b(2) by (auto simp: length_Suc_conv numeral_2_eq_2)
  ultimately have "buf' = [Integral 7, Integral 9]" by simp
  with v w b(1) show ?thesis by blast
qed

abbreviation select_all :: user_selection where
  "select_all \<equiv> \<lparr> sel_default = SELECT_ALL, sel_actions = [], sel_extent = [] \<rparr>"

lemma createObsStoreSelection_all:
  assumes "prod_list sizes < 2 ^ 31"
  obtains s where "createObsStoreSelection SELECT_ALL [] sizes = Inr s" "selection_wf s"
    "selection_points s = [0..<prod_list sizes]" "npoints s = prod_list sizes" "transfer_fuel s = prod_list sizes"
proof -
  have "fold (\<lambda>n np. np * n) sizes 1 = prod_list sizes" using fold_times_prod [of sizes 1] by (simp add: mult.commute)
  then have "createObsStoreSelection SELECT_ALL [] sizes = Selection_all 0 (prod_list sizes)"
    by (simp add: createObsStoreSelection_def)
  with Selection_all_Inr [OF assms] that show thesis by metis
qed

lemma Backend_write_all:
  assumes "variable_ok v" "prod_list (dimensions v) < 2 ^ 31"
    "length data = prod_list (dimensions v) * num_elements (var_data v)"
  shows "Backend_write data (dtype v) select_all select_all v = Inr (v \<lparr> var_data := (var_data v) \<lparr> var_attr_data := data \<rparr> \<rparr>)"
proof -
  let ?n = "prod_list (dimensions v)" and ?e = "num_elements (var_data v)"
  have ne: "ty_num_elements (dtype v) = ?e" "?e > 0" and len: "length (var_attr_data (var_data v)) = ?n * ?e"
    using assms(1) by (auto simp: variable_ok_def)
  from createObsStoreSelection_all [of "[?n]"] assms(2) obtain m where
    m: "createObsStoreSelection SELECT_ALL [] [?n] = Inr m" "selection_wf m" "selection_points m = [0..<?n]" "npoints m = ?n"
      "transfer_fuel m = ?n" by auto
  from createObsStoreSelection_all [OF assms(2)] obtain f where
    f: "createObsStoreSelection SELECT_ALL [] (dimensions v) = Inr f" "selection_wf f" "selection_points f = [0..<?n]" "npoints f = ?n"
    by blast
  have sizes: "mem_dim_sizes select_all (?n * ?e) ?e = [?n]" using ne by (simp add: mem_dim_sizes_def)
  have "VarAttrStore_write data m f (var_data v) = Inr ((var_data v) \<lparr> var_attr_data := data \<rparr>)"
  proof (cases "data = []")
    case True
    have "length (var_attr_data (var_data v)) = length data" using len assms(3) by simp
    with True have "var_attr_data (var_data v) = data" by simp
    with True show ?thesis by (cases "var_data v") (simp add: VarAttrStore_write_def)
  next
    case False
    then show ?thesis using m f len assms(3) by (simp add: VarAttrStore_write_scatter datum_indices_all scatter_all)
  qed
  then show ?thesis
    using m(1,4) f(1,4) sizes assms(3) ne by (simp add: Backend_write_def Variable_write_def Type_eq_iff)
qed

lemma Backend_read_all:
  assumes "variable_ok v" "prod_list (dimensions v) < 2 ^ 31" "length buf = length (var_attr_data (var_data v))"
  shows "Backend_read buf (dtype v) select_all select_all v = Inr (var_attr_data (var_data v))"
proof -
  let ?n = "prod_list (dimensions v)" and ?e = "num_elements (var_data v)"
  have ne: "ty_num_elements (dtype v) = ?e" "?e > 0" and len: "length (var_attr_data (var_data v)) = ?n * ?e"
    using assms(1) by (auto simp: variable_ok_def)
  from createObsStoreSelection_all [of "[?n]"] assms(2) obtain m where
    m: "createObsStoreSelection SELECT_ALL [] [?n] = Inr m" "selection_wf m" "selection_points m = [0..<?n]" "npoints m = ?n"
      "transfer_fuel m = ?n" by auto
  from createObsStoreSelection_all [OF assms(2)] obtain f where
    f: "createObsStoreSelection SELECT_ALL [] (dimensions v) = Inr f" "selection_wf f" "selection_points f = [0..<?n]" "npoints f = ?n"
    by blast
  have sizes: "mem_dim_sizes select_all (?n * ?e) ?e = [?n]" using ne by (simp add: mem_dim_sizes_def)
  have "VarAttrStore_read buf m f (var_data v) = Inr (var_attr_data (var_data v))"
  proof (cases "buf = []")
    case True
    then have "var_attr_data (var_data v) = []" using assms(3) by simp
    with True show ?thesis by (simp add: VarAttrStore_read_def)
  next
    case False
    then show ?thesis using m f assms(3) len by (simp add: VarAttrStore_read_scatter datum_indices_all scatter_all)
  qed
  then show ?thesis
    using m(1,4) f(1,4) sizes assms(3) len ne by (simp add: Backend_read_def Variable_read_def Type_eq_iff)
qed

text \<open>C12. Writing a whole variable and reading the whole variable, with no selection given on either side,
  stores exactly the buffer and returns it; empty variables included.\<close>

theorem Backend_write_read_all:
  assumes "variable_ok v" "prod_list (dimensions v) < 2 ^ 31"
    "length data = prod_list (dimensions v) * num_elements (var_data v)" "length buf = length data"
  shows "\<exists>v'. Backend_write data (dtype v) select_all select_all v = Inr v' \<and> variable_ok v' \<and>
    var_attr_data (var_data v') = data \<and> Backend_read buf (dtype v) select_all select_all v' = Inr data"
proof -
  let ?v = "v \<lparr> var_data := (var_data v) \<lparr> var_attr_data := data \<rparr> \<rparr>"
  have "variable_ok ?v" using assms(1,3) by (simp add: variable_ok_def)
  with Backend_read_all [of ?v buf] Backend_write_all [OF assms(1-3)] assms(2,4) show ?thesis by simp
qed

theorem Backend_write_read_all_witness:
  "\<exists>v v'. Variable [2, 2] [-1, 2] int_type \<lparr> fvdata_set = False, fill_value = [] \<rparr> = Inr v \<and>
     Backend_write [Integral 1, Integral 2, Integral 3, Integral 4] int_type select_all select_all v = Inr v' \<and>
     Backend_read (replicate 4 (Integral 0)) int_type select_all select_all v' = Inr [Integral 1, Integral 2, Integral 3, Integral 4]"
proof -
  obtain v where v: "Variable [2, 2] [-1, 2] int_type \<lparr> fvdata_set = False, fill_value = [] \<rparr> = Inr v"
    using int_variable_created [of "[2, 2]" "[-1, 2]"] by auto
  note v' = int_variable [OF v, simplified]
  show ?thesis
    using Backend_write_read_all [OF v'(1), of "[Integral 1, Integral 2, Integral 3, Integral 4]" "replicate 4 (Integral 0)"] v v'(2,4,5)
    by auto
qed

text \<open>The element of a variable at given coordinates.\<close>

definition element_at :: "obs_variable \<Rightarrow> nat list \<Rightarrow> nat \<Rightarrow> scalar" where
  "element_at v coords j =
     var_attr_data (var_data v) ! (radix_val coords (dimensions v) * num_elements (var_data v) + j)"

lemma radix_val_datum:
  assumes "list_all2 (<) cs ns" "j < (e :: nat)"
  shows "radix_val cs ns * e + j < prod_list ns * e"
proof -
  have "(radix_val cs ns + 1) * e \<le> prod_list ns * e"
    using radix_val_less [OF assms(1)] by (intro mult_le_mono1) simp
  then show ?thesis using assms(2) by (simp add: algebra_simps)
qed

text \<open>C11. Resizing along the first dimension (the locations) keeps every element at its coordinates and gives
  the new coordinates the fill value, or the zero of the type if the variable has none. A size above its
  limit is refused and the variable is unchanged.\<close>

theorem Variable_resize_first_dim:
  assumes "variable_ok v" "dimensions v = d # ds" "length ds + 1 = length (max_dimensions v)"
  shows "if within_max (n # ds) (max_dimensions v)
    then \<exists>v'. Variable_resize (n # ds) v = Inr v' \<and> variable_ok v' \<and> dimensions v' = n # ds \<and>
      (\<forall>coords j. list_all2 (<) coords (n # ds) \<and> j < num_elements (var_data v) \<longrightarrow>
         element_at v' coords j = (if hd coords < d then element_at v coords j else fill_element v))
    else Variable_resize (n # ds) v = Inl (Exception ''new_dim_sizes exceeds max_dimensions_'')"
proof -
  let ?e = "num_elements (var_data v)" and ?p = "prod_list ds"
  have fill: "fill_ok v" and len: "length (var_attr_data (var_data v)) = d * ?p * ?e"
    using assms(1,2) by (simp_all add: variable_ok_def)
  have rank: "length (n # ds) = length (max_dimensions v)" using assms(3) by simp
  define v' where "v' = v \<lparr> dimensions := n # ds, var_data := (var_data v) \<lparr> var_attr_data :=
      vec_resize (prod_list (n # ds) * ?e) (fill_element v) (var_attr_data (var_data v)) \<rparr> \<rparr>"
  have eq: "Variable_resize (n # ds) v = (if within_max (n # ds) (max_dimensions v) then Inr v'
      else Inl (Exception ''new_dim_sizes exceeds max_dimensions_''))"
    unfolding v'_def by (rule Variable_resize_eq [OF fill rank])
  have "element_at v' cs j = (if hd cs < d then element_at v cs j else fill_element v)"
    if cs: "list_all2 (<) cs (n # ds)" and j: "j < ?e" for cs j
  proof -
    from cs obtain c cs' where c: "cs = c # cs'" "c < n" "list_all2 (<) cs' ds" by (cases cs) auto
    let ?i = "radix_val cs (n # ds) * ?e + j"
    have same: "radix_val cs (n # ds) = radix_val cs (d # ds)" by (simp add: c)
    have "?i < prod_list (n # ds) * ?e" using radix_val_datum [OF cs j] .
    then have "element_at v' cs j = (if ?i < d * ?p * ?e then var_attr_data (var_data v) ! ?i else fill_element v)"
      using len by (simp add: element_at_def v'_def vec_resize_nth)
    moreover have "?i < d * ?p * ?e \<longleftrightarrow> c < d"
    proof
      assume "c < d"
      then have "list_all2 (<) cs (d # ds)" using c by simp
      from radix_val_datum [OF this j] show "?i < d * ?p * ?e" unfolding same by simp
    next
      assume lt: "?i < d * ?p * ?e"
      have "c * (?p * ?e) \<le> ?i" by (simp add: c algebra_simps)
      also note lt
      finally have "c * (?p * ?e) < d * (?p * ?e)" by (simp only: mult.assoc)
      then show "c < d" by simp
    qed
    ultimately show ?thesis using same assms(2) c(1) by (simp add: element_at_def)
  qed
  moreover have "variable_ok v'" if "within_max (n # ds) (max_dimensions v)"
    using variable_ok_resize [OF assms(1) rank, of v'] eq that by simp
  ultimately show ?thesis using eq by (auto simp: v'_def)
qed

theorem Variable_resize_first_dim_witness:
  "\<exists>v v'. Variable [1, 2] [3, 2] int_type \<lparr> fvdata_set = False, fill_value = [] \<rparr> = Inr v \<and>
     Variable_resize [2, 2] v = Inr v' \<and> element_at v' [0, 1] 0 = element_at v [0, 1] 0 \<and>
     element_at v' [1, 0] 0 = fill_element v"
proof -
  obtain v where v: "Variable [1, 2] [3, 2] int_type \<lparr> fvdata_set = False, fill_value = [] \<rparr> = Inr v"
    using int_variable_created [of "[1, 2]" "[3, 2]"] by auto
  note v' = int_variable [OF v, simplified]
  have "within_max [2, 2] (max_dimensions v)" by (simp add: v'(3) within_max_def)
  with Variable_resize_first_dim [OF v'(1), of 1 "[2]" 2] v'(2,3) obtain w where
    w: "Variable_resize [2, 2] v = Inr w" "\<forall>coords j. list_all2 (<) coords [2, 2] \<and> j < num_elements (var_data v) \<longrightarrow>
         element_at w coords j = (if hd coords < 1 then element_at v coords j else fill_element v)"
    by auto
  from w(2) [rule_format, of "[0, 1]" 0] w(2) [rule_format, of "[1, 0]" 0] v w(1) v'(5) show ?thesis by auto
qed


end
