(* ===== verification/Ioda_Group.thy ===== *)
theory Ioda_Group
  imports Ioda_Store
begin

text \<open>
  The hierarchy of the in-memory engine: \<open>Group\<close> and \<open>Has_Variables\<close> (\<open>Engines/ObsStore/Group.cpp\<close>,
  \<open>Variables.cpp\<close>).

  A group is a tree. A \<open>shared_ptr\<close> to a group is its path from the group where it was looked up: the engine
  never moves or removes a group. Variables are shared between the maps of the groups and the dimension
  scales of other variables, so they live on a heap (a list) and the maps hold their addresses.

  The names of the code are paths with slashes; \<open>components\<close> and \<open>resolve\<close> are the reference reading of such a
  name, and the functions of the code, which split names level by level, are proved to agree with it. The
  locale \<open>variable_namespace\<close> is the contract that clients use: what a lookup returns after creation and removal.
\<close>

section \<open>Groups\<close>

datatype group = Group (child_groups: "(string \<times> group) list") (vars: "(string \<times> nat) list") (grp_atts: has_attributes)

definition empty_group :: group where
  "empty_group = Group [] [] []"

fun set_children :: "(string \<times> group) list \<Rightarrow> group \<Rightarrow> group" where
  "set_children cs (Group _ vs as) = Group cs vs as"

fun set_vars :: "(string \<times> nat) list \<Rightarrow> group \<Rightarrow> group" where
  "set_vars vs (Group cs _ as) = Group cs vs as"

lemma group_sel_simps [simp]:
  "child_groups (set_children cs g) = cs" "vars (set_children cs g) = vars g"
  "child_groups (set_vars vs g) = child_groups g" "vars (set_vars vs g) = vs"
  by (cases g; simp)+

definition Group_list :: "group \<Rightarrow> string list" where
  "Group_list g = std_keys (child_groups g)"

definition createRootGroup :: group where
  "createRootGroup = empty_group"

definition splitFirstLevel :: "string \<Rightarrow> string list" where
  "splitFirstLevel path =
     (case str_find (CHR ''/'') path of
        None \<Rightarrow> [path]
      | Some pos \<Rightarrow> [take pos path, drop (pos + 1) path])"

lemma splitFirstLevel_cases:
  obtains "splitFirstLevel path = [path]" "CHR ''/'' \<notin> set path"
  | a b where "splitFirstLevel path = [a, b]" "path = a @ CHR ''/'' # b" "CHR ''/'' \<notin> set a"
proof (cases "str_find (CHR ''/'') path")
  case None
  moreover from this have "CHR ''/'' \<notin> set path" by (simp add: str_find_None)
  ultimately show ?thesis using that(1) by (simp add: splitFirstLevel_def)
next
  case (Some pos)
  from str_find_Some [OF this] have p: "pos < length path" "path ! pos = CHR ''/''" "CHR ''/'' \<notin> set (take pos path)" by auto
  then have "path = take pos path @ CHR ''/'' # drop (pos + 1) path" using id_take_nth_drop [of pos path] by simp
  then show ?thesis using that(2) [of "take pos path" "drop (pos + 1) path"] Some p(3) by (simp add: splitFirstLevel_def)
qed

lemma splitFirstLevel_simps:
  "CHR ''/'' \<notin> set a \<Longrightarrow> splitFirstLevel a = [a]"
  "CHR ''/'' \<notin> set a \<Longrightarrow> splitFirstLevel (a @ CHR ''/'' # b) = [a, b]"
  by (simp_all add: splitFirstLevel_def str_find_append str_find_None [THEN iffD2])

lemma splitFirstLevel_shorter: "length (splitFirstLevel path) > 1 \<Longrightarrow> length (splitFirstLevel path ! 1) < length path"
  by (rule splitFirstLevel_cases [of path]) auto

text \<open>\<open>open\<close> returns a null pointer (here \<open>None\<close>) or throws if the group is not found.\<close>

function Group_open :: "string \<Rightarrow> bool \<Rightarrow> group \<Rightarrow> group option result" where
  "Group_open name throwIfNotFound g =
     (let pathSections = splitFirstLevel name;
          childGroup = std_find (child_groups g) (pathSections ! 0)
      in bind_result
           (if length pathSections > 1 \<and> childGroup \<noteq> None
            then Group_open (pathSections ! 1) throwIfNotFound (the childGroup) else Inr childGroup)
           (\<lambda>childGroup. if throwIfNotFound \<and> childGroup = None then Inl (Exception ''Child group not found'')
                        else Inr childGroup))"
  by pat_completeness auto
termination
  by (relation "measure (\<lambda>(name, _, _). length name)") (use splitFirstLevel_shorter in auto)

declare Group_open.simps [simp del]

definition Group_exists :: "string \<Rightarrow> group \<Rightarrow> bool" where
  "Group_exists name g = (case Group_open name False g of Inr (Some _) \<Rightarrow> True | _ \<Rightarrow> False)"

text \<open>\<open>create\<close>: the group with the new children, and the path of the group it returns.\<close>

function Group_create :: "string \<Rightarrow> group \<Rightarrow> group \<times> string list" where
  "Group_create name g =
     (let pathSections = splitFirstLevel name;
          childGroup = (if Group_exists (pathSections ! 0) g
            then (case Group_open (pathSections ! 0) True g of Inr (Some c) \<Rightarrow> c | _ \<Rightarrow> empty_group)
            else empty_group);
          (childGroup, path) = (if length pathSections > 1 then Group_create (pathSections ! 1) childGroup else (childGroup, []))
      in (set_children (std_assign (pathSections ! 0) childGroup (child_groups g)) g, pathSections ! 0 # path))"
  by pat_completeness auto
termination
  by (relation "measure (\<lambda>(name, _). length name)") (use splitFirstLevel_shorter in auto)

declare Group_create.simps [simp del]

section \<open>Reference reading of paths\<close>

function components :: "string \<Rightarrow> string list" where
  "components path =
     (case str_find (CHR ''/'') path of
        None \<Rightarrow> [path]
      | Some pos \<Rightarrow> take pos path # components (drop (pos + 1) path))"
  by pat_completeness auto
termination
  by (relation "measure length") (auto dest: str_find_Some)

declare components.simps [simp del]

lemma components_simps:
  "CHR ''/'' \<notin> set a \<Longrightarrow> components a = [a]"
  "CHR ''/'' \<notin> set a \<Longrightarrow> components (a @ CHR ''/'' # b) = a # components b"
  by (subst components.simps, simp add: str_find_append str_find_None [THEN iffD2])+

fun group_at :: "string list \<Rightarrow> group \<Rightarrow> group option" where
  "group_at [] g = Some g"
| "group_at (p # ps) g = Option.bind (std_find (child_groups g) p) (group_at ps)"

lemma group_at_Nil: "group_at [] = Some"
  by (simp add: fun_eq_iff)

lemma bind_group_at_Nil [simp]: "Option.bind x (group_at []) = x"
  by (simp add: group_at_Nil)

fun ensure_path :: "string list \<Rightarrow> group \<Rightarrow> group" where
  "ensure_path [] g = g"
| "ensure_path (p # ps) g =
     set_children (std_assign p (ensure_path ps (case std_find (child_groups g) p of Some c \<Rightarrow> c | None \<Rightarrow> empty_group))
       (child_groups g)) g"

text \<open>Mutation of the group that a path points to.\<close>

fun modify_at :: "string list \<Rightarrow> (group \<Rightarrow> group) \<Rightarrow> group \<Rightarrow> group" where
  "modify_at [] f g = f g"
| "modify_at (p # ps) f g =
     (case std_find (child_groups g) p of
        None \<Rightarrow> g
      | Some c \<Rightarrow> set_children (std_assign p (modify_at ps f c) (child_groups g)) g)"

lemma Group_open_eq:
  "Group_open name t g =
    (case group_at (components name) g of
       None \<Rightarrow> if t then Inl (Exception ''Child group not found'') else Inr None
     | Some c \<Rightarrow> Inr (Some c))"
proof (induction name t g rule: Group_open.induct)
  case (1 name t g)
  show ?case
  proof (cases name rule: splitFirstLevel_cases)
    case 1
    then show ?thesis by (subst Group_open.simps) (simp add: components_simps Let_def split: option.split)
  next
    case (2 a b)
    show ?thesis
    proof (cases "std_find (child_groups g) a")
      case None
      with 2 show ?thesis by (subst Group_open.simps) (simp add: components_simps)
    next
      case (Some c)
      have "Group_open b t c = (case group_at (components b) c of
          None \<Rightarrow> if t then Inl (Exception ''Child group not found'') else Inr None | Some c \<Rightarrow> Inr (Some c))"
        using "1.IH" [OF refl refl] 2(1) Some by simp
      with 2 Some show ?thesis
        by (subst Group_open.simps) (auto simp: components_simps split: option.splits)
    qed
  qed
qed

lemma Group_exists_eq: "Group_exists name g \<longleftrightarrow> group_at (components name) g \<noteq> None"
  by (auto simp: Group_exists_def Group_open_eq split: option.splits)

lemma Group_create_eq: "Group_create name g = (ensure_path (components name) g, components name)"
proof (induction name g rule: Group_create.induct)
  case (1 name g)
  define c where "c p = (case std_find (child_groups g) p of Some c \<Rightarrow> c | None \<Rightarrow> empty_group)" for p
  have c: "(if Group_exists p g then (case Group_open p True g of Inr (Some c) \<Rightarrow> c | _ \<Rightarrow> empty_group) else empty_group) = c p"
    if "CHR ''/'' \<notin> set p" for p
    using that by (auto simp: Group_exists_eq Group_open_eq components_simps c_def split: option.splits)
  show ?case
  proof (cases name rule: splitFirstLevel_cases)
    case 1
    then show ?thesis using c [of name]
      by (subst Group_create.simps) (auto simp: components_simps c_def Let_def split: if_splits)
  next
    case (2 a b)
    have "Group_create b (c a) = (ensure_path (components b) (c a), components b)"
      using "1.IH" [OF refl refl] unfolding 2(1) nth_Cons_0 c [OF 2(3)] by simp
    then show ?thesis
      unfolding Group_create.simps [of name] Let_def 2(1) nth_Cons_0 c [OF 2(3)]
      using 2 by (simp add: components_simps c_def)
  qed
qed

section \<open>Variables of groups\<close>

definition splitGroupVar :: "string \<Rightarrow> string list" where
  "splitGroupVar path =
     (case str_find_last_of (CHR ''/'') path of
        None \<Rightarrow> [path]
      | Some pos \<Rightarrow> [take pos path, drop (pos + 1) path])"

lemma splitGroupVar_cases:
  obtains "splitGroupVar path = [path]" "CHR ''/'' \<notin> set path"
  | a b where "splitGroupVar path = [a, b]" "path = a @ CHR ''/'' # b" "CHR ''/'' \<notin> set b"
proof (cases "CHR ''/'' \<in> set path")
  case False
  then have "str_find_last_of (CHR ''/'') path = None" by (simp add: str_find_last_None)
  with False show ?thesis using that(1) by (simp add: splitGroupVar_def)
next
  case True
  then obtain a b where ab: "path = a @ CHR ''/'' # b" "CHR ''/'' \<notin> set b" by (meson split_list_last)
  then have "str_find_last_of (CHR ''/'') path = Some (length a)" by (simp add: str_find_last_append)
  with ab show ?thesis using that(2) [of a b] by (simp add: splitGroupVar_def)
qed

lemma splitGroupVar_simps:
  "CHR ''/'' \<notin> set a \<Longrightarrow> splitGroupVar a = [a]"
  "CHR ''/'' \<notin> set b \<Longrightarrow> splitGroupVar (a @ CHR ''/'' # b) = [a, b]"
  by (simp_all add: splitGroupVar_def str_find_last_append str_find_last_None [THEN iffD2])

lemma splitGroupVar_shorter: "length (splitGroupVar path) > 1 \<Longrightarrow> length (splitGroupVar path ! 1) < length path"
  by (rule splitGroupVar_cases [of path]) auto

type_synonym heap = "obs_variable list"

text \<open>\<open>create\<close>: the address of the new variable, the group with the new entry, the heap. An entry of the same
  name is kept.\<close>

function Has_Variables_create ::
    "string \<Rightarrow> obs_type \<Rightarrow> nat list \<Rightarrow> int list \<Rightarrow> var_create_params \<Rightarrow> group \<times> heap \<Rightarrow> (nat \<times> group \<times> heap) result" where
  "Has_Variables_create name ty dims max_dims params gh =
     (let (g, h) = gh; splitPaths = splitGroupVar name
      in if length splitPaths > 1
         then let (g, path) = Group_create (splitPaths ! 0) g; grp = the (group_at path g)
              in bind_result (Has_Variables_create (splitPaths ! 1) ty dims max_dims params (grp, h)) (\<lambda>(var, grp, h).
                   Inr (var, modify_at path (\<lambda>_. grp) g, h))
         else bind_result (Variable dims max_dims ty params) (\<lambda>v.
                Inr (length h, set_vars (std_insert name (length h) (vars g)) g, h @ [v])))"
  by pat_completeness auto
termination
  by (relation "measure (\<lambda>(name, _). length name)") (use splitGroupVar_shorter in auto)

function Has_Variables_open :: "string \<Rightarrow> group \<Rightarrow> nat result" where
  "Has_Variables_open name g =
     (let splitPaths = splitGroupVar name
      in if length splitPaths > 1
         then bind_result (Group_open (splitPaths ! 0) True g) (\<lambda>grp. Has_Variables_open (splitPaths ! 1) (the grp))
         else case std_find (vars g) name of
                None \<Rightarrow> Inl (Exception ''Variable not found.'')
              | Some var \<Rightarrow> Inr var)"
  by pat_completeness auto
termination
  by (relation "measure (\<lambda>(name, _). length name)") (use splitGroupVar_shorter in auto)

function Has_Variables_exists :: "string \<Rightarrow> group \<Rightarrow> bool" where
  "Has_Variables_exists name g =
     (let splitPaths = splitGroupVar name
      in if length splitPaths > 1
         then if Group_exists (splitPaths ! 0) g
              then case Group_open (splitPaths ! 0) True g of
                     Inr (Some grp) \<Rightarrow> Has_Variables_exists (splitPaths ! 1) grp | _ \<Rightarrow> False
              else False
         else std_find (vars g) name \<noteq> None)"
  by pat_completeness auto
termination
  by (relation "measure (\<lambda>(name, _). length name)") (use splitGroupVar_shorter in auto)

function Has_Variables_remove :: "string \<Rightarrow> group \<Rightarrow> group result" where
  "Has_Variables_remove name g =
     (let splitPaths = splitGroupVar name
      in if length splitPaths > 1
         then bind_result (Group_open (splitPaths ! 0) True g) (\<lambda>grp.
              bind_result (Has_Variables_remove (splitPaths ! 1) (the grp)) (\<lambda>grp.
                Inr (modify_at (components (splitPaths ! 0)) (\<lambda>_. grp) g)))
         else Inr (set_vars (std_erase name (vars g)) g))"
  by pat_completeness auto
termination
  by (relation "measure (\<lambda>(name, _). length name)") (use splitGroupVar_shorter in auto)

function Has_Variables_rename :: "string \<Rightarrow> string \<Rightarrow> group \<Rightarrow> group result" where
  "Has_Variables_rename oldName newName g =
     (let splitPaths = splitGroupVar oldName
      in if length splitPaths > 1
         then bind_result (Group_open (splitPaths ! 0) True g) (\<lambda>grp.
              bind_result (Has_Variables_rename (splitPaths ! 1) newName (the grp)) (\<lambda>grp.
                Inr (modify_at (components (splitPaths ! 0)) (\<lambda>_. grp) g)))
         else bind_result (Has_Variables_open oldName g) (\<lambda>var.
                Inr (set_vars (std_insert newName var (std_erase oldName (vars g))) g)))"
  by pat_completeness auto
termination
  by (relation "measure (\<lambda>(name, _, _). length name)") (use splitGroupVar_shorter in auto)

declare Has_Variables_create.simps [simp del] Has_Variables_open.simps [simp del] Has_Variables_exists.simps [simp del]
  Has_Variables_remove.simps [simp del] Has_Variables_rename.simps [simp del]

definition Has_Variables_list :: "group \<Rightarrow> string list" where
  "Has_Variables_list g = std_keys (vars g)"

subsection \<open>Listing\<close>

datatype ObjectType = OT_Ignored | OT_Group | OT_Variable

text \<open>The result map: the list of groups and the list of variables, each absent or present. The recursion
  visits \<open>child_groups_.at(child)\<close> for the names \<open>child\<close> in order.\<close>

type_synonym object_lists = "string list option \<times> string list option"

definition push_names :: "string \<Rightarrow> string list \<Rightarrow> string list option \<Rightarrow> string list option" where
  "push_names prefix names res = Some ((case res of None \<Rightarrow> [] | Some xs \<Rightarrow> xs) @ map (\<lambda>v. prefix @ v) names)"

fun Group_listObjects :: "ObjectType \<Rightarrow> bool \<Rightarrow> string \<Rightarrow> group \<Rightarrow> object_lists \<Rightarrow> object_lists"
  and Group_listChildren :: "ObjectType \<Rightarrow> string \<Rightarrow> (string \<times> group) list \<Rightarrow> object_lists \<Rightarrow> object_lists" where
  "Group_listObjects flt recurse prefix (Group cs vs as) res =
     (let needGroups = (flt = OT_Ignored \<or> flt = OT_Group \<or> recurse);
          needVars = (flt = OT_Ignored \<or> flt = OT_Variable);
          res = (if needVars then (fst res, push_names prefix (map fst vs) (snd res)) else res)
      in if needGroups \<or> recurse
         then let res = (if needGroups then (push_names prefix (map fst cs) (fst res), snd res) else res)
              in if recurse then Group_listChildren flt prefix cs res else res
         else res)"
| "Group_listChildren flt prefix [] res = res"
| "Group_listChildren flt prefix ((child, c) # cs) res =
     Group_listChildren flt prefix cs (Group_listObjects flt True (prefix @ child @ ''/'') c res)"

text \<open>The backend keeps only the requested lists.\<close>

definition Backend_listObjects :: "ObjectType \<Rightarrow> bool \<Rightarrow> group \<Rightarrow> object_lists" where
  "Backend_listObjects flt recurse g =
     (let data = Group_listObjects flt recurse '''' g (None, None)
      in (if flt = OT_Ignored \<or> flt = OT_Group then fst data else None,
          if flt = OT_Ignored \<or> flt = OT_Variable then snd data else None))"

section \<open>What the operations do to the namespace\<close>

text \<open>The place of a variable: the path of its group and its name there.\<close>

definition resolve :: "string \<Rightarrow> string list \<times> string" where
  "resolve name = (case splitGroupVar name of [a, b] \<Rightarrow> (components a, b) | _ \<Rightarrow> ([], name))"

lemma resolve_simps:
  "CHR ''/'' \<notin> set b \<Longrightarrow> resolve b = ([], b)"
  "CHR ''/'' \<notin> set b \<Longrightarrow> resolve (a @ CHR ''/'' # b) = (components a, b)"
  by (simp_all add: resolve_def splitGroupVar_simps)

definition var_at :: "string list \<times> string \<Rightarrow> group \<Rightarrow> nat option" where
  "var_at k g = Option.bind (group_at (fst k) g) (\<lambda>c. std_find (vars c) (snd k))"

fun group_ok :: "group \<Rightarrow> bool" where
  "group_ok (Group cs vs as) \<longleftrightarrow> std_map_ok cs \<and> std_map_ok vs \<and> list_all (\<lambda>e. group_ok (snd e)) cs"

lemma group_ok_iff:
  "group_ok g \<longleftrightarrow> std_map_ok (child_groups g) \<and> std_map_ok (vars g) \<and>
    (\<forall>p c. std_find (child_groups g) p = Some c \<longrightarrow> group_ok c)"
proof (cases g)
  case (Group cs vs as)
  have "(\<forall>e \<in> set cs. group_ok (snd e)) \<longleftrightarrow> (\<forall>p c. map_of cs p = Some c \<longrightarrow> group_ok c)" if "std_map_ok cs"
  proof -
    have "distinct (map fst cs)" using that by (simp add: std_map_ok_def std_keys_def strict_sorted_iff)
    then show ?thesis by (auto simp: map_of_eq_Some_iff)
  qed
  with Group show ?thesis by (auto simp: list_all_iff)
qed

lemma group_ok_child: "group_ok g \<Longrightarrow> std_find (child_groups g) p = Some c \<Longrightarrow> group_ok c"
  unfolding group_ok_iff [of g] by blast

lemma group_ok_set_children:
  assumes "group_ok g" "group_ok c"
  shows "group_ok (set_children (std_assign p c (child_groups g)) g)"
proof -
  have "group_ok d" if "std_find (std_assign p c (child_groups g)) q = Some d" for q d
    using that assms group_ok_child [OF assms(1)] std_find_assign [of "child_groups g" p c q]
    by (auto simp: group_ok_iff [of g] split: if_splits)
  then show ?thesis using assms(1) by (simp add: group_ok_iff [of g] group_ok_iff [of "set_children _ _"])
qed

lemma group_ok_set_vars: "group_ok g \<Longrightarrow> std_map_ok vs \<Longrightarrow> group_ok (set_vars vs g)"
  by (simp add: group_ok_iff [of g] group_ok_iff [of "set_vars vs g"])

lemma empty_group_simps [simp]: "group_ok empty_group" "child_groups empty_group = []" "vars empty_group = []"
  by (simp_all add: empty_group_def)

lemma find_child_assign:
  "group_ok g \<Longrightarrow> std_find (child_groups (set_children (std_assign p c (child_groups g)) g)) q =
    (if q = p then Some c else std_find (child_groups g) q)"
  by (simp add: group_ok_iff [of g] std_find_assign)

lemma var_at_simps:
  "var_at ([], v) g = std_find (vars g) v"
  "var_at (p # ps, v) g = Option.bind (std_find (child_groups g) p) (var_at (ps, v))"
  by (auto simp: var_at_def fun_eq_iff split: bind_splits)

subsection \<open>Creation of intermediate groups\<close>

lemma var_at_empty: "var_at k empty_group = None"
  by (cases k; cases "fst k") (auto simp: var_at_simps)

lemma ensure_path_ok: "group_ok g \<Longrightarrow> group_ok (ensure_path ps g)"
proof (induction ps arbitrary: g)
  case (Cons p ps)
  then have "group_ok (case std_find (child_groups g) p of Some c \<Rightarrow> c | None \<Rightarrow> empty_group)"
    using group_ok_child by (auto split: option.splits)
  with Cons show ?case by (simp add: group_ok_set_children)
qed simp

lemma ensure_path_exists: "group_ok g \<Longrightarrow> \<exists>c. group_at ps (ensure_path ps g) = Some c"
proof (induction ps arbitrary: g)
  case (Cons p ps)
  then have "group_ok (case std_find (child_groups g) p of Some c \<Rightarrow> c | None \<Rightarrow> empty_group)"
    using group_ok_child by (auto split: option.splits)
  with Cons show ?case by (simp add: group_ok_iff [of g] std_find_assign)
qed simp

lemma var_at_ensure_path: "group_ok g \<Longrightarrow> var_at k (ensure_path ps g) = var_at k g"
proof (induction ps arbitrary: g k)
  case (Cons p ps)
  obtain qs v where k: "k = (qs, v)" by (cases k)
  let ?c = "case std_find (child_groups g) p of Some c \<Rightarrow> c | None \<Rightarrow> empty_group"
  have "group_ok ?c" using Cons.prems group_ok_child by (auto split: option.splits)
  then have IH: "var_at l (ensure_path ps ?c) = var_at l ?c" for l by (rule Cons.IH)
  show ?case
  proof (cases qs)
    case Nil
    then show ?thesis by (simp add: k var_at_simps)
  next
    case (Cons q qs')
    show ?thesis unfolding k Cons var_at_simps ensure_path.simps find_child_assign [OF \<open>group_ok g\<close>]
      using IH [of "(qs', v)"] by (cases "std_find (child_groups g) p") (auto simp: var_at_empty)
  qed
qed simp

subsection \<open>Changes of one group\<close>

lemma modify_at_const: "group_at ps g = Some c \<Longrightarrow> modify_at ps (\<lambda>_. f c) g = modify_at ps f g"
  by (induction ps arbitrary: g) (auto split: option.splits)

lemma modify_at_vars_ok:
  assumes "group_ok g" "\<And>c. std_map_ok (vars c) \<Longrightarrow> std_map_ok (f (vars c))"
  shows "group_ok (modify_at ps (\<lambda>c. set_vars (f (vars c)) c) g)"
  using assms(1)
proof (induction ps arbitrary: g)
  case Nil
  then show ?case using assms(2) [of g] by (simp add: group_ok_set_vars group_ok_iff [of g])
next
  case (Cons p ps)
  then show ?case using group_ok_child by (auto simp: group_ok_set_children split: option.splits)
qed

lemma var_at_modify:
  assumes "group_ok g"
  shows "var_at (qs, v) (modify_at ps (\<lambda>c. set_vars (f (vars c)) c) g) =
    (if qs = ps then Option.bind (group_at ps g) (\<lambda>c. std_find (f (vars c)) v) else var_at (qs, v) g)"
  using assms
proof (induction ps arbitrary: g qs)
  case Nil
  then show ?case by (cases qs) (auto simp: var_at_simps)
next
  case (Cons p ps)
  show ?case
  proof (cases "std_find (child_groups g) p")
    case None
    then show ?thesis by (auto simp: var_at_simps)
  next
    case (Some c)
    then have ok: "group_ok c" using Cons.prems group_ok_child by blast
    show ?thesis
    proof (cases qs)
      case Nil
      then show ?thesis using Some by (simp add: var_at_simps)
    next
      case (Cons q qs')
      then show ?thesis
        using Some Cons.IH [OF ok, of qs'] find_child_assign [OF Cons.prems] by (auto simp: var_at_simps)
    qed
  qed
qed

subsection \<open>The operations on variables\<close>

abbreviation no_group :: "'a result" where
  "no_group \<equiv> Inl (Exception ''Child group not found'')"

lemma Has_Variables_open_eq:
  "Has_Variables_open name g =
    (case group_at (fst (resolve name)) g of
       None \<Rightarrow> no_group
     | Some c \<Rightarrow> (case std_find (vars c) (snd (resolve name)) of
         None \<Rightarrow> Inl (Exception ''Variable not found.'') | Some a \<Rightarrow> Inr a))"
proof (cases name rule: splitGroupVar_cases)
  case 1
  then show ?thesis by (subst Has_Variables_open.simps) (simp add: resolve_simps)
next
  case (2 a b)
  have "Has_Variables_open b c = (case std_find (vars c) b of
      None \<Rightarrow> Inl (Exception ''Variable not found.'') | Some a \<Rightarrow> Inr a)" for c
    using 2(3) by (subst Has_Variables_open.simps) (simp add: splitGroupVar_simps)
  with 2 show ?thesis
    by (subst Has_Variables_open.simps) (simp add: resolve_simps Group_open_eq split: option.split)
qed

lemma Has_Variables_open_iff: "Has_Variables_open name g = Inr a \<longleftrightarrow> var_at (resolve name) g = Some a"
  by (auto simp: Has_Variables_open_eq var_at_def split: option.splits)

lemma Has_Variables_exists_iff: "Has_Variables_exists name g \<longleftrightarrow> var_at (resolve name) g \<noteq> None"
proof (cases name rule: splitGroupVar_cases)
  case 1
  then show ?thesis by (subst Has_Variables_exists.simps) (simp add: resolve_simps var_at_simps)
next
  case (2 a b)
  have "Has_Variables_exists b c \<longleftrightarrow> std_find (vars c) b \<noteq> None" for c
    using 2(3) by (subst Has_Variables_exists.simps) (simp add: splitGroupVar_simps)
  with 2 show ?thesis
    by (subst Has_Variables_exists.simps) (auto simp: resolve_simps Group_exists_eq Group_open_eq var_at_def split: option.split)
qed

definition insert_var :: "string list \<times> string \<Rightarrow> nat \<Rightarrow> group \<Rightarrow> group" where
  "insert_var k a g =
     modify_at (fst k) (\<lambda>c. set_vars (std_insert (snd k) a (vars c)) c) (ensure_path (fst k) g)"

lemma Has_Variables_create_eq:
  assumes "group_ok g"
  shows "Has_Variables_create name ty dims max_dims params (g, h) =
    bind_result (Variable dims max_dims ty params) (\<lambda>v. Inr (length h, insert_var (resolve name) (length h) g, h @ [v]))"
proof -
  have flat: "Has_Variables_create b ty dims max_dims params (c, h) =
      bind_result (Variable dims max_dims ty params) (\<lambda>v. Inr (length h, set_vars (std_insert b (length h) (vars c)) c, h @ [v]))"
    if "CHR ''/'' \<notin> set b" for b c
    using that by (subst Has_Variables_create.simps) (simp add: splitGroupVar_simps)
  show ?thesis
  proof (cases name rule: splitGroupVar_cases)
    case 1
    then show ?thesis using flat [of name g] by (simp add: insert_var_def resolve_simps)
  next
    case (2 a b)
    from ensure_path_exists [OF assms, of "components a"] obtain c where
      c: "group_at (components a) (ensure_path (components a) g) = Some c" by blast
    show ?thesis
    proof (cases "Variable dims max_dims ty params")
      case (Inl e)
      with 2 c show ?thesis
        by (subst Has_Variables_create.simps) (simp add: Group_create_eq flat)
    next
      case (Inr v)
      with 2 c show ?thesis
        using modify_at_const [OF c, of "\<lambda>c. set_vars (std_insert b (length h) (vars c)) c"]
        by (subst Has_Variables_create.simps) (simp add: Group_create_eq flat insert_var_def resolve_simps)
    qed
  qed
qed

lemma Has_Variables_remove_eq:
  "Has_Variables_remove name g =
    (let (ps, v) = resolve name
     in case group_at ps g of None \<Rightarrow> no_group
        | Some _ \<Rightarrow> Inr (modify_at ps (\<lambda>c. set_vars (std_erase v (vars c)) c) g))"
proof (cases name rule: splitGroupVar_cases)
  case 1
  then show ?thesis by (subst Has_Variables_remove.simps) (simp add: resolve_simps)
next
  case (2 a b)
  have flat: "Has_Variables_remove b c = Inr (set_vars (std_erase b (vars c)) c)" for c
    using 2(3) by (subst Has_Variables_remove.simps) (simp add: splitGroupVar_simps)
  show ?thesis
  proof (cases "group_at (components a) g")
    case None
    with 2 show ?thesis by (subst Has_Variables_remove.simps) (simp add: resolve_simps Group_open_eq)
  next
    case (Some c)
    with 2 modify_at_const [OF Some, of "\<lambda>c. set_vars (std_erase b (vars c)) c"] show ?thesis
      by (subst Has_Variables_remove.simps) (simp add: resolve_simps Group_open_eq flat)
  qed
qed

lemma Has_Variables_rename_eq:
  "Has_Variables_rename oldName newName g =
    bind_result (Has_Variables_open oldName g) (\<lambda>a.
      Inr (modify_at (fst (resolve oldName))
        (\<lambda>c. set_vars (std_insert newName a (std_erase (snd (resolve oldName)) (vars c))) c) g))"
proof (cases oldName rule: splitGroupVar_cases)
  case 1
  then show ?thesis by (subst Has_Variables_rename.simps) (simp add: resolve_simps)
next
  case (2 a b)
  have flat: "Has_Variables_rename b newName c =
      bind_result (Has_Variables_open b c) (\<lambda>x. Inr (set_vars (std_insert newName x (std_erase b (vars c))) c))" for c
    using 2(3) by (subst Has_Variables_rename.simps) (simp add: splitGroupVar_simps)
  show ?thesis
  proof (cases "group_at (components a) g")
    case None
    with 2 show ?thesis
      by (subst Has_Variables_rename.simps) (simp add: resolve_simps Group_open_eq Has_Variables_open_eq)
  next
    case (Some c)
    then have op: "Has_Variables_open oldName g = Has_Variables_open b c"
      using 2 by (simp add: Has_Variables_open_eq resolve_simps)
    show ?thesis
    proof (cases "Has_Variables_open b c")
      case (Inl e)
      with 2 Some op show ?thesis by (subst Has_Variables_rename.simps) (simp add: Group_open_eq flat)
    next
      case (Inr x)
      with 2 Some op modify_at_const [OF Some, of "\<lambda>c. set_vars (std_insert newName x (std_erase b (vars c))) c"] show ?thesis
        by (subst Has_Variables_rename.simps) (simp add: Group_open_eq flat resolve_simps)
    qed
  qed
qed

lemma insert_var_ok: "group_ok g \<Longrightarrow> group_ok (insert_var k a g)"
  unfolding insert_var_def by (intro modify_at_vars_ok ensure_path_ok) auto

lemma var_at_insert_var:
  assumes "group_ok g"
  shows "var_at k' (insert_var k a g) = (if k' = k \<and> var_at k g = None then Some a else var_at k' g)"
proof -
  obtain ps v qs w where k: "k = (ps, v)" "k' = (qs, w)" by (cases k; cases k') auto
  from ensure_path_exists [OF assms, of ps] obtain c where c: "group_at ps (ensure_path ps g) = Some c" by blast
  have ok: "group_ok (ensure_path ps g)" using assms by (rule ensure_path_ok)
  have "std_map_ok (vars c)"
  proof -
    have "group_at qs d = Some e \<Longrightarrow> group_ok d \<Longrightarrow> group_ok e" for qs d e
      by (induction qs arbitrary: d) (auto split: bind_splits dest: group_ok_child)
    from this [OF c ok] show ?thesis by (simp add: group_ok_iff [of c])
  qed
  moreover have "var_at (ps, w) g = std_find (vars c) w" for w
    using var_at_ensure_path [OF assms, of "(ps, w)" ps] c by (simp add: var_at_def)
  ultimately show ?thesis
    using var_at_modify [OF ok, of qs w ps "std_insert v a"] c var_at_ensure_path [OF assms]
    by (auto simp: insert_var_def k std_find_insert)
qed

lemma var_at_erase:
  assumes "group_ok g"
  shows "var_at k' (modify_at (fst k) (\<lambda>c. set_vars (std_erase (snd k) (vars c)) c) g) = (if k' = k then None else var_at k' g)"
  using var_at_modify [OF assms, of "fst k'" "snd k'" "fst k" "std_erase (snd k)"]
  by (cases k; cases k') (auto simp: std_find_erase var_at_def split: bind_splits)

section \<open>The contract of a namespace of variables\<close>

locale variable_namespace =
  fixes ok :: "'s \<Rightarrow> bool" and lookup :: "'s \<Rightarrow> 'k \<Rightarrow> nat option" and place :: "string \<Rightarrow> 'k"
    and vexists :: "string \<Rightarrow> 's \<Rightarrow> bool" and vopen :: "string \<Rightarrow> 's \<Rightarrow> nat result"
    and vcreate :: "string \<Rightarrow> 'p \<Rightarrow> 's \<Rightarrow> (nat \<times> 's) result" and vremove :: "string \<Rightarrow> 's \<Rightarrow> 's result"
  assumes exists_iff: "vexists n s \<longleftrightarrow> lookup s (place n) \<noteq> None"
    and open_iff: "vopen n s = Inr a \<longleftrightarrow> lookup s (place n) = Some a"
    and create_ok: "ok s \<Longrightarrow> vcreate n p s = Inr (a, s') \<Longrightarrow> ok s'"
    and create_lookup: "ok s \<Longrightarrow> vcreate n p s = Inr (a, s') \<Longrightarrow>
          lookup s' k = (if k = place n \<and> lookup s k = None then Some a else lookup s k)"
    and remove_ok: "ok s \<Longrightarrow> vremove n s = Inr s' \<Longrightarrow> ok s'"
    and remove_lookup: "ok s \<Longrightarrow> vremove n s = Inr s' \<Longrightarrow> lookup s' k = (if k = place n then None else lookup s k)"
begin

lemma create_open: "ok s \<Longrightarrow> \<not> vexists n s \<Longrightarrow> vcreate n p s = Inr (a, s') \<Longrightarrow> vopen n s' = Inr a"
  by (simp add: exists_iff open_iff create_lookup)

lemma create_keeps: "ok s \<Longrightarrow> vopen m s = Inr b \<Longrightarrow> vcreate n p s = Inr (a, s') \<Longrightarrow> vopen m s' = Inr b"
  by (auto simp: open_iff create_lookup)

lemma create_exists: "ok s \<Longrightarrow> vcreate n p s = Inr (a, s') \<Longrightarrow> vexists m s' \<longleftrightarrow> place m = place n \<or> vexists m s"
  by (auto simp: exists_iff create_lookup)

lemma remove_exists: "ok s \<Longrightarrow> vremove n s = Inr s' \<Longrightarrow> vexists m s' \<longleftrightarrow> place m \<noteq> place n \<and> vexists m s"
  by (auto simp: exists_iff remove_lookup)

lemma remove_keeps: "ok s \<Longrightarrow> vremove n s = Inr s' \<Longrightarrow> place m \<noteq> place n \<Longrightarrow> vopen m s' = Inr b \<longleftrightarrow> vopen m s = Inr b"
  by (simp add: open_iff remove_lookup)

lemma create_remove_lookup:
  "ok s \<Longrightarrow> \<not> vexists n s \<Longrightarrow> vcreate n p s = Inr (a, s') \<Longrightarrow> vremove n s' = Inr s'' \<Longrightarrow> lookup s'' = lookup s"
  by (rule ext) (auto simp: exists_iff create_lookup remove_lookup [OF create_ok])

end

text \<open>A state of the engine: the root group and the heap.\<close>

definition store_create ::
    "string \<Rightarrow> obs_type \<times> nat list \<times> int list \<times> var_create_params \<Rightarrow> group \<times> heap \<Rightarrow> (nat \<times> group \<times> heap) result" where
  "store_create name p gh = (let (ty, dims, max_dims, params) = p in Has_Variables_create name ty dims max_dims params gh)"

definition store_remove :: "string \<Rightarrow> group \<times> heap \<Rightarrow> (group \<times> heap) result" where
  "store_remove name gh = bind_result (Has_Variables_remove name (fst gh)) (\<lambda>g. Inr (g, snd gh))"

lemma store_create_cases:
  assumes "group_ok g" "store_create n (ty, dims, max_dims, params) (g, h) = Inr (a, s')"
  obtains v where "Variable dims max_dims ty params = Inr v" "a = length h"
    "s' = (insert_var (resolve n) (length h) g, h @ [v])"
  using assms(2) by (auto simp: store_create_def Has_Variables_create_eq [OF assms(1)])

lemma store_create_result:
  assumes "group_ok (fst s)" "store_create n p s = Inr (a, s')"
  shows "\<exists>v. a = length (snd s) \<and> s' = (insert_var (resolve n) (length (snd s)) (fst s), snd s @ [v])"
proof -
  obtain g h ty dims max_dims params where eq: "s = (g, h)" "p = (ty, dims, max_dims, params)" by (metis prod.collapse)
  with assms show ?thesis by (auto elim: store_create_cases)
qed

lemma store_remove_cases:
  assumes "store_remove n (g, h) = Inr s'"
  obtains "s' = (modify_at (fst (resolve n)) (\<lambda>c. set_vars (std_erase (snd (resolve n)) (vars c)) c) g, h)"
  using assms by (auto simp: store_remove_def Has_Variables_remove_eq split_def Let_def split: option.splits)

interpretation hv: variable_namespace "\<lambda>s. group_ok (fst s)" "\<lambda>s k. var_at k (fst s)" resolve
  "\<lambda>n s. Has_Variables_exists n (fst s)" "\<lambda>n s. Has_Variables_open n (fst s)" store_create store_remove
proof
  fix n a k p and s s' :: "group \<times> heap"
  show "Has_Variables_exists n (fst s) \<longleftrightarrow> var_at (resolve n) (fst s) \<noteq> None" by (rule Has_Variables_exists_iff)
  show "Has_Variables_open n (fst s) = Inr a \<longleftrightarrow> var_at (resolve n) (fst s) = Some a" by (rule Has_Variables_open_iff)
  show "group_ok (fst s')" if "group_ok (fst s)" "store_create n p s = Inr (a, s')"
    using store_create_result [OF that] that(1) by (auto simp: insert_var_ok)
  show "var_at k (fst s') = (if k = resolve n \<and> var_at k (fst s) = None then Some a else var_at k (fst s))"
    if "group_ok (fst s)" "store_create n p s = Inr (a, s')"
    using store_create_result [OF that] that(1) by (auto simp: var_at_insert_var)
  show "group_ok (fst s')" if "group_ok (fst s)" "store_remove n s = Inr s'"
    using that by (cases s) (auto elim!: store_remove_cases intro!: modify_at_vars_ok)
  show "var_at k (fst s') = (if k = resolve n then None else var_at k (fst s))"
    if "group_ok (fst s)" "store_remove n s = Inr s'"
    using that by (cases s) (auto elim!: store_remove_cases simp: var_at_erase)
qed

section \<open>Reachable stores\<close>

inductive reachable_store :: "group \<times> heap \<Rightarrow> bool" where
  root: "reachable_store (createRootGroup, [])"
| create: "reachable_store s \<Longrightarrow> store_create n p s = Inr (a, s') \<Longrightarrow> reachable_store s'"
| create_group: "reachable_store (g, h) \<Longrightarrow> Group_create n g = (g', path) \<Longrightarrow> reachable_store (g', h)"
| remove: "reachable_store s \<Longrightarrow> store_remove n s = Inr s' \<Longrightarrow> reachable_store s'"

definition slash_free :: "string \<Rightarrow> bool" where
  "slash_free s \<longleftrightarrow> CHR ''/'' \<notin> set s"

text \<open>The maps are ordered, no stored name has a slash, and every address is on the heap.\<close>

definition store_inv :: "group \<times> heap \<Rightarrow> bool" where
  "store_inv s \<longleftrightarrow> group_ok (fst s) \<and>
     (\<forall>k a. var_at k (fst s) = Some a \<longrightarrow> list_all slash_free (fst k) \<and> slash_free (snd k) \<and> a < length (snd s))"

lemma components_slash_free: "list_all slash_free (components path)"
proof (induction path rule: components.induct)
  case (1 path)
  show ?case
  proof (cases "str_find (CHR ''/'') path")
    case None
    moreover from this have "slash_free path" by (simp add: str_find_None slash_free_def)
    ultimately show ?thesis by (subst components.simps) simp
  next
    case (Some pos)
    have "slash_free (take pos path)" using str_find_Some [OF Some] by (simp add: slash_free_def)
    with 1 Some show ?thesis by (subst components.simps) simp
  qed
qed

lemma resolve_slash_free: "list_all slash_free (fst (resolve n)) \<and> slash_free (snd (resolve n))"
  by (cases n rule: splitGroupVar_cases) (auto simp: resolve_simps components_slash_free slash_free_def)

lemma reachable_store_inv: "reachable_store s \<Longrightarrow> store_inv s"
proof (induction rule: reachable_store.induct)
  case root
  then show ?case by (simp add: store_inv_def createRootGroup_def var_at_empty)
next
  case (create s n p a s')
  have ok: "group_ok (fst s)" using create.IH by (simp add: store_inv_def)
  obtain ps w where r: "resolve n = (ps, w)" by (cases "resolve n")
  from store_create_result [OF ok create.hyps(2)] obtain v where
    "s' = (insert_var (resolve n) (length (snd s)) (fst s), snd s @ [v])" by blast
  then show ?case
    using create.IH resolve_slash_free [of n] r
    by (auto simp: store_inv_def var_at_insert_var insert_var_ok less_Suc_eq split: if_splits)
next
  case (create_group g h n g' path)
  then show ?case by (auto simp: store_inv_def Group_create_eq ensure_path_ok var_at_ensure_path)
next
  case (remove s n s')
  have ok: "group_ok (fst s)" using remove.IH by (simp add: store_inv_def)
  have "snd s' = snd s" using remove.hyps(2) by (cases s) (auto elim: store_remove_cases)
  then show ?case
    using remove.IH hv.remove_ok [OF ok remove.hyps(2)] hv.remove_lookup [OF ok remove.hyps(2)]
    by (auto simp: store_inv_def split: if_splits)
qed

end
