(* ===== verification/Ioda_Listing.thy ===== *)
theory Ioda_Listing
  imports Ioda_Group
begin

text \<open>
  The recursive listing of the in-memory engine (\<open>Group::listObjects\<close>) lists exactly the names for which
  \<open>Has_Variables::exists\<close> is true, in every store reachable by creating and removing, and the
  properties of the group hierarchy.
\<close>

section \<open>Listing\<close>

definition path_name :: "string list \<times> string \<Rightarrow> string" where
  "path_name k = concat (map (\<lambda>p. p @ ''/'') (fst k)) @ snd k"

lemma path_name_simps: "path_name ([], v) = v" "path_name (p # ps, v) = p @ CHR ''/'' # path_name (ps, v)"
  by (simp_all add: path_name_def)


lemma components_path_name: "list_all slash_free ps \<Longrightarrow> slash_free v \<Longrightarrow> components (path_name (ps, v)) = ps @ [v]"
  by (induction ps) (simp_all add: path_name_simps components_simps slash_free_def)

lemma path_name_components: "path_name (butlast (components s), last (components s)) = s \<and> components s \<noteq> []"
proof (induction s rule: components.induct)
  case (1 s)
  show ?case
  proof (cases s rule: splitFirstLevel_cases)
    case 1
    then show ?thesis by (simp add: components_simps path_name_simps)
  next
    case (2 a b)
    then have "str_find (CHR ''/'') s = Some (length a)" by (simp add: str_find_append)
    with "1.IH" [of "length a"] 2 show ?thesis by (auto simp: components_simps path_name_simps)
  qed
qed

lemma path_name_append: "path_name (ps @ [p], v) = path_name (ps, p) @ CHR ''/'' # v"
  by (simp add: path_name_def)

lemma path_name_resolve: "path_name (resolve n) = n"
proof (cases n rule: splitGroupVar_cases)
  case 1
  then show ?thesis by (simp add: resolve_simps path_name_simps)
next
  case (2 a b)
  have "components a = butlast (components a) @ [last (components a)]" using path_name_components [of a] by simp
  then have "path_name (components a, b) = path_name (butlast (components a), last (components a)) @ CHR ''/'' # b"
    by (metis path_name_append)
  also have "\<dots> = a @ CHR ''/'' # b" using path_name_components [of a] by simp
  finally show ?thesis using 2 by (simp add: resolve_simps)
qed

lemma resolve_path_name:
  assumes "list_all slash_free ps" "slash_free v"
  shows "resolve (path_name (ps, v)) = (ps, v)"
proof (cases ps rule: rev_cases)
  case Nil
  then show ?thesis using assms(2) by (simp add: path_name_simps resolve_simps slash_free_def)
next
  case (snoc qs q)
  then have "path_name (ps, v) = path_name (qs, q) @ CHR ''/'' # v" by (simp add: path_name_append)
  then show ?thesis using assms snoc by (simp add: resolve_simps slash_free_def components_path_name)
qed

fun variable_names :: "string \<Rightarrow> group \<Rightarrow> string list"
  and child_variable_names :: "string \<Rightarrow> (string \<times> group) list \<Rightarrow> string list" where
  "variable_names prefix (Group cs vs as) = map (\<lambda>v. prefix @ v) (map fst vs) @ child_variable_names prefix cs"
| "child_variable_names prefix [] = []"
| "child_variable_names prefix ((n, c) # cs) = variable_names (prefix @ n @ ''/'') c @ child_variable_names prefix cs"

lemma listObjects_variable_names:
  "snd (Group_listObjects OT_Variable True prefix g res)
     = Some ((case snd res of None \<Rightarrow> [] | Some xs \<Rightarrow> xs) @ variable_names prefix g)"
  "snd res = Some xs \<Longrightarrow> snd (Group_listChildren OT_Variable prefix cs res) = Some (xs @ child_variable_names prefix cs)"
proof (induction prefix g and prefix cs arbitrary: res and res xs rule: variable_names_child_variable_names.induct)
  case (1 prefix cs vs as)
  show ?case by (simp add: Let_def push_names_def 1)
next
  case (2 prefix)
  then show ?case by simp
next
  case (3 prefix n c cs)
  then show ?case by simp
qed

lemma variable_names_set:
  "group_ok g \<Longrightarrow> set (variable_names prefix g) = {prefix @ path_name k | k. var_at k g \<noteq> None}"
  "list_all (\<lambda>e. group_ok (snd e)) cs \<Longrightarrow> set (child_variable_names prefix cs) =
    {prefix @ path_name (n # ps, v) | n ps v c. (n, c) \<in> set cs \<and> var_at (ps, v) c \<noteq> None}"
proof (induction prefix g and prefix cs rule: variable_names_child_variable_names.induct)
  case (1 prefix cs vs as)
  then have "distinct (map fst cs)" by (simp add: std_map_ok_def std_keys_def strict_sorted_iff)
  then have cs: "map_of cs p = Some c \<longleftrightarrow> (p, c) \<in> set cs" for p c by (rule map_of_eq_Some_iff)
  have split: "(\<exists>k. x = prefix @ path_name k \<and> var_at k (Group cs vs as) \<noteq> None) \<longleftrightarrow>
      (\<exists>v \<in> fst ` set vs. x = prefix @ v) \<or>
      (\<exists>n ps v c. x = prefix @ path_name (n # ps, v) \<and> (n, c) \<in> set cs \<and> var_at (ps, v) c \<noteq> None)" (is "?l \<longleftrightarrow> ?r1 \<or> ?r2") for x
  proof
    assume ?l
    then obtain ps v where k: "x = prefix @ path_name (ps, v)" "var_at (ps, v) (Group cs vs as) \<noteq> None" by auto
    then show "?r1 \<or> ?r2"
    proof (cases ps)
      case Nil
      with k have ?r1 by (auto simp: var_at_simps path_name_simps map_of_eq_None_iff)
      then show ?thesis ..
    next
      case (Cons p qs)
      with k obtain c where "map_of cs p = Some c" "var_at (qs, v) c \<noteq> None" by (auto simp: var_at_simps split: bind_splits)
      then have ?r2
        using k(1) Cons by (intro exI [of _ p] exI [of _ qs] exI [of _ v] exI [of _ c]) (simp add: cs [symmetric])
      then show ?thesis ..
    qed
  next
    assume "?r1 \<or> ?r2"
    then show ?l
    proof
      assume ?r1
      then obtain v where "v \<in> fst ` set vs" "x = prefix @ v" by blast
      then show ?l by (intro exI [of _ "([], v)"]) (auto simp: var_at_simps path_name_simps map_of_eq_None_iff)
    next
      assume ?r2
      then obtain n ps v c where "x = prefix @ path_name (n # ps, v)" "(n, c) \<in> set cs" "var_at (ps, v) c \<noteq> None" by blast
      then show ?l using cs [of n c] by (intro exI [of _ "(n # ps, v)"]) (auto simp: var_at_simps)
    qed
  qed
  have "set (child_variable_names prefix cs) =
      {prefix @ path_name (n # ps, v) | n ps v c. (n, c) \<in> set cs \<and> var_at (ps, v) c \<noteq> None}"
    using 1 by simp
  then have "x \<in> set (variable_names prefix (Group cs vs as)) \<longleftrightarrow> (\<exists>v \<in> fst ` set vs. x = prefix @ v) \<or>
      (\<exists>n ps v c. x = prefix @ path_name (n # ps, v) \<and> (n, c) \<in> set cs \<and> var_at (ps, v) c \<noteq> None)" for x
    by (simp add: image_iff)
  then show ?case unfolding set_eq_iff mem_Collect_eq split by blast
next
  case (2 prefix)
  then show ?case by simp
next
  case (3 prefix n c cs)
  then have "set (variable_names (prefix @ n @ ''/'') c) = {prefix @ path_name (n # ps, v) | ps v. var_at (ps, v) c \<noteq> None}"
    by (simp add: split_paired_Ex path_name_simps)
  moreover have "set (child_variable_names prefix cs) =
      {prefix @ path_name (n # ps, v) | n ps v c. (n, c) \<in> set cs \<and> var_at (ps, v) c \<noteq> None}"
    using 3 by simp
  ultimately show ?case
    by (simp add: conj_disj_distribR conj_disj_distribL ex_disj_distrib Collect_disj_eq)
qed

section \<open>Properties\<close>

lemma resolve_inj: "resolve m = resolve n \<longleftrightarrow> m = n"
  by (metis path_name_resolve)

lemma reachable_ok: "reachable_store (g, h) \<Longrightarrow> group_ok g"
  using reachable_store_inv [of "(g, h)"] by (simp add: store_inv_def)

text \<open>The recursive listing of a well-formed store.\<close>

lemma listing_names:
  assumes "store_inv (g, h)"
  shows "Backend_listObjects OT_Variable True g = (None, Some (variable_names '''' g))"
    "set (variable_names '''' g) = {n. Has_Variables_exists n g}"
proof -
  show "Backend_listObjects OT_Variable True g = (None, Some (variable_names '''' g))"
    using listObjects_variable_names(1) [of "''''" g "(None, None)"] by (simp add: Backend_listObjects_def Let_def)
  have inv: "list_all slash_free ps \<and> slash_free v" if "var_at (ps, v) g \<noteq> None" for ps v
    using assms that by (auto simp: store_inv_def)
  have "group_ok g" using assms by (simp add: store_inv_def)
  then have "set (variable_names '''' g) = {path_name k | k. var_at k g \<noteq> None}"
    using variable_names_set(1) [of g "''''"] by simp
  also have "\<dots> = {n. var_at (resolve n) g \<noteq> None}"
  proof (intro set_eqI iffI)
    fix n assume "n \<in> {path_name k | k. var_at k g \<noteq> None}"
    then obtain ps v where "n = path_name (ps, v)" "var_at (ps, v) g \<noteq> None" by auto
    with inv [of ps v] show "n \<in> {n. var_at (resolve n) g \<noteq> None}" by (simp add: resolve_path_name)
  next
    fix n assume "n \<in> {n. var_at (resolve n) g \<noteq> None}"
    then show "n \<in> {path_name k | k. var_at k g \<noteq> None}"
      using path_name_resolve [of n] by (intro CollectI exI [of _ "resolve n"]) simp
  qed
  finally show "set (variable_names '''' g) = {n. Has_Variables_exists n g}" by (simp add: Has_Variables_exists_iff)
qed

text \<open>C21. In every store that can be reached by creating groups and creating and removing variables, the
  recursive listing of variables lists exactly the names for which \<open>exists()\<close> is true.\<close>

theorem listObjects_exists:
  assumes "reachable_store (g, h)"
  shows "\<exists>xs. Backend_listObjects OT_Variable True g = (None, Some xs) \<and> set xs = {n. Has_Variables_exists n g}"
  using listing_names [OF reachable_store_inv [OF assms]] by blast

lemma reachable_example:
  obtains g v where "Variable [2] [2] int_type \<lparr> fvdata_set = False, fill_value = [] \<rparr> = Inr v"
    "store_create ''ObsValue/t'' (int_type, [2], [2], \<lparr> fvdata_set = False, fill_value = [] \<rparr>) (createRootGroup, []) = Inr (0, g, [v])"
    "g = Group [(''ObsValue'', Group [] [(''t'', 0)] [])] [] []" "reachable_store (g, [v])"
proof -
  let ?p = "\<lparr> fvdata_set = False, fill_value = [] \<rparr>" and ?g = "Group [(''ObsValue'', Group [] [(''t'', 0)] [])] [] []"
  obtain v where v: "Variable [2] [2] int_type ?p = Inr v" using int_variable_created [of "[2]" "[2]"] by auto
  have "resolve ''ObsValue/t'' = ([''ObsValue''], ''t'')"
    using resolve_path_name [of "[''ObsValue'']" "''t''"] by (simp add: path_name_def slash_free_def)
  then have "store_create ''ObsValue/t'' (int_type, [2], [2], ?p) (createRootGroup, []) = Inr (0, ?g, [v])"
    using Has_Variables_create_eq [of createRootGroup "''ObsValue/t''" int_type "[2]" "[2]" ?p "[]"] v
    by (simp add: store_create_def createRootGroup_def insert_var_def) (simp add: empty_group_def)
  then show ?thesis using that [OF v _ refl] reachable_store.create [OF reachable_store.root] by blast
qed

theorem listObjects_exists_witness:
  "\<exists>g h xs. reachable_store (g, h) \<and> Backend_listObjects OT_Variable True g = (None, Some xs) \<and> ''ObsValue/t'' \<in> set xs"
proof -
  obtain g v where gv: "store_create ''ObsValue/t'' (int_type, [2], [2], \<lparr> fvdata_set = False, fill_value = [] \<rparr>) (createRootGroup, [])
      = Inr (0, g, [v])" "reachable_store (g, [v])" by (rule reachable_example)
  then have "Has_Variables_exists ''ObsValue/t'' g"
    using hv.create_exists [of "(createRootGroup, [])", OF _ gv(1)] by (simp add: createRootGroup_def)
  with listObjects_exists [OF gv(2)] gv(2) show ?thesis by blast
qed

text \<open>C22. Creating a variable under a new name, intermediate groups included, succeeds whenever the variable itself
  can be built; it makes the name open the new variable, leaves every other name as it was, and creates no other name.\<close>

theorem Has_Variables_create_open:
  assumes "reachable_store (g, h)" "\<not> Has_Variables_exists name g" "Variable dims max_dims ty params = Inr v"
  shows "\<exists>g'. Has_Variables_create name ty dims max_dims params (g, h) = Inr (length h, g', h @ [v]) \<and>
    Has_Variables_open name g' = Inr (length h) \<and>
    (\<forall>m a. Has_Variables_open m g = Inr a \<longrightarrow> Has_Variables_open m g' = Inr a) \<and>
    (\<forall>m. Has_Variables_exists m g' \<longleftrightarrow> m = name \<or> Has_Variables_exists m g)"
proof -
  have ok: "group_ok g" using assms(1) by (rule reachable_ok)
  let ?g' = "insert_var (resolve name) (length h) g"
  have c: "Has_Variables_create name ty dims max_dims params (g, h) = Inr (length h, ?g', h @ [v])"
    using assms(3) by (simp add: Has_Variables_create_eq [OF ok])
  then have s: "store_create name (ty, dims, max_dims, params) (g, h) = Inr (length h, ?g', h @ [v])"
    by (simp add: store_create_def)
  show ?thesis
    using c hv.create_open [OF _ _ s] hv.create_keeps [OF _ _ s] hv.create_exists [OF _ s] ok assms(2)
    by (auto simp: resolve_inj)
qed

theorem Has_Variables_create_open_witness:
  "\<exists>g h g' h'. Has_Variables_create ''MetaData/x'' int_type [2] [2] \<lparr> fvdata_set = False, fill_value = [] \<rparr> (g, h) = Inr (1, g', h') \<and>
     Has_Variables_open ''ObsValue/t'' g = Inr 0 \<and> Has_Variables_open ''MetaData/x'' g' = Inr 1 \<and>
     Has_Variables_open ''ObsValue/t'' g' = Inr 0"
proof -
  obtain g v where gv: "Variable [2] [2] int_type \<lparr> fvdata_set = False, fill_value = [] \<rparr> = Inr v"
    "store_create ''ObsValue/t'' (int_type, [2], [2], \<lparr> fvdata_set = False, fill_value = [] \<rparr>) (createRootGroup, []) = Inr (0, g, [v])"
    "reachable_store (g, [v])" by (rule reachable_example)
  have op: "Has_Variables_open ''ObsValue/t'' g = Inr 0"
    using hv.create_open [of "(createRootGroup, [])", OF _ _ gv(2)]
    by (simp add: createRootGroup_def Has_Variables_exists_iff var_at_empty)
  have ex: "Has_Variables_exists m g \<longleftrightarrow> m = ''ObsValue/t''" for m
    using hv.create_exists [of "(createRootGroup, [])", OF _ gv(2)]
    by (simp add: createRootGroup_def Has_Variables_exists_iff var_at_empty resolve_inj)
  have "\<not> Has_Variables_exists ''MetaData/x'' g" by (simp add: ex)
  from Has_Variables_create_open [OF gv(3) this gv(1)] obtain g' where
    "Has_Variables_create ''MetaData/x'' int_type [2] [2] \<lparr> fvdata_set = False, fill_value = [] \<rparr> (g, [v]) = Inr (length [v], g', [v] @ [v])"
    "Has_Variables_open ''MetaData/x'' g' = Inr (length [v])"
    "\<forall>m a. Has_Variables_open m g = Inr a \<longrightarrow> Has_Variables_open m g' = Inr a" by blast
  with op show ?thesis by (intro exI [of _ g] exI [of _ "[v]"] exI [of _ g'] exI [of _ "[v] @ [v]"]) simp
qed

text \<open>C23. Removing a variable makes its name, and no other, disappear; removing a variable that was just created
  leads back to the names of before.\<close>

theorem Has_Variables_create_remove:
  assumes "reachable_store (g, h)" "\<not> Has_Variables_exists name g" "Variable dims max_dims ty params = Inr v"
    "Has_Variables_create name ty dims max_dims params (g, h) = Inr (a, g', h')"
  shows "\<exists>g''. Has_Variables_remove name g' = Inr g'' \<and>
    (\<forall>m. Has_Variables_exists m g'' \<longleftrightarrow> Has_Variables_exists m g) \<and>
    (\<forall>m b. Has_Variables_open m g'' = Inr b \<longleftrightarrow> Has_Variables_open m g = Inr b)"
proof -
  have ok: "group_ok g" using assms(1) by (rule reachable_ok)
  have s: "store_create name (ty, dims, max_dims, params) (g, h) = Inr (a, g', h')"
    using assms(4) by (simp add: store_create_def)
  have "Has_Variables_open name g' = Inr a" using hv.create_open [OF _ _ s] ok assms(2) by simp
  then have "group_at (fst (resolve name)) g' \<noteq> None"
    by (auto simp: Has_Variables_open_iff var_at_def split: bind_splits)
  then obtain g'' where r: "Has_Variables_remove name g' = Inr g''"
    by (auto simp: Has_Variables_remove_eq split_def Let_def)
  then have "store_remove name (g', h') = Inr (g'', h')" by (simp add: store_remove_def)
  then have "var_at k g'' = var_at k g" for k
    using fun_cong [OF hv.create_remove_lookup [OF _ _ s], of "(g'', h')"] ok assms(2) by simp
  then show ?thesis using r by (simp add: Has_Variables_exists_iff Has_Variables_open_iff)
qed

theorem Has_Variables_create_remove_witness:
  "\<exists>g g' h'. Has_Variables_create ''ObsValue/t'' int_type [2] [2] \<lparr> fvdata_set = False, fill_value = [] \<rparr> (createRootGroup, []) = Inr (0, g', h') \<and>
     Has_Variables_remove ''ObsValue/t'' g' = Inr g \<and> (\<forall>m. \<not> Has_Variables_exists m g)"
proof -
  obtain g v where gv: "Variable [2] [2] int_type \<lparr> fvdata_set = False, fill_value = [] \<rparr> = Inr v"
    "store_create ''ObsValue/t'' (int_type, [2], [2], \<lparr> fvdata_set = False, fill_value = [] \<rparr>) (createRootGroup, []) = Inr (0, g, [v])"
    by (rule reachable_example)
  have none: "\<not> Has_Variables_exists m createRootGroup" for m
    by (simp add: createRootGroup_def Has_Variables_exists_iff var_at_empty)
  have c: "Has_Variables_create ''ObsValue/t'' int_type [2] [2] \<lparr> fvdata_set = False, fill_value = [] \<rparr> (createRootGroup, []) = Inr (0, g, [v])"
    using gv(2) by (simp add: store_create_def)
  from Has_Variables_create_remove [OF reachable_store.root none gv(1) c] c show ?thesis by (auto simp: none)
qed

lemma group_at_ok: "group_at ps g = Some c \<Longrightarrow> group_ok g \<Longrightarrow> group_ok c"
  by (induction ps arbitrary: g) (auto split: bind_splits dest: group_ok_child)

lemma var_at_rename:
  assumes "group_ok g" "group_at ps g = Some c"
  shows "var_at (qs, w) (modify_at ps (\<lambda>c. set_vars (std_insert new a (std_erase v (vars c))) c) g) =
    (if qs = ps \<and> w = new \<and> (new = v \<or> var_at (ps, new) g = None) then Some a
     else if qs = ps \<and> w = v then None else var_at (qs, w) g)"
proof -
  have "std_map_ok (vars c)" using group_at_ok [OF assms(2,1)] by (simp add: group_ok_iff [of c])
  moreover have "var_at (ps, x) g = std_find (vars c) x" for x using assms(2) by (simp add: var_at_def)
  ultimately show ?thesis
    using var_at_modify [OF assms(1), of qs w ps "\<lambda>vs. std_insert new a (std_erase v vs)"] assms(2)
    by (auto simp: std_find_insert std_find_erase split: option.splits)
qed



end
