(* ===== verification/Ioda_Strings.thy ===== *)
theory Ioda_Strings
  imports Ioda_Listing
begin

text \<open>
  Path and string functions (\<open>StringFuncs.cpp\<close>) and unit conversions (\<open>UnitConversions.h\<close>, \<open>UnitConversions.cpp\<close>).
  The scanning loops of the code, which walk through a string by positions, are proved equal to
  splitting at a separator; from that follow the round trips.
\<close>

section \<open>Splitting at a separator\<close>

fun split_on :: "char \<Rightarrow> string \<Rightarrow> string list" where
  "split_on c [] = [[]]"
| "split_on c (x # xs) =
     (if x = c then [] # split_on c xs
      else case split_on c xs of t # ts \<Rightarrow> (x # t) # ts | [] \<Rightarrow> [[x]])"

fun join_with :: "char \<Rightarrow> string list \<Rightarrow> string" where
  "join_with c [] = []"
| "join_with c [t] = t"
| "join_with c (t # ts) = t @ c # join_with c ts"

lemma split_on_ne [simp]: "split_on c s \<noteq> []"
  by (induction s) (auto split: list.split)

lemma split_on_none: "c \<notin> set s \<Longrightarrow> split_on c s = [s]"
  by (induction s) auto

lemma split_on_append: "c \<notin> set a \<Longrightarrow> split_on c (a @ c # b) = a # split_on c b"
  by (induction a) auto

lemma split_on_free: "t \<in> set (split_on c s) \<Longrightarrow> c \<notin> set t"
  by (induction s arbitrary: t) (auto split: list.splits if_splits)

lemma join_with_Cons: "join_with c (t # ts) = t @ concat (map (\<lambda>t. c # t) ts)"
proof (induction ts arbitrary: t)
  case (Cons u ts)
  then show ?case by simp
qed simp

lemma join_split: "join_with c (split_on c s) = s"
proof (induction s)
  case (Cons x s)
  then show ?case by (cases "split_on c s") (auto simp: join_with_Cons)
qed simp

lemma split_join:
  "ts \<noteq> [] \<Longrightarrow> \<forall>t \<in> set ts. c \<notin> set t \<Longrightarrow> split_on c (join_with c ts) = ts"
  by (induction c ts rule: join_with.induct) (auto simp: split_on_none split_on_append)

lemma set_join_with: "x \<in> set (join_with c ts) \<Longrightarrow> x = c \<or> (\<exists>t \<in> set ts. x \<in> set t)"
  by (induction c ts rule: join_with.induct) auto

lemma components_split_on: "components s = split_on (CHR ''/'') s"
proof (induction s rule: components.induct)
  case (1 s)
  show ?case
  proof (cases s rule: splitFirstLevel_cases)
    case 1
    then show ?thesis by (simp add: components_simps split_on_none)
  next
    case (2 a b)
    then have "str_find (CHR ''/'') s = Some (length a)" by (simp add: str_find_append)
    with "1.IH" [of "length a"] 2 show ?thesis by (simp add: components_simps split_on_append)
  qed
qed

lemma str_find_split_on:
  "str_find c s = Some i \<Longrightarrow> split_on c s = take i s # split_on c (drop (Suc i) s)"
  "str_find c s = None \<Longrightarrow> split_on c s = [s]"
proof -
  assume "str_find c s = Some i"
  from str_find_Some [OF this] have i: "i < length s" "s ! i = c" "c \<notin> set (take i s)" by auto
  have "split_on c (take i s @ c # drop (Suc i) s) = take i s # split_on c (drop (Suc i) s)"
    using i(3) by (rule split_on_append)
  then show "split_on c s = take i s # split_on c (drop (Suc i) s)"
    using id_take_nth_drop [OF i(1)] i(2) by simp
qed (simp add: str_find_None split_on_none)

definition nonempty :: "string list \<Rightarrow> string list" where
  "nonempty ts = filter (\<lambda>t. t \<noteq> []) ts"

section \<open>splitPaths and condensePaths\<close>

text \<open>\<open>find(c, off)\<close>.\<close>

definition str_find_from :: "char \<Rightarrow> string \<Rightarrow> nat \<Rightarrow> nat option" where
  "str_find_from c s off = map_option (\<lambda>i. off + i) (str_find c (drop off s))"

lemma str_find_from_Some: "str_find_from c s off = Some e \<Longrightarrow> off \<le> e \<and> e < length s"
  by (auto simp: str_find_from_def dest: str_find_Some)

function splitPaths_loop :: "string \<Rightarrow> nat \<Rightarrow> string list \<Rightarrow> string list" where
  "splitPaths_loop p off res =
     (case str_find_from (CHR ''/'') p off of
        None \<Rightarrow> let s = drop off p in if s \<noteq> [] then res @ [s] else res
      | Some end \<Rightarrow>
          let s = take (end - off) (drop off p)
          in splitPaths_loop p (end + 1) (if s \<noteq> [] then res @ [s] else res))"
  by pat_completeness auto
termination
  by (relation "measure (\<lambda>(p, off, _). Suc (length p) - off)") (auto dest: str_find_from_Some)

declare splitPaths_loop.simps [simp del]

definition splitPaths :: "string \<Rightarrow> string list" where
  "splitPaths p =
     (if p = [] then []
      else if p ! 0 = CHR ''/'' then splitPaths_loop p 1 [''/''] else splitPaths_loop p 0 [])"

definition condensePaths :: "string list \<Rightarrow> nat \<Rightarrow> nat option \<Rightarrow> string" where
  "condensePaths p start end =
     fold (\<lambda>i res. (if i \<noteq> start \<and> res \<noteq> ''/'' then res @ ''/'' else res) @ p ! i)
       [start..<(case end of None \<Rightarrow> length p | Some e \<Rightarrow> e)] []"

lemma splitPaths_loop_eq: "splitPaths_loop p off res = res @ nonempty (split_on (CHR ''/'') (drop off p))"
proof (induction p off res rule: splitPaths_loop.induct)
  case (1 p off res)
  show ?case
  proof (cases "str_find (CHR ''/'') (drop off p)")
    case None
    then show ?thesis
      by (subst splitPaths_loop.simps) (simp add: str_find_from_def str_find_split_on nonempty_def Let_def)
  next
    case (Some i)
    then have f: "str_find_from (CHR ''/'') p off = Some (off + i)" by (simp add: str_find_from_def)
    have "drop (Suc i) (drop off p) = drop (off + i + 1) p" by (simp add: add.commute)
    with 1 [OF f] f Some show ?thesis
      by (subst splitPaths_loop.simps) (simp add: str_find_split_on nonempty_def Let_def)
  qed
qed

lemma splitPaths_eq:
  "splitPaths p = (if p \<noteq> [] \<and> hd p = CHR ''/'' then ''/'' # nonempty (split_on (CHR ''/'') (tl p))
     else nonempty (split_on (CHR ''/'') p))"
  by (cases p) (auto simp: splitPaths_def splitPaths_loop_eq nonempty_def)

lemma condense_step:
  "\<forall>t \<in> set ts. t \<noteq> [] \<Longrightarrow> res \<noteq> ''/'' \<Longrightarrow> res \<noteq> [] \<Longrightarrow>
   fold (\<lambda>t res. (if res \<noteq> ''/'' then res @ ''/'' else res) @ t) ts res = res @ concat (map (\<lambda>t. CHR ''/'' # t) ts)"
proof (induction ts arbitrary: res)
  case (Cons t ts)
  moreover have "res @ ''/'' @ t \<noteq> ''/''" using Cons.prems by (cases res) auto
  ultimately show ?case by simp
qed simp

lemma condensePaths_Cons:
  "condensePaths (t # ts) 0 None = fold (\<lambda>t res. (if res \<noteq> ''/'' then res @ ''/'' else res) @ t) ts t"
proof -
  have "condensePaths (t # ts) 0 None =
      fold (\<lambda>i res. (if i \<noteq> 0 \<and> res \<noteq> ''/'' then res @ ''/'' else res) @ (t # ts) ! i) [1..<Suc (length ts)] t"
    by (simp add: condensePaths_def upt_conv_Cons del: upt_Suc)
  also have "\<dots> = fold (\<lambda>i res. (if res \<noteq> ''/'' then res @ ''/'' else res) @ (t # ts) ! i) [1..<Suc (length ts)] t"
    by (rule fold_cong) (auto simp: fun_eq_iff)
  also have "\<dots> = fold (\<lambda>t res. (if res \<noteq> ''/'' then res @ ''/'' else res) @ t) (map ((!) (t # ts)) [1..<Suc (length ts)]) t"
    by (simp add: fold_map comp_def del: upt_Suc)
  also have "map ((!) (t # ts)) [1..<Suc (length ts)] = ts"
    by (intro nth_equalityI) (simp_all del: upt_Suc)
  finally show ?thesis .
qed

definition path_component :: "string \<Rightarrow> bool" where
  "path_component t \<longleftrightarrow> t \<noteq> [] \<and> slash_free t"

lemma condensePaths_relative:
  assumes "list_all path_component ts"
  shows "condensePaths ts 0 None = join_with (CHR ''/'') ts"
proof (cases ts)
  case Nil
  then show ?thesis by (simp add: condensePaths_def)
next
  case (Cons t ts')
  have "t \<noteq> ''/''" "t \<noteq> []" "\<forall>t \<in> set ts'. t \<noteq> []"
    using assms Cons by (auto simp: list_all_iff path_component_def slash_free_def)
  then show ?thesis using Cons by (simp add: condensePaths_Cons condense_step join_with_Cons)
qed

lemma condensePaths_absolute:
  assumes "list_all path_component ts"
  shows "condensePaths (''/'' # ts) 0 None = CHR ''/'' # join_with (CHR ''/'') ts"
proof (cases ts)
  case Nil
  then show ?thesis by (simp add: condensePaths_Cons)
next
  case (Cons t ts')
  have "t \<noteq> []" "\<forall>t \<in> set ts'. t \<noteq> []"
    using assms Cons by (auto simp: list_all_iff path_component_def)
  moreover from this have "CHR ''/'' # t \<noteq> ''/''" by simp
  ultimately show ?thesis using Cons by (simp add: condensePaths_Cons condense_step join_with_Cons)
qed

lemma split_components:
  assumes "list_all path_component ts"
  shows "nonempty (split_on (CHR ''/'') (join_with (CHR ''/'') ts)) = ts"
proof (cases "ts = []")
  case True
  then show ?thesis by (simp add: nonempty_def)
next
  case False
  then have "split_on (CHR ''/'') (join_with (CHR ''/'') ts) = ts"
    using assms by (intro split_join) (auto simp: list_all_iff path_component_def slash_free_def)
  moreover have "nonempty ts = ts"
    using assms unfolding nonempty_def by (intro filter_True) (auto simp: list_all_iff path_component_def)
  ultimately show ?thesis by simp
qed

lemma join_not_absolute:
  assumes "list_all path_component ts" "join_with (CHR ''/'') ts \<noteq> []"
  shows "hd (join_with (CHR ''/'') ts) \<noteq> CHR ''/''"
proof (cases ts)
  case (Cons t ts')
  then have "t \<noteq> []" "CHR ''/'' \<notin> set t" using assms by (auto simp: path_component_def slash_free_def)
  then show ?thesis using Cons by (cases t) (auto simp: join_with_Cons)
qed (use assms in auto)

text \<open>C25. \<open>splitPaths\<close> inverts \<open>condensePaths\<close> on lists of non-empty components without slashes, relative or
  absolute (with a leading \<open>/\<close> component).\<close>

theorem splitPaths_condensePaths:
  assumes "list_all path_component ts"
  shows "splitPaths (condensePaths ts 0 None) = ts \<and> splitPaths (condensePaths (''/'' # ts) 0 None) = ''/'' # ts"
  using assms join_not_absolute [OF assms] split_components [OF assms]
  by (auto simp: splitPaths_eq condensePaths_relative condensePaths_absolute)

theorem splitPaths_condensePaths_witness:
  "splitPaths ''ObsValue/air_temperature'' = [''ObsValue'', ''air_temperature''] \<and>
   splitPaths ''/ObsValue/air_temperature'' = [''/'', ''ObsValue'', ''air_temperature'']"
proof -
  have *: "list_all path_component [''ObsValue'', ''air_temperature'']" by (simp add: path_component_def slash_free_def)
  show ?thesis
    using splitPaths_condensePaths [OF *] condensePaths_relative [OF *] condensePaths_absolute [OF *] by simp
qed

section \<open>convertV1PathToV2Path\<close>

text \<open>The \<open>do\<close> loop that collects the tokens from position \<open>prev\<close>.\<close>

function tokens_loop :: "string \<Rightarrow> nat \<Rightarrow> string list \<Rightarrow> string list" where
  "tokens_loop path prev tokens =
     (let pos = (case str_find_from (CHR ''@'') path prev of None \<Rightarrow> length path | Some e \<Rightarrow> e);
          token = take (pos - prev) (drop prev path);
          tokens = (if token \<noteq> [] then tokens @ [token] else tokens);
          next_prev = pos + 1
      in if pos < length path \<and> next_prev < length path then tokens_loop path next_prev tokens else tokens)"
  by pat_completeness auto
termination
  by (relation "measure (\<lambda>(p, off, _). Suc (length p) - off)") (auto dest: str_find_from_Some split: option.splits)

declare tokens_loop.simps [simp del]

definition convertV1PathToV2Path :: "string \<Rightarrow> string" where
  "convertV1PathToV2Path path =
     (if str_find (CHR ''@'') path = None then path
      else let tokens = tokens_loop path 0 []
           in fst (fold (\<lambda>token (out, first). ((if first then out else out @ ''/'') @ token, False)) (rev tokens) ([], True)))"

lemma tokens_loop_eq:
  "prev \<le> length path \<Longrightarrow> tokens_loop path prev tokens = tokens @ nonempty (split_on (CHR ''@'') (drop prev path))"
proof (induction path prev tokens rule: tokens_loop.induct)
  case (1 path prev tokens)
  show ?case
  proof (cases "str_find (CHR ''@'') (drop prev path)")
    case None
    then have "str_find_from (CHR ''@'') path prev = None" by (simp add: str_find_from_def)
    with None show ?thesis
      by (subst tokens_loop.simps) (simp add: str_find_split_on nonempty_def Let_def)
  next
    case (Some i)
    then have f: "str_find_from (CHR ''@'') path prev = Some (prev + i)" by (simp add: str_find_from_def)
    have lt: "prev + i < length path" using str_find_from_Some [OF f] by simp
    define tokens' where "tokens' = (if take i (drop prev path) \<noteq> [] then tokens @ [take i (drop prev path)] else tokens)"
    have split: "split_on (CHR ''@'') (drop prev path) = take i (drop prev path) # split_on (CHR ''@'') (drop (prev + i + 1) path)"
      using str_find_split_on(1) [OF Some] by (simp add: add.commute)
    show ?thesis
    proof (cases "prev + i + 1 < length path")
      case True
      then have "tokens_loop path (prev + i + 1) tokens' = tokens' @ nonempty (split_on (CHR ''@'') (drop (prev + i + 1) path))"
        using "1.IH" [OF refl refl refl refl] f lt by (simp add: tokens'_def cong: if_cong)
      then show ?thesis unfolding split using f lt True
        by (subst tokens_loop.simps) (auto simp: tokens'_def nonempty_def Let_def split: if_splits)
    next
      case False
      then show ?thesis unfolding split using f lt
        by (subst tokens_loop.simps) (simp add: nonempty_def Let_def)
    qed
  qed
qed

lemma fold_join:
  "fst (fold (\<lambda>token (out, first). ((if first then out else out @ ''/'') @ token, False)) ts ([], True)) = join_with (CHR ''/'') ts"
proof (cases ts)
  case (Cons t ts')
  have "fst (fold (\<lambda>token (out, first). ((if first then out else out @ ''/'') @ token, False)) us (out, False))
      = out @ concat (map (\<lambda>t. CHR ''/'' # t) us)" for us out
    by (induction us arbitrary: out) auto
  then show ?thesis using Cons by (simp add: join_with_Cons)
qed simp

lemma convertV1PathToV2Path_eq:
  "convertV1PathToV2Path path =
    (if CHR ''@'' \<notin> set path then path else join_with (CHR ''/'') (rev (nonempty (split_on (CHR ''@'') path))))"
  by (simp add: convertV1PathToV2Path_def str_find_None tokens_loop_eq fold_join)

lemma convertV1PathToV2Path_at_free: "CHR ''@'' \<notin> set (convertV1PathToV2Path path)"
  by (auto simp: convertV1PathToV2Path_eq nonempty_def dest!: set_join_with split_on_free)

text \<open>C26. Converting a version 1 name \<open>a@b@...@z\<close> reverses its parts and separates them with slashes, so that
  \<open>variable@group\<close> opens the variable of the group; converting is idempotent, as a converted name
  has no \<open>@\<close>.\<close>

theorem convertV1PathToV2Path_reverses:
  assumes "length ts > 1" "\<forall>t \<in> set ts. t \<noteq> [] \<and> CHR ''@'' \<notin> set t"
  shows "convertV1PathToV2Path (join_with (CHR ''@'') ts) = join_with (CHR ''/'') (rev ts)
    \<and> convertV1PathToV2Path (convertV1PathToV2Path path) = convertV1PathToV2Path path"
proof -
  have "split_on (CHR ''@'') (join_with (CHR ''@'') ts) = ts" using assms by (intro split_join) auto
  moreover have "nonempty ts = ts" using assms unfolding nonempty_def by (intro filter_True) auto
  moreover have "CHR ''@'' \<in> set (join_with (CHR ''@'') ts)"
    using assms(1) by (cases ts; cases "tl ts") auto
  ultimately show ?thesis
    using convertV1PathToV2Path_at_free [of path] by (simp add: convertV1PathToV2Path_eq [of "join_with _ _"] convertV1PathToV2Path_eq [of "convertV1PathToV2Path path"])
qed

theorem convertV1PathToV2Path_reverses_witness:
  "convertV1PathToV2Path ''longitude@MetaData'' = ''MetaData/longitude''"
  using convertV1PathToV2Path_reverses [of "[''longitude'', ''MetaData'']" "[]"] by simp

section \<open>concatenateStringVectors\<close>

text \<open>Removal of trailing spaces: \<open>find_last_not_of\<close> and the two branches of the code.\<close>

definition find_last_not_of :: "char \<Rightarrow> string \<Rightarrow> nat option" where
  "find_last_not_of c s =
     (case dropWhile (\<lambda>x. x = c) (rev s) of [] \<Rightarrow> None | _ # t \<Rightarrow> Some (length t))"

definition strip_trailing :: "string \<Rightarrow> string" where
  "strip_trailing s =
     (case find_last_not_of (CHR '' '') s of
        None \<Rightarrow> []
      | Some stringEnd \<Rightarrow> if stringEnd < length s - 1 then take (stringEnd + 1) s else s)"

definition concatenateStringVectors :: "string list list \<Rightarrow> string list result" where
  "concatenateStringVectors vs =
     (if vs = [] then Inl OutOfRange
      else bind_result
        (fold_result (\<lambda>v derived.
            if length v \<noteq> length derived then Inl (Exception ''string vectors are of unequal lengths'')
            else Inr (map2 (@) derived v)) (tl vs) (hd vs))
        (\<lambda>derived. Inr (map strip_trailing derived)))"

lemma strip_trailing_eq: "strip_trailing s = rev (dropWhile (\<lambda>x. x = CHR '' '') (rev s))"
proof (cases "dropWhile (\<lambda>x. x = CHR '' '') (rev s)")
  case Nil
  then show ?thesis unfolding strip_trailing_def find_last_not_of_def by (simp only: list.case option.case rev.simps)
next
  case (Cons x t)
  have "rev s = takeWhile (\<lambda>x. x = CHR '' '') (rev s) @ x # t" using Cons by (metis takeWhile_dropWhile_id)
  then have s: "s = rev t @ x # rev (takeWhile (\<lambda>x. x = CHR '' '') (rev s))"
    by (metis rev_append rev_rev_ident rev.simps(2) append.assoc append_Cons append_Nil)
  have "take (length t + 1) s = rev t @ [x]" by (subst s) simp
  moreover have "\<not> length t < length s - 1 \<Longrightarrow> s = rev t @ [x]"
  proof -
    assume "\<not> length t < length s - 1"
    then have "rev (takeWhile (\<lambda>x. x = CHR '' '') (rev s)) = []"
      using arg_cong [OF s, of length] by simp
    then show ?thesis using s by simp
  qed
  ultimately show ?thesis using Cons by (auto simp: strip_trailing_def find_last_not_of_def)
qed

text \<open>Concatenation of string columns: entry by entry, with trailing spaces removed; columns of different lengths
  are refused, and so is an empty list of columns.\<close>

lemma concatenateStringVectors_entries:
  "concatenateStringVectors vs =
    (if vs = [] then Inl OutOfRange
     else if \<exists>v \<in> set vs. length v \<noteq> length (hd vs) then Inl (Exception ''string vectors are of unequal lengths'')
     else Inr (map (\<lambda>i. rev (dropWhile (\<lambda>x. x = CHR '' '') (rev (concat (map (\<lambda>v. v ! i) vs))))) [0..<length (hd vs)]))"
proof (cases vs)
  case Nil
  then show ?thesis by (simp add: concatenateStringVectors_def)
next
  case (Cons u us)
  let ?step = "\<lambda>v derived. if length v \<noteq> length derived then Inl (Exception ''string vectors are of unequal lengths'')
    else Inr (map2 (@) derived v)"
  have run: "fold_result ?step ws d =
      (if \<exists>v \<in> set ws. length v \<noteq> length d then Inl (Exception ''string vectors are of unequal lengths'')
       else Inr (map (\<lambda>i. d ! i @ concat (map (\<lambda>v. v ! i) ws)) [0..<length d]))" for ws d
  proof (induction ws arbitrary: d)
    case Nil
    then show ?case by (simp add: map_nth)
  next
    case (Cons w ws)
    show ?case
    proof (cases "length w = length d")
      case True
      then have "length (map2 (@) d w) = length d" by simp
      with True Cons [of "map2 (@) d w"] show ?thesis by auto
    next
      case False
      then show ?thesis by auto
    qed
  qed
  show ?thesis unfolding Cons by (auto simp: concatenateStringVectors_def run strip_trailing_eq simp del: rev_append rev_concat)
qed

section \<open>Unit conversions\<close>

definition unitConversionEquations :: "(string \<times> (real \<Rightarrow> real)) list" where
  "unitConversionEquations =
     [(''celsius'', \<lambda>temp. temp + 273.15), (''knot'', \<lambda>knots. knots * 0.514444), (''percentage'', \<lambda>p. p * 0.01),
      (''hectopascal'', \<lambda>hPa. hPa * 100), (''degree'', \<lambda>deg. deg * 0.0174533), (''okta'', \<lambda>okta. okta * 0.125)]"

definition equivalentSIUnit :: "(string \<times> string) list" where
  "equivalentSIUnit =
     [(''celsius'', ''kelvin''), (''knot'', ''meters per second''), (''percentage'', ''-''),
      (''hectopascal'', ''pascal''), (''degree'', ''radian''), (''okta'', ''-'')]"

definition convertColumn :: "string \<Rightarrow> real list \<Rightarrow> real list result" where
  "convertColumn unit xs =
     (case map_of unitConversionEquations unit of
        None \<Rightarrow> Inl (Exception ''unit does not have a defined unit conversion equation'')
      | Some f \<Rightarrow> Inr (map f xs))"

definition getSIUnit :: "string \<Rightarrow> string result" where
  "getSIUnit unit =
     (case map_of equivalentSIUnit unit of
        None \<Rightarrow> Inl (Exception ''unit does not have a defined unit conversion equation'')
      | Some u \<Rightarrow> Inr u)"

lemma same_units: "map_of unitConversionEquations unit = None \<longleftrightarrow> map_of equivalentSIUnit unit = None"
  by (simp add: unitConversionEquations_def equivalentSIUnit_def)

end
