(* ===== verification/Ioda_Backend.thy ===== *)
theory Ioda_Backend
  imports Ioda_Strings
begin

text \<open>
  The ObsStore backends behind the frontend classes: the type provider (\<open>ObsStore-types.cpp\<close>), creation of
  attributes with data (\<open>Has_Attributes.h\<close>), the parameters of a new variable
  (\<open>VariableCreationParameters\<close>) and the creation of variables (\<open>ObsStore-variables.cpp\<close>), with the
  chunking and compression settings that are kept as hidden attributes.
\<close>

section \<open>The type provider\<close>

text \<open>The C++ types, as \<open>std::type_index\<close> distinguishes them.\<close>

datatype cpp_type = CT_float | CT_double | CT_long_double | CT_signed_char | CT_short | CT_int | CT_long | CT_long_long
  | CT_unsigned_char | CT_unsigned_short | CT_unsigned_int | CT_unsigned_long | CT_unsigned_long_long
  | CT_char | CT_wchar | CT_char16 | CT_char32 | CT_string | CT_other

record obs_type_info =
  info_type :: ObsTypes
  info_class :: ObsTypeClasses
  info_size :: nat
  info_signed :: bool

abbreviation type_info :: "ObsTypes \<Rightarrow> ObsTypeClasses \<Rightarrow> nat \<Rightarrow> bool \<Rightarrow> obs_type_info" where
  "type_info t c n s \<equiv> \<lparr> info_type = t, info_class = c, info_size = n, info_signed = s \<rparr>"

text \<open>Sizes are those of the usual 64-bit platforms.\<close>

definition getFundamentalObsStoreType :: "cpp_type \<Rightarrow> obs_type_info result" where
  "getFundamentalObsStoreType t =
     (case t of
        CT_float \<Rightarrow> Inr (type_info FLOAT FLOAT_CLASS 4 False)
      | CT_double \<Rightarrow> Inr (type_info DOUBLE FLOAT_CLASS 8 False)
      | CT_long_double \<Rightarrow> Inr (type_info LDOUBLE FLOAT_CLASS 16 False)
      | CT_signed_char \<Rightarrow> Inr (type_info SCHAR NOCLASS 1 True)
      | CT_short \<Rightarrow> Inr (type_info SHORT INTEGER_CLASS 2 True)
      | CT_int \<Rightarrow> Inr (type_info INT_TYPE INTEGER_CLASS 4 True)
      | CT_long \<Rightarrow> Inr (type_info LONG INTEGER_CLASS 8 True)
      | CT_long_long \<Rightarrow> Inr (type_info LLONG INTEGER_CLASS 8 True)
      | CT_unsigned_char \<Rightarrow> Inr (type_info UCHAR NOCLASS 1 False)
      | CT_unsigned_short \<Rightarrow> Inr (type_info USHORT INTEGER_CLASS 2 False)
      | CT_unsigned_int \<Rightarrow> Inr (type_info UINT INTEGER_CLASS 4 False)
      | CT_unsigned_long \<Rightarrow> Inr (type_info ULONG INTEGER_CLASS 8 False)
      | CT_unsigned_long_long \<Rightarrow> Inr (type_info ULLONG INTEGER_CLASS 8 False)
      | CT_char \<Rightarrow> Inr (type_info CHAR_TYPE NOCLASS 1 False)
      | CT_wchar \<Rightarrow> Inr (type_info WCHAR NOCLASS 4 False)
      | CT_char16 \<Rightarrow> Inr (type_info CHAR16 NOCLASS 2 False)
      | CT_char32 \<Rightarrow> Inr (type_info CHAR32 NOCLASS 4 False)
      | _ \<Rightarrow> Inl (Exception ''ObsStore does not recognize this type.''))"

definition makeFundamentalType :: "cpp_type \<Rightarrow> obs_type result" where
  "makeFundamentalType t =
     bind_result (getFundamentalObsStoreType t) (\<lambda>i.
       Inr (Type_fundamental (info_type i) (info_class i) (info_size i) (info_signed i)))"

definition makeArrayType :: "nat list \<Rightarrow> cpp_type \<Rightarrow> obs_type result" where
  "makeArrayType dims typeInner =
     bind_result (getFundamentalObsStoreType typeInner) (\<lambda>i.
       Inr (Type_array dims ARRAY FIXED_ARRAY
         (Type_fundamental (info_type i) (info_class i) (info_size i) (info_signed i))))"

definition makeStringType :: obs_type where
  "makeStringType = Type_fundamental STRING STRING_CLASS 8 False"

datatype TypeClass = TC_Unknown | TC_Integer | TC_Float | TC_String | TC_Bitfield | TC_Opaque | TC_Compound
  | TC_Reference | TC_Enum | TC_VlenArray | TC_FixedArray

definition ObsStore_Type_getClass :: "obs_type \<Rightarrow> TypeClass" where
  "ObsStore_Type_getClass t =
     (case ty_class t of
        INTEGER_CLASS \<Rightarrow> TC_Integer | NOCLASS \<Rightarrow> TC_Unknown | FLOAT_CLASS \<Rightarrow> TC_Float | STRING_CLASS \<Rightarrow> TC_String
      | BITFIELD \<Rightarrow> TC_Bitfield | OPAQUE \<Rightarrow> TC_Opaque | COMPOUND \<Rightarrow> TC_Compound | REFERENCE \<Rightarrow> TC_Reference
      | ENUM \<Rightarrow> TC_Enum | VLEN_ARRAY \<Rightarrow> TC_VlenArray | FIXED_ARRAY \<Rightarrow> TC_FixedArray)"

definition ObsStore_Type_getBaseType :: "obs_type \<Rightarrow> obs_type result" where
  "ObsStore_Type_getBaseType t =
     (case ty_base t of None \<Rightarrow> Inl (Exception ''ObsStore base type does not exist.'') | Some b \<Rightarrow> Inr b)"

text \<open>The element type that a stored type holds.\<close>

lemma fundamental_type_store:
  "makeFundamentalType t = Inr ty \<Longrightarrow>
   createVarAttrStore ty = Inr \<lparr> store_type = ty_type ty, var_attr_data = [], num_elements = 1 \<rparr> \<and> ty_num_elements ty = 1"
  by (cases t) (auto simp: makeFundamentalType_def getFundamentalObsStoreType_def Type_fundamental_def createVarAttrStore_def)

lemma array_type_store:
  "makeArrayType dims t = Inr ty \<Longrightarrow>
   \<exists>b. makeFundamentalType t = Inr b \<and>
     createVarAttrStore ty = Inr \<lparr> store_type = ty_type b, var_attr_data = [], num_elements = prod_list dims \<rparr>"
  by (cases t) (auto simp: makeArrayType_def makeFundamentalType_def getFundamentalObsStoreType_def Type_fundamental_def
      Type_array_def createVarAttrStore_def fold_times_prod Let_def)

section \<open>Attributes with data\<close>

text \<open>\<open>add\<close>: create and write. If the name is taken, the write goes to an attribute that nobody holds.\<close>

definition Has_Attributes_add :: "string \<Rightarrow> obs_type \<Rightarrow> scalar list \<Rightarrow> nat list \<Rightarrow> has_attributes \<Rightarrow> has_attributes result" where
  "Has_Attributes_add name ty data dims as =
     bind_result (Has_Attributes_create name ty dims as) (\<lambda>(att, as').
     bind_result (Attribute_write data ty att) (\<lambda>att.
       Inr (if Has_Attributes_exists name as then as' else std_assign name att as')))"

text \<open>Reading a whole attribute into a vector: the vector gets the number of elements first.\<close>

definition Has_Attributes_read :: "string \<Rightarrow> obs_type \<Rightarrow> has_attributes \<Rightarrow> scalar list result" where
  "Has_Attributes_read name ty as =
     bind_result (Has_Attributes_open name as) (\<lambda>att.
       let n = fold (\<lambda>i n. n * att_dimensions att ! i) [0..<length (att_dimensions att)] 1
       in Attribute_read (replicate (n * ty_num_elements ty) (default_value (ty_type ty))) ty att)"

lemma Attribute_created:
  assumes "makeFundamentalType t = Inr ty"
  shows "Attribute dims ty = Inr \<lparr> att_dimensions = dims, att_dtype = ty, attr_data =
      \<lparr> store_type = ty_type ty, var_attr_data = replicate (prod_list dims) (default_value (ty_type ty)), num_elements = 1 \<rparr> \<rparr>"
  using fundamental_type_store [OF assms]
  by (simp add: Attribute_def VarAttrStore_resize_def vec_resize_def fold_times_prod)

lemma Attribute_write_created:
  assumes "makeFundamentalType t = Inr ty" "length data = prod_list dims" "prod_list dims < 2 ^ 31" "Attribute dims ty = Inr a"
  shows "Attribute_write data ty a = Inr (a \<lparr> attr_data := (attr_data a) \<lparr> var_attr_data := data \<rparr> \<rparr>)"
proof -
  have "attribute_ok a" "att_dtype a = ty" "att_dimensions a = dims" "length (var_attr_data (attr_data a)) = prod_list dims"
    using Attribute_created [OF assms(1), of dims] assms(4) fundamental_type_store [OF assms(1)]
    by (auto simp: attribute_ok_def)
  with Attribute_write_all [of a data] assms(2,3) show ?thesis by simp
qed

lemma Has_Attributes_add_succeeds:
  assumes "makeFundamentalType t = Inr ty" "length data = prod_list dims" "prod_list dims < 2 ^ 31"
  shows "\<exists>as'. Has_Attributes_add name ty data dims as = Inr as'"
proof -
  obtain a where "Attribute dims ty = Inr a" using Attribute_created [OF assms(1)] by blast
  with Attribute_write_created [OF assms this] show ?thesis
    by (simp add: Has_Attributes_add_def Has_Attributes_create_def)
qed

lemma Has_Attributes_add_new:
  assumes "makeFundamentalType t = Inr ty" "std_find as name = None" "length data = prod_list dims" "prod_list dims < 2 ^ 31"
    "std_map_ok as"
  obtains as' where "Has_Attributes_add name ty data dims as = Inr as'" "std_map_ok as'"
    "Has_Attributes_read name ty as' = Inr data" "\<And>n. n \<noteq> name \<Longrightarrow> std_find as' n = std_find as n"
    "std_find as' name \<noteq> None"
proof -
  define a where "a = \<lparr> att_dimensions = dims, att_dtype = ty, attr_data =
      \<lparr> store_type = ty_type ty, var_attr_data = replicate (prod_list dims) (default_value (ty_type ty)), num_elements = 1 \<rparr> \<rparr>"
  define b where "b = a \<lparr> attr_data := (attr_data a) \<lparr> var_attr_data := data \<rparr> \<rparr>"
  let ?as' = "std_assign name b (std_insert name a as)"
  have ne: "ty_num_elements ty = 1" using fundamental_type_store [OF assms(1)] by simp
  have ok: "attribute_ok b" using ne assms(3) by (simp add: attribute_ok_def a_def b_def)
  have w: "Attribute_write data ty a = Inr b"
    unfolding b_def by (rule Attribute_write_created [OF assms(1,3,4) Attribute_created [OF assms(1), of dims, folded a_def]])
  have r: "Attribute_read buf ty b = Inr data" if "length buf = prod_list dims" for buf
    using Attribute_read_all [OF ok, of buf] assms(3,4) that by (simp add: a_def b_def)
  have find: "std_find ?as' n = (if n = name then Some b else std_find as n)" for n
    using assms(5) by (simp add: std_find_assign std_find_insert)
  have "Has_Attributes_add name ty data dims as = Inr ?as'"
    using assms(2) w Attribute_created [OF assms(1), of dims, folded a_def]
    by (simp add: Has_Attributes_add_def Has_Attributes_create_def Has_Attributes_exists_def)
  moreover have "Has_Attributes_read name ty ?as' = Inr data"
  proof -
    have "Has_Attributes_open name ?as' = Inr b" using find [of name] by (simp add: Has_Attributes_open_def)
    moreover have "att_dimensions b = dims" by (simp add: a_def b_def)
    ultimately show ?thesis
      unfolding Has_Attributes_read_def fold_times_nth by (simp add: ne r)
  qed
  ultimately show thesis using that [of ?as'] find assms(5) by simp
qed

section \<open>Parameters of a new variable\<close>

record variable_creation_parameters =
  vcp_fillValue :: "scalar list option"
  vcp_chunk :: bool
  vcp_chunks :: "int list"
  fChunkingStrategy :: "nat list \<Rightarrow> int list option"
  vcp_gzip :: bool
  vcp_szip :: bool
  gzip_level :: int
  szip_PixelsPerBlock :: int
  szip_options :: int
  vcp_atts :: "(string \<times> obs_type \<times> scalar list \<times> nat list) list"

definition Chunking_Max :: "nat list \<Rightarrow> int list option" where
  "Chunking_Max cur_dims = Some (map int cur_dims)"

definition VariableCreationParameters :: variable_creation_parameters where
  "VariableCreationParameters =
     \<lparr> vcp_fillValue = None, vcp_chunk = False, vcp_chunks = [], fChunkingStrategy = Chunking_Max, vcp_gzip = False, vcp_szip = False,
       gzip_level = 6, szip_PixelsPerBlock = 16, szip_options = 4, vcp_atts = [] \<rparr>"

text \<open>The copy constructor: the chunking strategy is not copied.\<close>

definition VariableCreationParameters_copy :: "variable_creation_parameters \<Rightarrow> variable_creation_parameters" where
  "VariableCreationParameters_copy r =
     VariableCreationParameters
       \<lparr> vcp_fillValue := vcp_fillValue r, vcp_chunk := vcp_chunk r, vcp_chunks := vcp_chunks r, vcp_gzip := vcp_gzip r,
         vcp_szip := vcp_szip r, gzip_level := gzip_level r, szip_PixelsPerBlock := szip_PixelsPerBlock r,
         szip_options := szip_options r, vcp_atts := vcp_atts r \<rparr>"

definition getChunks :: "nat list \<Rightarrow> variable_creation_parameters \<Rightarrow> int list result" where
  "getChunks cur_dims p =
     (if vcp_chunks p \<noteq> [] then Inr (vcp_chunks p)
      else case fChunkingStrategy p cur_dims of
             Some res \<Rightarrow> Inr res
           | None \<Rightarrow> Inl (Exception ''Cannot figure out an appropriate chunking size.''))"

definition noCompress :: "variable_creation_parameters \<Rightarrow> variable_creation_parameters" where
  "noCompress p = p \<lparr> vcp_szip := False, vcp_gzip := False \<rparr>"

definition compressWithGZIP :: "int \<Rightarrow> variable_creation_parameters \<Rightarrow> variable_creation_parameters" where
  "compressWithGZIP level p = p \<lparr> vcp_szip := False, vcp_gzip := True, gzip_level := level \<rparr>"

definition compressWithSZIP :: "int \<Rightarrow> int \<Rightarrow> variable_creation_parameters \<Rightarrow> variable_creation_parameters" where
  "compressWithSZIP PixelsPerBlock options p =
     p \<lparr> vcp_gzip := False, vcp_szip := True, szip_PixelsPerBlock := PixelsPerBlock, szip_options := options \<rparr>"

section \<open>Creation of a variable by the backend\<close>

definition long_type :: obs_type where "long_type = Type_fundamental LONG INTEGER_CLASS 8 True"
definition uint_type :: obs_type where "uint_type = Type_fundamental UINT INTEGER_CLASS 4 False"

definition os_params :: "variable_creation_parameters \<Rightarrow> var_create_params" where
  "os_params p =
     (case vcp_fillValue p of
        None \<Rightarrow> \<lparr> fvdata_set = False, fill_value = [] \<rparr>
      | Some fv \<Rightarrow> \<lparr> fvdata_set = True, fill_value = fv \<rparr>)"

text \<open>The chunking and compression parameters, kept as hidden attributes of the new variable.\<close>

definition add_creation_atts :: "nat list \<Rightarrow> variable_creation_parameters \<Rightarrow> has_attributes \<Rightarrow> has_attributes result" where
  "add_creation_atts dims p as =
     bind_result
       (if vcp_chunk p
        then bind_result (getChunks dims p) (\<lambda>cs. Has_Attributes_add ''_chunks'' long_type (map Integral cs) [length cs] as)
        else Inr as) (\<lambda>as.
     bind_result
       (if vcp_gzip p then Has_Attributes_add ''_gzip'' int_type [Integral (gzip_level p)] [1] as else Inr as) (\<lambda>as.
       if vcp_szip p
       then Has_Attributes_add ''_szip'' uint_type [Integral (szip_options p), Integral (szip_PixelsPerBlock p)] [2] as
       else Inr as))"

definition HasVariables_Backend_create ::
    "string \<Rightarrow> obs_type \<Rightarrow> nat list \<Rightarrow> int list \<Rightarrow> variable_creation_parameters \<Rightarrow> group \<times> heap \<Rightarrow> (nat \<times> group \<times> heap) result" where
  "HasVariables_Backend_create name ty dims max_dims p gh =
     (let max_dims = (if max_dims = [] then map int dims else max_dims)
      in bind_result (Has_Variables_create name ty dims max_dims (os_params p) gh) (\<lambda>(a, g, h).
         bind_result (add_creation_atts dims p (impl_atts (h ! a))) (\<lambda>as.
           Inr (a, g, h[a := (h ! a) \<lparr> impl_atts := as \<rparr>]))))"

definition scalar_int :: "scalar \<Rightarrow> int" where
  "scalar_int x = (case x of Integral i \<Rightarrow> i | _ \<Rightarrow> 0)"

definition getChunkSizes :: "obs_variable \<Rightarrow> int list result" where
  "getChunkSizes v =
     (if \<not> Has_Attributes_exists ''_chunks'' (impl_atts v) then Inr []
      else bind_result (Has_Attributes_read ''_chunks'' long_type (impl_atts v)) (\<lambda>xs. Inr (map scalar_int xs)))"

definition getGZIPCompression :: "obs_variable \<Rightarrow> (bool \<times> int) result" where
  "getGZIPCompression v =
     (if \<not> Has_Attributes_exists ''_gzip'' (impl_atts v) then Inr (False, 0)
      else bind_result (Has_Attributes_read ''_gzip'' int_type (impl_atts v)) (\<lambda>xs. Inr (True, scalar_int (xs ! 0))))"

definition getSZIPCompression :: "obs_variable \<Rightarrow> (bool \<times> int \<times> int) result" where
  "getSZIPCompression v =
     (if \<not> Has_Attributes_exists ''_szip'' (impl_atts v) then Inr (False, 0, 0)
      else bind_result (Has_Attributes_read ''_szip'' uint_type (impl_atts v)) (\<lambda>sz.
        if length sz \<noteq> 2 then Inl AssertionFailed else Inr (True, scalar_int (sz ! 0), scalar_int (sz ! 1))))"


section \<open>What the settings of a new variable read back as\<close>

lemma fundamental_examples:
  "makeFundamentalType CT_long = Inr long_type" "makeFundamentalType CT_int = Inr int_type" "makeFundamentalType CT_unsigned_int = Inr uint_type"
  by (simp_all add: makeFundamentalType_def getFundamentalObsStoreType_def long_type_def int_type_def uint_type_def)

lemma Variable_impl_atts:
  assumes "Variable dims max_dims ty params = Inr v"
  shows "std_map_ok (impl_atts v)" "n \<noteq> ''_fillValue'' \<Longrightarrow> std_find (impl_atts v) n = None"
proof -
  have res: "impl_atts w = impl_atts u" if "Variable_resize ds u = Inr w" for u w ds
    using that by (auto simp: Variable_resize_def Let_def split: if_splits bind_splits)
  have "impl_atts v = [] \<or> (\<exists>fv fv'. impl_atts v = std_assign ''_fillValue'' fv (std_insert ''_fillValue'' fv' []))"
    using assms unfolding Variable_def Has_Attributes_create_def
    by (auto split: bind_splits if_splits dest!: res)
  then have "std_map_ok (impl_atts v) \<and> (n \<noteq> ''_fillValue'' \<longrightarrow> std_find (impl_atts v) n = None)"
    by (auto simp: std_find_assign std_find_insert std_map_ok_def std_keys_def)
  then show "std_map_ok (impl_atts v)" "n \<noteq> ''_fillValue'' \<Longrightarrow> std_find (impl_atts v) n = None" by simp_all
qed

lemma optional_attribute:
  assumes "makeFundamentalType t = Inr ty" "std_find as name = None" "length data < 2 ^ 31" "std_map_ok as"
  obtains as' where "(if b then Has_Attributes_add name ty data [length data] as else Inr as) = Inr as'" "std_map_ok as'"
    "\<And>n. n \<noteq> name \<Longrightarrow> std_find as' n = std_find as n" "Has_Attributes_exists name as' = b"
    "b \<Longrightarrow> Has_Attributes_read name ty as' = Inr data"
proof (cases b)
  case True
  obtain as' where "Has_Attributes_add name ty data [length data] as = Inr as'" "std_map_ok as'"
    "Has_Attributes_read name ty as' = Inr data" "\<And>n. n \<noteq> name \<Longrightarrow> std_find as' n = std_find as n"
    "std_find as' name \<noteq> None"
    using Has_Attributes_add_new [OF assms(1,2), of data "[length data]"] assms(3,4) by auto
  then show ?thesis using that [of as'] True by (simp add: Has_Attributes_exists_def)
next
  case False
  then show ?thesis using that [of as] assms by (simp add: Has_Attributes_exists_def)
qed

lemma Has_Attributes_same:
  assumes "std_find as' n = std_find as n"
  shows "Has_Attributes_exists n as' = Has_Attributes_exists n as" "Has_Attributes_read n ty as' = Has_Attributes_read n ty as"
  using assms by (simp_all add: Has_Attributes_exists_def Has_Attributes_read_def Has_Attributes_open_def)

lemma add_creation_atts_reads:
  assumes "std_map_ok as" "\<And>n. n \<noteq> ''_fillValue'' \<Longrightarrow> std_find as n = None"
    "vcp_chunk p \<Longrightarrow> getChunks dims p = Inr cs" "length cs < 2 ^ 31"
  obtains as' where "add_creation_atts dims p as = Inr as'"
    "Has_Attributes_exists ''_chunks'' as' = vcp_chunk p" "Has_Attributes_exists ''_gzip'' as' = vcp_gzip p"
    "Has_Attributes_exists ''_szip'' as' = vcp_szip p"
    "vcp_chunk p \<longrightarrow> Has_Attributes_read ''_chunks'' long_type as' = Inr (map Integral cs)"
    "vcp_gzip p \<longrightarrow> Has_Attributes_read ''_gzip'' int_type as' = Inr [Integral (gzip_level p)]"
    "vcp_szip p \<longrightarrow> Has_Attributes_read ''_szip'' uint_type as' = Inr [Integral (szip_options p), Integral (szip_PixelsPerBlock p)]"
proof -
  obtain a1 where a1: "(if vcp_chunk p then Has_Attributes_add ''_chunks'' long_type (map Integral cs) [length (map Integral cs)] as
      else Inr as) = Inr a1" "std_map_ok a1" "\<And>n. n \<noteq> ''_chunks'' \<Longrightarrow> std_find a1 n = std_find as n"
    "Has_Attributes_exists ''_chunks'' a1 = vcp_chunk p"
    "vcp_chunk p \<Longrightarrow> Has_Attributes_read ''_chunks'' long_type a1 = Inr (map Integral cs)"
    using optional_attribute [OF fundamental_examples(1), of as "''_chunks''" "map Integral cs"] assms by auto
  obtain a2 where a2: "(if vcp_gzip p then Has_Attributes_add ''_gzip'' int_type [Integral (gzip_level p)] [length [Integral (gzip_level p)]] a1
      else Inr a1) = Inr a2" "std_map_ok a2" "\<And>n. n \<noteq> ''_gzip'' \<Longrightarrow> std_find a2 n = std_find a1 n"
    "Has_Attributes_exists ''_gzip'' a2 = vcp_gzip p"
    "vcp_gzip p \<Longrightarrow> Has_Attributes_read ''_gzip'' int_type a2 = Inr [Integral (gzip_level p)]"
    using optional_attribute [OF fundamental_examples(2), of a1 "''_gzip''" "[Integral (gzip_level p)]"] assms(2) a1(2,3) by auto
  let ?sz = "[Integral (szip_options p), Integral (szip_PixelsPerBlock p)]"
  obtain a3 where a3: "(if vcp_szip p then Has_Attributes_add ''_szip'' uint_type ?sz [length ?sz] a2
      else Inr a2) = Inr a3" "std_map_ok a3" "\<And>n. n \<noteq> ''_szip'' \<Longrightarrow> std_find a3 n = std_find a2 n"
    "Has_Attributes_exists ''_szip'' a3 = vcp_szip p"
    "vcp_szip p \<Longrightarrow> Has_Attributes_read ''_szip'' uint_type a3 = Inr ?sz"
    using optional_attribute [OF fundamental_examples(3), of a2 "''_szip''" ?sz] assms(2) a1(3) a2(2,3) by auto
  have "add_creation_atts dims p as = Inr a3"
    using a1(1) a2(1) a3(1) assms(3)
    by (cases "vcp_chunk p"; cases "vcp_gzip p"; cases "vcp_szip p") (simp_all add: add_creation_atts_def numeral_2_eq_2)
  moreover have "std_find a3 ''_chunks'' = std_find a1 ''_chunks''" "std_find a3 ''_gzip'' = std_find a2 ''_gzip''"
    using a2(3) a3(3) by simp_all
  ultimately show thesis
    using a1(4,5) a2(4,5) a3(4,5) Has_Attributes_same [of a3 "''_chunks''" a1] Has_Attributes_same [of a3 "''_gzip''" a2]
    by (intro that [of a3]) simp_all
qed



end
