(* ===== verification/Ioda_Layout.thy ===== *)
theory Ioda_Layout
  imports Ioda_Backend
begin

text \<open>
  Data layout policies (\<open>Layouts/\<close>): how the name that a client gives for a variable becomes the name it has
  in the store. The policies are the empty one, the policy of ObsGroups and the policy of ODB files, which is
  built from a mapping file. The parsed mapping file is an argument; reading YAML is not modelled.
\<close>

section \<open>The mapping file\<close>

record variable_parameters =
  vp_name :: string
  vp_source :: string
  vp_unit :: "string option"

record complementary_parameters =
  cv_outputName :: string
  cv_outputVariableDataType :: string
  cv_inputNames :: "string list"
  cv_mergeMethod :: string

record varno_parameters =
  vm_name :: string
  vm_varno :: int
  vm_unit :: "string option"

record column_parameters =
  vc_source :: string
  vc_groupName :: string
  vc_mappings :: "varno_parameters list"

record odb_parameters =
  odb_variables :: "variable_parameters list"
  odb_complementaryVariables :: "complementary_parameters list"
  odb_varnoDependentColumns :: "column_parameters list"

section \<open>The ODB policy\<close>

datatype MergeMethod = Concat

record output_metadata =
  meta_outputName :: string
  outputVariableDataType :: cpp_type
  meta_mergeMethod :: MergeMethod
  inputVariableCount :: nat

text \<open>The two unordered maps; the order of their entries is never observed.\<close>

record odb_layout =
  Mapping :: "(string, string \<times> bool \<times> string) std_map"
  complementaryVariableDataMap :: "(string, nat \<times> output_metadata) std_map"

definition parseMergeMethod :: "string \<Rightarrow> MergeMethod result" where
  "parseMergeMethod method = (if method \<noteq> ''concat'' then Inl NotImplemented else Inr Concat)"

definition addMapping :: "string \<Rightarrow> string \<Rightarrow> string option \<Rightarrow> odb_layout \<Rightarrow> odb_layout" where
  "addMapping inputName outputName unit l =
     (case unit of
        Some u \<Rightarrow> l \<lparr> Mapping := std_assign inputName (outputName, True, u) (Mapping l) \<rparr>
      | None \<Rightarrow> l \<lparr> Mapping := std_assign inputName (outputName, False, '''') (Mapping l) \<rparr>)"

definition parseNameChanges :: "odb_parameters \<Rightarrow> odb_layout \<Rightarrow> odb_layout" where
  "parseNameChanges params = fold (\<lambda>v. addMapping (vp_source v) (vp_name v) (vp_unit v)) (odb_variables params)"

text \<open>The metadata of an output is one shared object, whose count is set after the loop over the inputs.\<close>

definition parseComponentVariables :: "odb_parameters \<Rightarrow> odb_layout \<Rightarrow> odb_layout result" where
  "parseComponentVariables params =
     fold_result (\<lambda>v l.
       if cv_outputVariableDataType v \<noteq> ''string'' then Inl NotImplemented
       else bind_result (parseMergeMethod (cv_mergeMethod v)) (\<lambda>mergeMethod.
         if cv_outputName v \<in> set (cv_inputNames v)
         then Inl (Exception ''YAML mapping file has a complementary variable name matching a derived variable name.'')
         else let meta = \<lparr> meta_outputName = cv_outputName v, outputVariableDataType = CT_string,
                           meta_mergeMethod = mergeMethod, inputVariableCount = length (cv_inputNames v) \<rparr>
              in Inr (fold (\<lambda>(inputIndex, input) l. l \<lparr> complementaryVariableDataMap :=
                        std_assign input (inputIndex, meta) (complementaryVariableDataMap l) \<rparr>)
                   (enumerate 0 (cv_inputNames v)) l)))
       (odb_complementaryVariables params)"

definition parseVarnoDependentColumns :: "odb_parameters \<Rightarrow> odb_layout \<Rightarrow> odb_layout" where
  "parseVarnoDependentColumns params =
     fold (\<lambda>column.
       let inputPrefix = vc_source column @ ''/''; outputPrefix = convertV1PathToV2Path (vc_groupName column) @ ''/''
       in fold (\<lambda>m. addMapping (inputPrefix @ to_string (vm_varno m)) (outputPrefix @ vm_name m) (vm_unit m)) (vc_mappings column))
       (odb_varnoDependentColumns params)"

definition ODB_isComplementary :: "odb_layout \<Rightarrow> string \<Rightarrow> bool" where
  "ODB_isComplementary l inputVariable \<longleftrightarrow> std_find (complementaryVariableDataMap l) inputVariable \<noteq> None"

definition ODB_isMapped :: "odb_layout \<Rightarrow> string \<Rightarrow> bool" where
  "ODB_isMapped l input \<longleftrightarrow> std_find (Mapping l) input \<noteq> None"

definition ODB_isMapOutput :: "odb_layout \<Rightarrow> string \<Rightarrow> bool" where
  "ODB_isMapOutput l out \<longleftrightarrow>
     list_ex (\<lambda>(_, iodaName, _). iodaName = out) (Mapping l) \<or>
     list_ex (\<lambda>(_, _, meta). meta_outputName meta = out) (complementaryVariableDataMap l)"

definition addUnchangedVariableName :: "string \<Rightarrow> odb_layout \<Rightarrow> odb_layout result" where
  "addUnchangedVariableName str l =
     (if ODB_isComplementary l str \<or> ODB_isMapped l str \<or> ODB_isMapOutput l str
      then Inl (Exception ''Attempting to re-add existing variable to mapping'')
      else Inr (l \<lparr> Mapping := std_assign str (str, False, '''') (Mapping l) \<rparr>))"

definition parseMappingFile :: "odb_parameters \<Rightarrow> odb_layout \<Rightarrow> odb_layout result" where
  "parseMappingFile params l =
     bind_result (parseComponentVariables params (parseNameChanges params l)) (\<lambda>l. Inr (parseVarnoDependentColumns params l))"

definition ObsGroup_ODB :: "odb_parameters \<Rightarrow> string list \<Rightarrow> odb_layout result" where
  "ObsGroup_ODB params nonODBVariables =
     bind_result (parseMappingFile params \<lparr> Mapping = [], complementaryVariableDataMap = [] \<rparr>)
       (fold_result addUnchangedVariableName nonODBVariables)"

definition ODB_doMap :: "odb_layout \<Rightarrow> string \<Rightarrow> string" where
  "ODB_doMap l str = convertV1PathToV2Path (case std_find (Mapping l) str of Some (iodaName, _) \<Rightarrow> iodaName | None \<Rightarrow> str)"

section \<open>The policies\<close>

datatype layout = Layout_None | Layout_ObsGroup | Layout_ODB odb_layout

datatype Policies = Policy_None | Policy_ObsGroup | Policy_ObsGroupODB

definition generate_by_id :: "string \<Rightarrow> layout result" where
  "generate_by_id polid =
     (if polid = ''ObsGroup'' then Inr Layout_ObsGroup
      else if polid = ''ObsGroupODB'' then Inl (Exception ''A mapping file is required for the ODB Data Layout Policy.'')
      else Inr Layout_None)"

definition generate_by_policy :: "Policies \<Rightarrow> layout result" where
  "generate_by_policy pol =
     (case pol of
        Policy_ObsGroup \<Rightarrow> Inr Layout_ObsGroup
      | Policy_ObsGroupODB \<Rightarrow> Inl (Exception ''A mapping file is required for the ODB Data Layout Policy.'')
      | Policy_None \<Rightarrow> Inr Layout_None)"

text \<open>The \<open>throw\<close> is not under the \<open>if\<close>.\<close>

definition generate_by_id_map :: "string \<Rightarrow> odb_parameters \<Rightarrow> string list \<Rightarrow> layout result" where
  "generate_by_id_map polid mapping nonODBVariables =
     (let errorMessage = (if polid \<noteq> ''ObsGroupODB'' then ''A mapping file is not relevant for the policy '' @ polid else '''')
      in Inl (Exception errorMessage))"

definition generate_by_policy_map :: "Policies \<Rightarrow> odb_parameters \<Rightarrow> string list \<Rightarrow> layout result" where
  "generate_by_policy_map pol mapping nonODBVariables =
     (let policyId = (case pol of Policy_None \<Rightarrow> ''None'' | Policy_ObsGroup \<Rightarrow> ''ObsGroup'' | Policy_ObsGroupODB \<Rightarrow> ''ObsGroupODB'')
      in if pol \<noteq> Policy_ObsGroupODB then Inl (Exception (''A mapping file is not relevant for the policy '' @ policyId))
         else bind_result (ObsGroup_ODB mapping nonODBVariables) (\<lambda>l. Inr (Layout_ODB l)))"

fun layout_name :: "layout \<Rightarrow> string" where
  "layout_name Layout_None = ''None / no policy''"
| "layout_name Layout_ObsGroup = ''ObsGroup v1''"
| "layout_name (Layout_ODB _) = ''ObsGroup ODB v1''"

fun doMap :: "layout \<Rightarrow> string \<Rightarrow> string" where
  "doMap Layout_None str = str"
| "doMap Layout_ObsGroup str = convertV1PathToV2Path str"
| "doMap (Layout_ODB l) str = ODB_doMap l str"

fun isMapped :: "layout \<Rightarrow> string \<Rightarrow> bool" where
  "isMapped (Layout_ODB l) str = ODB_isMapped l str"
| "isMapped _ str = False"

fun isComplementary :: "layout \<Rightarrow> string \<Rightarrow> bool" where
  "isComplementary (Layout_ODB l) str = ODB_isComplementary l str"
| "isComplementary _ str = False"

fun isMapOutput :: "layout \<Rightarrow> string \<Rightarrow> bool" where
  "isMapOutput (Layout_ODB l) str = ODB_isMapOutput l str"
| "isMapOutput _ str = False"

text \<open>The getters of a complementary variable share the guard.\<close>

fun complementary_entry :: "layout \<Rightarrow> string \<Rightarrow> (nat \<times> output_metadata) result" where
  "complementary_entry (Layout_ODB l) input =
     (case std_find (complementaryVariableDataMap l) input of
        None \<Rightarrow> Inl (Exception (input @ '' was not found to be a complementary variable.''))
      | Some e \<Rightarrow> Inr e)"
| "complementary_entry _ input = Inl (Exception ''Illogical operation for non-ODB data layout policies.'')"

definition getComplementaryPosition :: "layout \<Rightarrow> string \<Rightarrow> nat result" where
  "getComplementaryPosition l input = bind_result (complementary_entry l input) (\<lambda>e. Inr (fst e))"

definition getInputsNeeded :: "layout \<Rightarrow> string \<Rightarrow> nat result" where
  "getInputsNeeded l input = bind_result (complementary_entry l input) (\<lambda>e. Inr (inputVariableCount (snd e)))"

definition getOutputNameFromComponent :: "layout \<Rightarrow> string \<Rightarrow> string result" where
  "getOutputNameFromComponent l input = bind_result (complementary_entry l input) (\<lambda>e. Inr (meta_outputName (snd e)))"

definition getOutputVariableDataType :: "layout \<Rightarrow> string \<Rightarrow> cpp_type result" where
  "getOutputVariableDataType l input = bind_result (complementary_entry l input) (\<lambda>e. Inr (outputVariableDataType (snd e)))"

definition getMergeMethod :: "layout \<Rightarrow> string \<Rightarrow> MergeMethod result" where
  "getMergeMethod l input = bind_result (complementary_entry l input) (\<lambda>e. Inr (meta_mergeMethod (snd e)))"

fun getUnit :: "layout \<Rightarrow> string \<Rightarrow> (bool \<times> string) result" where
  "getUnit (Layout_ODB l) input =
     (case std_find (Mapping l) input of
        Some (_, inputUnit) \<Rightarrow> Inr inputUnit
      | None \<Rightarrow> Inl (Exception (input @ '' was not found to to be an ODB source variable.'')))"
| "getUnit _ input = Inl (Exception ''Illogical operation for non-ODB data layout policies.'')"


section \<open>What a mapping file defines\<close>

text \<open>The entries of the mapping file, in the order of the file; a later entry for the same name wins.\<close>

definition odb_entries :: "odb_parameters \<Rightarrow> (string \<times> string \<times> string option) list" where
  "odb_entries params =
     map (\<lambda>v. (vp_source v, vp_name v, vp_unit v)) (odb_variables params) @
     concat (map (\<lambda>c. map (\<lambda>m. (vc_source c @ ''/'' @ to_string (vm_varno m),
         convertV1PathToV2Path (vc_groupName c) @ ''/'' @ vm_name m, vm_unit m)) (vc_mappings c)) (odb_varnoDependentColumns params))"

definition component_entries :: "complementary_parameters \<Rightarrow> (string \<times> nat \<times> output_metadata) list" where
  "component_entries v =
     map (\<lambda>(i, n). (n, i, \<lparr> meta_outputName = cv_outputName v, outputVariableDataType = CT_string, meta_mergeMethod = Concat,
         inputVariableCount = length (cv_inputNames v) \<rparr>)) (enumerate 0 (cv_inputNames v))"

definition stored_unit :: "string option \<Rightarrow> bool \<times> string" where
  "stored_unit u = (case u of Some x \<Rightarrow> (True, x) | None \<Rightarrow> (False, ''''))"

definition odb_ok :: "odb_layout \<Rightarrow> bool" where
  "odb_ok l \<longleftrightarrow> std_map_ok (Mapping l) \<and> std_map_ok (complementaryVariableDataMap l)"

lemma fold_addMapping:
  assumes "odb_ok l"
  shows "odb_ok (fold (\<lambda>(s, n, u). addMapping s n u) es l)"
    "complementaryVariableDataMap (fold (\<lambda>(s, n, u). addMapping s n u) es l) = complementaryVariableDataMap l"
    "std_find (Mapping (fold (\<lambda>(s, n, u). addMapping s n u) es l)) k =
       (case map_of (rev es) k of Some (n, u) \<Rightarrow> Some (n, stored_unit u) | None \<Rightarrow> std_find (Mapping l) k)"
proof -
  have eq: "addMapping s n u l = l \<lparr> Mapping := std_assign s (n, stored_unit u) (Mapping l) \<rparr>" for s n u l
    by (simp add: addMapping_def stored_unit_def split: option.split)
  have "odb_ok (fold (\<lambda>(s, n, u). addMapping s n u) es l) \<and>
    complementaryVariableDataMap (fold (\<lambda>(s, n, u). addMapping s n u) es l) = complementaryVariableDataMap l \<and>
    (\<forall>k. std_find (Mapping (fold (\<lambda>(s, n, u). addMapping s n u) es l)) k =
       (case map_of (rev es) k of Some (n, u) \<Rightarrow> Some (n, stored_unit u) | None \<Rightarrow> std_find (Mapping l) k))"
    using assms
    by (induction es arbitrary: l)
      (auto simp: eq odb_ok_def std_find_assign map_add_def split: option.splits)
  then show "odb_ok (fold (\<lambda>(s, n, u). addMapping s n u) es l)"
    "complementaryVariableDataMap (fold (\<lambda>(s, n, u). addMapping s n u) es l) = complementaryVariableDataMap l"
    "std_find (Mapping (fold (\<lambda>(s, n, u). addMapping s n u) es l)) k =
       (case map_of (rev es) k of Some (n, u) \<Rightarrow> Some (n, stored_unit u) | None \<Rightarrow> std_find (Mapping l) k)" by simp_all
qed

lemma parseNameChanges_fold:
  "parseNameChanges params l =
   fold (\<lambda>(s, n, u). addMapping s n u) (map (\<lambda>v. (vp_source v, vp_name v, vp_unit v)) (odb_variables params)) l"
  by (simp add: parseNameChanges_def fold_map comp_def)

lemma parseVarnoDependentColumns_fold:
  "parseVarnoDependentColumns params l =
   fold (\<lambda>(s, n, u). addMapping s n u) (concat (map (\<lambda>c. map (\<lambda>m. (vc_source c @ ''/'' @ to_string (vm_varno m),
         convertV1PathToV2Path (vc_groupName c) @ ''/'' @ vm_name m, vm_unit m)) (vc_mappings c)) (odb_varnoDependentColumns params))) l"
proof -
  have "fold (\<lambda>column.
       let inputPrefix = vc_source column @ ''/''; outputPrefix = convertV1PathToV2Path (vc_groupName column) @ ''/''
       in fold (\<lambda>m. addMapping (inputPrefix @ to_string (vm_varno m)) (outputPrefix @ vm_name m) (vm_unit m)) (vc_mappings column)) cs l =
     fold (\<lambda>(s, n, u). addMapping s n u) (concat (map (\<lambda>c. map (\<lambda>m. (vc_source c @ ''/'' @ to_string (vm_varno m),
         convertV1PathToV2Path (vc_groupName c) @ ''/'' @ vm_name m, vm_unit m)) (vc_mappings c)) cs)) l" for cs
    by (induction cs arbitrary: l) (simp_all add: fold_map comp_def Let_def)
  then show ?thesis by (simp add: parseVarnoDependentColumns_def)
qed

lemma parseComponentVariables_find:
  assumes "parseComponentVariables params l = Inr l'" "odb_ok l"
  shows "odb_ok l'" "Mapping l' = Mapping l"
    "std_find (complementaryVariableDataMap l') k =
       (case map_of (rev (concat (map component_entries (odb_complementaryVariables params)))) k of
          Some e \<Rightarrow> Some e | None \<Rightarrow> std_find (complementaryVariableDataMap l) k)"
proof -
  let ?ins = "\<lambda>meta (i, n) l. l \<lparr> complementaryVariableDataMap := std_assign n (i, meta) (complementaryVariableDataMap l) \<rparr>"
  have ins: "odb_ok (fold (?ins meta) es l) \<and> Mapping (fold (?ins meta) es l) = Mapping l \<and>
      (\<forall>k. std_find (complementaryVariableDataMap (fold (?ins meta) es l)) k =
        (case map_of (rev (map (\<lambda>(i, n). (n, i, meta)) es)) k of
           Some e \<Rightarrow> Some e | None \<Rightarrow> std_find (complementaryVariableDataMap l) k))"
    if "odb_ok l" for meta es and l :: odb_layout
    using that by (induction es arbitrary: l) (auto simp: odb_ok_def std_find_assign map_add_def split: option.splits)
  have "odb_ok l' \<and> Mapping l' = Mapping l \<and> (\<forall>k. std_find (complementaryVariableDataMap l') k =
       (case map_of (rev (concat (map component_entries (odb_complementaryVariables params)))) k of
          Some e \<Rightarrow> Some e | None \<Rightarrow> std_find (complementaryVariableDataMap l) k))"
    using assms unfolding parseComponentVariables_def
  proof (induction "odb_complementaryVariables params" arbitrary: params l)
    case (Cons v vs)
    note eq = Cons.hyps(2) [symmetric]
    define l1 where "l1 = fold (?ins \<lparr> meta_outputName = cv_outputName v, outputVariableDataType = CT_string,
       meta_mergeMethod = Concat, inputVariableCount = length (cv_inputNames v) \<rparr>) (enumerate 0 (cv_inputNames v)) l"
    have l1: "odb_ok l1 \<and> Mapping l1 = Mapping l \<and> (\<forall>k. std_find (complementaryVariableDataMap l1) k =
        (case map_of (rev (component_entries v)) k of Some e \<Rightarrow> Some e | None \<Rightarrow> std_find (complementaryVariableDataMap l) k))"
      unfolding l1_def component_entries_def by (rule ins [OF Cons.prems(2)])
    show ?case
      using Cons.hyps(1) [of "params \<lparr> odb_complementaryVariables := vs \<rparr>" l1] Cons.prems l1 unfolding eq
      by (auto simp: parseMergeMethod_def Let_def l1_def [symmetric] map_add_def split: if_splits option.splits)
  qed simp
  then show "odb_ok l'" "Mapping l' = Mapping l"
    "std_find (complementaryVariableDataMap l') k =
       (case map_of (rev (concat (map component_entries (odb_complementaryVariables params)))) k of
          Some e \<Rightarrow> Some e | None \<Rightarrow> std_find (complementaryVariableDataMap l) k)" by simp_all
qed


lemma addUnchanged_find:
  assumes "fold_result addUnchangedVariableName names l = Inr l'" "odb_ok l"
  shows "odb_ok l'" "complementaryVariableDataMap l' = complementaryVariableDataMap l"
    "std_find (Mapping l') k = (if k \<in> set names then Some (k, stored_unit None) else std_find (Mapping l) k)"
    "k \<in> set names \<Longrightarrow> std_find (Mapping l) k = None"
proof -
  have "odb_ok l' \<and> complementaryVariableDataMap l' = complementaryVariableDataMap l \<and>
    (\<forall>k. std_find (Mapping l') k = (if k \<in> set names then Some (k, stored_unit None) else std_find (Mapping l) k) \<and>
      (k \<in> set names \<longrightarrow> std_find (Mapping l) k = None))"
    using assms
  proof (induction names arbitrary: l)
    case (Cons n names)
    then obtain l1 where l1: "addUnchangedVariableName n l = Inr l1" "fold_result addUnchangedVariableName names l1 = Inr l'" by auto
    then have eq: "l1 = l \<lparr> Mapping := std_assign n (n, stored_unit None) (Mapping l) \<rparr>" and none: "std_find (Mapping l) n = None"
      by (auto simp: addUnchangedVariableName_def ODB_isMapped_def stored_unit_def simp del: not_None_eq split: if_splits)
    have "odb_ok l1" using Cons.prems(2) by (simp add: eq odb_ok_def)
    note IH = Cons.IH [OF l1(2) this]
    have find: "std_find (Mapping l1) k = (if k = n then Some (n, stored_unit None) else std_find (Mapping l) k)" for k
      using Cons.prems(2) by (simp add: eq odb_ok_def std_find_assign)
    have "k \<noteq> n \<and> std_find (Mapping l) k = None" if "k \<in> set names" for k
      using IH that find [of k] by (metis option.distinct(1))
    moreover have "complementaryVariableDataMap l1 = complementaryVariableDataMap l" by (simp add: eq)
    ultimately show ?case using IH none by (auto simp: find)
  qed simp
  then show "odb_ok l'" "complementaryVariableDataMap l' = complementaryVariableDataMap l"
    "std_find (Mapping l') k = (if k \<in> set names then Some (k, stored_unit None) else std_find (Mapping l) k)"
    "k \<in> set names \<Longrightarrow> std_find (Mapping l) k = None" by simp_all
qed

text \<open>C36. The ODB policy implements its mapping file. A name goes to the output of the last entry for it, with old-style
  names turned into paths, and is otherwise kept; the mapped names are the sources and the names declared as
  unchanged; the unit is the one of the entry; each component of a complementary variable has its position,
  the number of components and the name of the output.\<close>

theorem ODB_layout_implements_mapping:
  assumes "generate_by_policy_map Policy_ObsGroupODB params unchanged = Inr lay"
  shows "doMap lay s = convertV1PathToV2Path (case map_of (rev (odb_entries params)) s of Some (n, _) \<Rightarrow> n | None \<Rightarrow> s) \<and>
    (isMapped lay s \<longleftrightarrow> s \<in> fst ` set (odb_entries params) \<union> set unchanged) \<and>
    (\<forall>n u. map_of (rev (odb_entries params)) s = Some (n, u) \<longrightarrow> getUnit lay s = Inr (stored_unit u)) \<and>
    (\<forall>i meta. map_of (rev (concat (map component_entries (odb_complementaryVariables params)))) s = Some (i, meta) \<longrightarrow>
      getComplementaryPosition lay s = Inr i \<and> getInputsNeeded lay s = Inr (inputVariableCount meta) \<and>
      getOutputNameFromComponent lay s = Inr (meta_outputName meta) \<and> getMergeMethod lay s = Inr Concat)"
proof -
  let ?l0 = "\<lparr> Mapping = [], complementaryVariableDataMap = [] \<rparr>"
  let ?add = "fold (\<lambda>(s, n, u). addMapping s n u)"
  define vars where "vars = map (\<lambda>v. (vp_source v, vp_name v, vp_unit v)) (odb_variables params)"
  define cols where "cols = concat (map (\<lambda>c. map (\<lambda>m. (vc_source c @ ''/'' @ to_string (vm_varno m),
         convertV1PathToV2Path (vc_groupName c) @ ''/'' @ vm_name m, vm_unit m)) (vc_mappings c)) (odb_varnoDependentColumns params))"
  obtain l l2 where lay: "lay = Layout_ODB l" and l2: "parseComponentVariables params (?add vars ?l0) = Inr l2"
    and un: "fold_result addUnchangedVariableName unchanged (?add cols l2) = Inr l"
    using assms unfolding generate_by_policy_map_def ObsGroup_ODB_def parseMappingFile_def
      parseNameChanges_fold parseVarnoDependentColumns_fold vars_def [symmetric] cols_def [symmetric] by auto
  have ok0: "odb_ok ?l0" by (simp add: odb_ok_def)
  note f1 = fold_addMapping [OF ok0, of vars]
  note f2 = parseComponentVariables_find [OF l2 f1(1)]
  note f3 = fold_addMapping [OF f2(1), of cols]
  note f4 = addUnchanged_find [OF un f3(1)]
  have ent: "map_of (rev (odb_entries params)) k = (case map_of (rev cols) k of Some x \<Rightarrow> Some x | None \<Rightarrow> map_of (rev vars) k)" for k
    unfolding odb_entries_def vars_def [symmetric] cols_def [symmetric] by (simp add: map_add_def)
  have map: "std_find (Mapping (?add cols l2)) k = (case map_of (rev (odb_entries params)) k of
       Some (n, u) \<Rightarrow> Some (n, stored_unit u) | None \<Rightarrow> None)" for k
    unfolding f3(3) f2(2) f1(3) ent by (auto split: option.splits)
  have comp: "std_find (complementaryVariableDataMap l) k =
      map_of (rev (concat (map component_entries (odb_complementaryVariables params)))) k" for k
    unfolding f4(2) f3(2) f2(3) f1(2) by (simp split: option.split)
  have "doMap lay s = convertV1PathToV2Path (case map_of (rev (odb_entries params)) s of Some (n, _) \<Rightarrow> n | None \<Rightarrow> s)"
    using f4(4) [of s] by (auto simp: lay ODB_doMap_def f4(3) map split: option.splits)
  moreover have "isMapped lay s \<longleftrightarrow> s \<in> fst ` set (odb_entries params) \<union> set unchanged"
    using map_of_eq_None_iff [of "rev (odb_entries params)" s]
    by (auto simp: lay ODB_isMapped_def f4(3) map split: option.splits)
  moreover have "getUnit lay s = Inr (stored_unit u)" if "map_of (rev (odb_entries params)) s = Some (n, u)" for n u
    using f4(3) [of s] f4(4) [of s] that by (simp add: lay map split: if_splits)
  moreover have "getComplementaryPosition lay s = Inr i \<and> getInputsNeeded lay s = Inr (inputVariableCount meta) \<and>
      getOutputNameFromComponent lay s = Inr (meta_outputName meta) \<and> getMergeMethod lay s = Inr Concat"
    if "map_of (rev (concat (map component_entries (odb_complementaryVariables params)))) s = Some (i, meta)" for i meta
    using that MergeMethod.exhaust [of "meta_mergeMethod meta"]
    by (auto simp: lay comp getComplementaryPosition_def getInputsNeeded_def getOutputNameFromComponent_def getMergeMethod_def)
  ultimately show ?thesis by blast
qed

theorem ODB_layout_implements_mapping_witness:
  "\<exists>lay params. generate_by_policy_map Policy_ObsGroupODB params [''nlocs''] = Inr lay \<and>
     doMap lay ''lat'' = ''MetaData/latitude'' \<and> isMapped lay ''nlocs'' \<and> doMap lay ''nlocs'' = ''nlocs'' \<and>
     getUnit lay ''lat'' = Inr (True, ''degree'') \<and> getComplementaryPosition lay ''id2'' = Inr 1 \<and>
     getInputsNeeded lay ''id2'' = Inr 2 \<and> getOutputNameFromComponent lay ''id1'' = Inr ''MetaData/id''"
proof -
  let ?p = "\<lparr> odb_variables = [\<lparr> vp_name = ''MetaData/latitude'', vp_source = ''lat'', vp_unit = Some ''degree'' \<rparr>],
    odb_complementaryVariables = [\<lparr> cv_outputName = ''MetaData/id'', cv_outputVariableDataType = ''string'',
      cv_inputNames = [''id1'', ''id2''], cv_mergeMethod = ''concat'' \<rparr>], odb_varnoDependentColumns = [] \<rparr>"
  obtain lay where lay: "generate_by_policy_map Policy_ObsGroupODB ?p [''nlocs''] = Inr lay"
    by (simp add: generate_by_policy_map_def ObsGroup_ODB_def parseMappingFile_def parseNameChanges_def addMapping_def
        parseComponentVariables_def parseMergeMethod_def parseVarnoDependentColumns_def addUnchangedVariableName_def
        ODB_isComplementary_def ODB_isMapped_def ODB_isMapOutput_def Let_def)
  note t = ODB_layout_implements_mapping [OF lay]
  have e: "odb_entries ?p = [(''lat'', ''MetaData/latitude'', Some ''degree'')]" by (simp add: odb_entries_def)
  have v1: "convertV1PathToV2Path ''MetaData/latitude'' = ''MetaData/latitude''" "convertV1PathToV2Path ''nlocs'' = ''nlocs''"
    by (simp_all add: convertV1PathToV2Path_def)
  have "doMap lay ''lat'' = ''MetaData/latitude''" "isMapped lay ''nlocs''" "doMap lay ''nlocs'' = ''nlocs''"
    "getUnit lay ''lat'' = Inr (True, ''degree'')"
    using t [of "''lat''"] t [of "''nlocs''"]
    by (simp_all add: e v1 stored_unit_def)
  moreover have "getComplementaryPosition lay ''id2'' = Inr 1" "getInputsNeeded lay ''id2'' = Inr 2"
    "getOutputNameFromComponent lay ''id1'' = Inr ''MetaData/id''"
    using t [of "''id2''"] t [of "''id1''"] by (simp_all add: component_entries_def)
  ultimately show ?thesis using lay by blast
qed

text \<open>The generator that takes the policy's identifier and a mapping file never returns a policy, not even for the
  identifier of the ODB policy; the one that takes the enumeration value does.\<close>

lemma generate_by_id_map_fails:
  "generate_by_id_map polid params unchanged \<noteq> Inr lay \<and>
   generate_by_policy_map Policy_ObsGroupODB \<lparr> odb_variables = [], odb_complementaryVariables = [], odb_varnoDependentColumns = [] \<rparr> []
   = Inr (Layout_ODB \<lparr> Mapping = [], complementaryVariableDataMap = [] \<rparr>)"
  by (simp_all add: generate_by_id_map_def generate_by_policy_map_def ObsGroup_ODB_def parseMappingFile_def
      parseNameChanges_def parseComponentVariables_def parseVarnoDependentColumns_def Let_def)

end
