(* ===== verification/Ioda_ObsGroup.thy ===== *)
theory Ioda_ObsGroup
  imports Ioda_Layout
begin

text \<open>
  The frontend of a store and its ObsGroup: variables reached through the data layout policy
  (\<open>Has_Variables.cpp\<close>), new variables on dimension scales, the dimension scales of a new ObsGroup, and
  the resize of an ObsGroup (\<open>ObsGroup.cpp\<close>). A variable handle is an address of the heap of variables.
\<close>

section \<open>The frontend of the variables\<close>

definition Base_exists :: "layout \<Rightarrow> string \<Rightarrow> group \<Rightarrow> bool" where
  "Base_exists l name g = Has_Variables_exists (doMap l name) g"

definition Base_remove :: "layout \<Rightarrow> string \<Rightarrow> group \<Rightarrow> group result" where
  "Base_remove l name g = Has_Variables_remove (doMap l name) g"

definition Base_open :: "layout \<Rightarrow> string \<Rightarrow> group \<Rightarrow> nat result" where
  "Base_open l name g = Has_Variables_open (doMap l name) g"

text \<open>\<open>applyImmediatelyAfterVariableCreation\<close>: the attributes of the creation parameters are added in turn.\<close>

definition apply_creation_atts :: "variable_creation_parameters \<Rightarrow> obs_variable \<Rightarrow> obs_variable result" where
  "apply_creation_atts p v =
     bind_result (fold_result (\<lambda>(name, ty, data, dims). Has_Attributes_add name ty data dims) (vcp_atts p) (atts v)) (\<lambda>as.
       Inr (v \<lparr> atts := as \<rparr>))"

definition Base_create ::
    "layout \<Rightarrow> string \<Rightarrow> obs_type \<Rightarrow> nat list \<Rightarrow> int list \<Rightarrow> variable_creation_parameters \<Rightarrow> group \<times> heap \<Rightarrow> (nat \<times> group \<times> heap) result" where
  "Base_create l name ty dims max_dims p gh =
     (let fixed_max_dims = (if max_dims \<noteq> [] then max_dims else map int dims)
      in bind_result (HasVariables_Backend_create (doMap l name) ty dims fixed_max_dims p gh) (\<lambda>(a, g, h).
         bind_result (apply_creation_atts p (h ! a)) (\<lambda>v.
           if layout_name l = ''ObsGroup ODB v1'' \<and> \<not> (isMapped l name \<or> isComplementary l name \<or> isMapOutput l name)
           then Inl (Exception (''The following variable was not remapped in the YAML file: '' @ name))
           else Inr (a, g, h[a := v]))))"

section \<open>Variables on dimension scales\<close>

text \<open>\<open>setDimScale\<close>: scale number \<open>i\<close> is attached to dimension \<open>i\<close>.\<close>

definition setDimScale :: "nat list \<Rightarrow> obs_variable \<Rightarrow> obs_variable" where
  "setDimScale vdims = fold (\<lambda>i. Variable_attachDimensionScale i (vdims ! i)) [0..<length vdims]"

definition attachDimensionScales :: "(nat \<times> nat list) list \<Rightarrow> heap \<Rightarrow> heap" where
  "attachDimensionScales = fold (\<lambda>(a, vdims) h. h[a := setDimScale vdims (h ! a)])"

text \<open>The type of a new variable: given, or the one that the type provider has for a C++ type.\<close>

datatype new_type = Known_Type obs_type | Cpp_Type cpp_type

definition provide_type :: "new_type \<Rightarrow> obs_type result" where
  "provide_type t = (case t of Known_Type ty \<Rightarrow> Inr ty | Cpp_Type c \<Rightarrow> makeFundamentalType c)"

record new_variable =
  nv_name :: string
  nv_dataType :: new_type
  nv_scales :: "nat list"
  nv_vcp :: variable_creation_parameters

definition chunk_hint :: "obs_variable \<Rightarrow> int result" where
  "chunk_hint v =
     (if Has_Attributes_exists ''suggested_chunk_dim'' (atts v)
      then bind_result (Has_Attributes_read ''suggested_chunk_dim'' long_type (atts v)) (\<lambda>xs. Inr (scalar_int (xs ! 0)))
      else Inr (- 1))"

definition create_one :: "layout \<Rightarrow> new_variable \<Rightarrow> group \<times> heap \<Rightarrow> (nat \<times> group \<times> heap) result" where
  "create_one l newvar gh =
     bind_result (provide_type (nv_dataType newvar)) (\<lambda>t.
       let scales = map (\<lambda>s. snd gh ! s) (nv_scales newvar);
           dims = map (\<lambda>s. dimensions s ! 0) scales;
           max_dims = map (\<lambda>s. max_dimensions s ! 0) scales
       in bind_result (map_result chunk_hint scales) (\<lambda>chunking_hints.
          let params2 = VariableCreationParameters_copy (nv_vcp newvar) \<lparr> vcp_chunk := True \<rparr>;
              params2 = (if vcp_chunks params2 = [] then params2 \<lparr> vcp_chunks := chunking_hints \<rparr> else params2)
          in Base_create l (nv_name newvar) t dims max_dims params2 gh))"

definition createWithScales :: "layout \<Rightarrow> new_variable list \<Rightarrow> group \<times> heap \<Rightarrow> (group \<times> heap) result" where
  "createWithScales l newvars gh =
     bind_result (fold_result (\<lambda>newvar (gh, scaleMappings).
         bind_result (create_one l newvar gh) (\<lambda>(a, gh). Inr (gh, scaleMappings @ [(a, nv_scales newvar)])))
       newvars (gh, [])) (\<lambda>((g, h), scaleMappings).
     Inr (g, attachDimensionScales scaleMappings h))"

section \<open>A new ObsGroup\<close>

record new_dimension_scale =
  nd_name :: string
  nd_dataType :: new_type
  nd_size :: nat
  nd_maxSize :: int
  nd_chunkingSize :: int
  nd_initdata :: "scalar list option"

definition Unlimited :: int where "Unlimited = - 1"
definition Unspecified :: int where "Unspecified = - 2"

text \<open>The templated constructor: unspecified sizes come from the size; the initial data is value-initialised.\<close>

definition NewDimensionScale :: "cpp_type \<Rightarrow> string \<Rightarrow> nat \<Rightarrow> int \<Rightarrow> int \<Rightarrow> new_dimension_scale" where
  "NewDimensionScale c name sz maxSize chunkingSize =
     (let maxSize = (if maxSize = Unspecified then int sz else maxSize);
          chunkingSize = (if chunkingSize = Unspecified then maxSize else chunkingSize);
          t = (case makeFundamentalType c of Inr t \<Rightarrow> ty_type t | Inl _ \<Rightarrow> NOTYPE)
      in \<lparr> nd_name = name, nd_dataType = Cpp_Type c, nd_size = sz, nd_maxSize = maxSize, nd_chunkingSize = chunkingSize,
           nd_initdata = Some (replicate sz (default_value t)) \<rparr>)"

record scale_sizes =
  ss_size :: int
  ss_maxSize :: int
  ss_chunkingSize :: int

definition NewDimensionScale_like :: "string \<Rightarrow> obs_variable \<Rightarrow> scale_sizes \<Rightarrow> new_dimension_scale result" where
  "NewDimensionScale_like name scale overrides =
     (if length (dimensions scale) \<noteq> 1 then Inl (Exception ''Dimensionality != 1.'')
      else let sz = (if ss_size overrides \<noteq> Unspecified then ss_size overrides else int (dimensions scale ! 0));
               maxSize = (if ss_maxSize overrides \<noteq> Unspecified then ss_maxSize overrides else max_dimensions scale ! 0)
           in bind_result
             (if ss_chunkingSize overrides = Unspecified
              then bind_result (getChunkSizes scale) (\<lambda>chunking. Inr (if chunking \<noteq> [] then chunking ! 0 else Unspecified))
              else Inr (ss_chunkingSize overrides)) (\<lambda>chunkingSize.
             Inr \<lparr> nd_name = name, nd_dataType = Known_Type (dtype scale), nd_size = nat sz, nd_maxSize = maxSize,
                    nd_chunkingSize = chunkingSize, nd_initdata = None \<rparr>))"

definition writeInitialData :: "new_dimension_scale \<Rightarrow> obs_type \<Rightarrow> obs_variable \<Rightarrow> obs_variable result" where
  "writeInitialData f t v = (case nd_initdata f of None \<Rightarrow> Inr v | Some xs \<Rightarrow> Backend_write xs t select_all select_all v)"

definition dim_params :: "new_dimension_scale \<Rightarrow> variable_creation_parameters" where
  "dim_params f = VariableCreationParameters
     \<lparr> vcp_chunk := True, fChunkingStrategy := (\<lambda>_. Some [nd_chunkingSize f]),
       vcp_atts := [(''suggested_chunk_dim'', long_type, [Integral (nd_chunkingSize f)], [1])] \<rparr>"

definition setup_dim :: "layout \<Rightarrow> new_dimension_scale \<Rightarrow> group \<times> heap \<Rightarrow> (group \<times> heap) result" where
  "setup_dim l f gh =
     bind_result (provide_type (nd_dataType f)) (\<lambda>t.
     bind_result (Base_create l (nd_name f) t [nd_size f] [nd_maxSize f] (dim_params f) gh) (\<lambda>(a, g, h).
     bind_result (writeInitialData f t (Variable_setIsDimensionScale (nd_name f) (h ! a))) (\<lambda>v.
       Inr (g, h[a := v]))))"

text \<open>\<open>initializeStructure\<close>: the layout leaves its name and version as attributes of the group.\<close>

definition string_type :: obs_type where "string_type = makeStringType"

fun set_grp_atts :: "has_attributes \<Rightarrow> group \<Rightarrow> group" where
  "set_grp_atts as (Group cs vs _) = Group cs vs as"

definition initializeStructure :: "layout \<Rightarrow> group \<Rightarrow> group result" where
  "initializeStructure l g =
     (let mark = (\<lambda>name.
        bind_result (Has_Attributes_add ''_ioda_layout'' string_type [Text name] [1] (grp_atts g)) (\<lambda>as.
        bind_result (Has_Attributes_add ''_ioda_layout_version'' int_type [Integral 0] [1] as) (\<lambda>as.
          Inr (set_grp_atts as g))))
      in case l of Layout_None \<Rightarrow> Inr g | Layout_ObsGroup \<Rightarrow> mark ''ObsGroup'' | Layout_ODB _ \<Rightarrow> mark ''ObsGroup_ODB'')"

definition ObsGroup_setup :: "layout \<Rightarrow> new_dimension_scale list \<Rightarrow> group \<times> heap \<Rightarrow> (group \<times> heap) result" where
  "ObsGroup_setup l fundamentalDims gh =
     bind_result (initializeStructure l (fst gh)) (\<lambda>g. fold_result (setup_dim l) fundamentalDims (g, snd gh))"

text \<open>Without a layout the constructor takes the ObsGroup policy.\<close>

definition ObsGroup_generate ::
    "layout option \<Rightarrow> new_dimension_scale list \<Rightarrow> group \<times> heap \<Rightarrow> (layout \<times> group \<times> heap) result" where
  "ObsGroup_generate layout fundamentalDims gh =
     bind_result (case layout of Some l \<Rightarrow> Inr l | None \<Rightarrow> generate_by_policy Policy_ObsGroup) (\<lambda>l.
     bind_result (ObsGroup_setup l fundamentalDims gh) (\<lambda>gh. Inr (l, gh)))"

section \<open>Resize of an ObsGroup\<close>

definition new_sizes :: "(nat \<times> nat) list \<Rightarrow> obs_variable \<Rightarrow> nat list" where
  "new_sizes newDims var =
     map (\<lambda>idim. fold (\<lambda>(scale, n) d. if Variable_isDimensionScaleAttached idim scale var then n else d) newDims (dimensions var ! idim))
       [0..<length (dimensions var)]"

definition resize_at :: "nat \<Rightarrow> nat list \<Rightarrow> heap \<Rightarrow> heap result" where
  "resize_at a new_dims h = bind_result (Variable_resize new_dims (h ! a)) (\<lambda>v. Inr (h[a := v]))"

definition resizeVars :: "layout \<Rightarrow> (nat \<times> nat) list \<Rightarrow> group \<Rightarrow> heap \<Rightarrow> heap result" where
  "resizeVars l newDims g h =
     (let groupVars = (case snd (Backend_listObjects OT_Variable True g) of Some xs \<Rightarrow> xs | None \<Rightarrow> [])
      in fold_result (\<lambda>name h.
           bind_result (Base_open l name g) (\<lambda>a.
             if \<not> is_scale (h ! a) then resize_at a (new_sizes newDims (h ! a)) h else Inr h)) groupVars h)"

definition ObsGroup_resize :: "layout \<Rightarrow> (nat \<times> nat) list \<Rightarrow> group \<times> heap \<Rightarrow> (group \<times> heap) result" where
  "ObsGroup_resize l newDims gh =
     bind_result (fold_result (\<lambda>(scale, n). resize_at scale [n]) newDims (snd gh)) (\<lambda>h.
     bind_result (resizeVars l newDims (fst gh) h) (\<lambda>h. Inr (fst gh, h)))"


section \<open>Variables agree with their dimension scales\<close>

definition scale_at :: "group \<Rightarrow> heap \<Rightarrow> nat \<Rightarrow> bool" where
  "scale_at g h s \<longleftrightarrow> s < length h \<and> is_scale (h ! s) \<and> (\<exists>n. slash_free n \<and> var_at ([], n) g = Some s)"

text \<open>A scale has one dimension and at most one chunk hint, of the right type; every dimension of another variable has the size and the limit of its scale.\<close>

definition dims_agree :: "group \<Rightarrow> heap \<Rightarrow> obs_variable \<Rightarrow> bool" where
  "dims_agree g h v \<longleftrightarrow> fill_ok v \<and> within_max (dimensions v) (max_dimensions v) \<and>
     (if is_scale v then length (dimensions v) = 1 \<and> (\<exists>c. chunk_hint v = Inr c)
      else length (dim_scales v) = length (dimensions v) \<and>
        (\<forall>i < length (dimensions v). \<exists>s. dim_scales v ! i = Some s \<and> scale_at g h s \<and>
           dimensions (h ! s) = [dimensions v ! i] \<and> max_dimensions (h ! s) = [max_dimensions v ! i]))"

definition at_free :: "string \<Rightarrow> bool" where
  "at_free s \<longleftrightarrow> CHR ''@'' \<notin> set s"

definition obs_group_ok :: "group \<times> heap \<Rightarrow> bool" where
  "obs_group_ok s \<longleftrightarrow> store_inv s \<and> (\<forall>n. Has_Variables_exists n (fst s) \<longrightarrow> at_free n) \<and>
     (\<forall>k a. var_at k (fst s) = Some a \<longrightarrow> dims_agree (fst s) (snd s) (snd s ! a))"

section \<open>Resize keeps variables in agreement with their scales\<close>

text \<open>Everything but the sizes and the data.\<close>

definition same_shape :: "obs_variable \<Rightarrow> obs_variable \<Rightarrow> bool" where
  "same_shape v w \<longleftrightarrow> max_dimensions w = max_dimensions v \<and> dtype w = dtype v \<and> dim_scales w = dim_scales v \<and>
     is_scale w = is_scale v \<and> impl_atts w = impl_atts v \<and> atts w = atts v"

lemma same_shape_refl [simp]: "same_shape v v"
  by (simp add: same_shape_def)

lemma same_shape_trans [trans]: "same_shape u v \<Longrightarrow> same_shape v w \<Longrightarrow> same_shape u w"
  by (simp add: same_shape_def)

lemma same_shape_fill: "same_shape v w \<Longrightarrow> fill_ok w \<longleftrightarrow> fill_ok v"
  by (simp add: same_shape_def fill_ok_def cong: option.case_cong)

lemma same_shape_hint: "same_shape v w \<Longrightarrow> chunk_hint w = chunk_hint v"
  by (simp add: same_shape_def chunk_hint_def)

lemma Variable_resize_shape:
  assumes "fill_ok v" "within_max new (max_dimensions v)"
  obtains w where "Variable_resize new v = Inr w" "dimensions w = new" "same_shape v w"
proof -
  have "length new = length (max_dimensions v)" using assms(2) by (auto simp: within_max_def dest: list_all2_lengthD)
  then show thesis using that Variable_resize_eq [OF assms(1), of new] assms(2) by (simp add: same_shape_def)
qed

lemma fold_last_match:
  "fold (\<lambda>(s, n) d. if x = Some s then n else d) nd d0 =
   (case x of None \<Rightarrow> d0 | Some s \<Rightarrow> case map_of (rev nd) s of Some n \<Rightarrow> n | None \<Rightarrow> d0)"
  by (induction nd arbitrary: d0) (auto simp: map_add_def split: option.splits)

lemma new_sizes_eq:
  "new_sizes nd v = map (\<lambda>i. case dim_scales v ! i of None \<Rightarrow> dimensions v ! i
     | Some s \<Rightarrow> case map_of (rev nd) s of Some n \<Rightarrow> n | None \<Rightarrow> dimensions v ! i) [0..<length (dimensions v)]"
  unfolding new_sizes_def Variable_isDimensionScaleAttached_def fold_last_match ..

text \<open>The sizes after the resize.\<close>

definition resized :: "(nat \<times> nat) list \<Rightarrow> heap \<Rightarrow> nat \<Rightarrow> nat list" where
  "resized nd h a =
     (if is_scale (h ! a) then (case map_of (rev nd) a of Some n \<Rightarrow> [n] | None \<Rightarrow> dimensions (h ! a))
      else new_sizes nd (h ! a))"

definition sizes_within :: "group \<Rightarrow> heap \<Rightarrow> (nat \<times> nat) list \<Rightarrow> bool" where
  "sizes_within g h nd \<longleftrightarrow> (\<forall>(s, n) \<in> set nd. scale_at g h s \<and> within_max [n] (max_dimensions (h ! s)))"

lemma resize_scales:
  assumes "obs_group_ok (g, h)" "sizes_within g h nd"
  shows "\<exists>h'. fold_result (\<lambda>(scale, n). resize_at scale [n]) nd h = Inr h' \<and> length h' = length h \<and>
    (\<forall>a < length h. same_shape (h ! a) (h' ! a) \<and>
       dimensions (h' ! a) = (case map_of (rev nd) a of Some n \<Rightarrow> [n] | None \<Rightarrow> dimensions (h ! a)))"
proof -
  have fill: "fill_ok (h ! s)" if "scale_at g h s" for s
    using that assms(1) by (auto simp: scale_at_def obs_group_ok_def dims_agree_def)
  have "\<exists>h'. fold_result (\<lambda>(scale, n). resize_at scale [n]) nd h1 = Inr h' \<and> length h' = length h \<and>
    (\<forall>a < length h. same_shape (h ! a) (h' ! a) \<and>
       dimensions (h' ! a) = (case map_of (rev nd) a of Some n \<Rightarrow> [n] | None \<Rightarrow> dimensions (h1 ! a)))"
    if "sizes_within g h nd" "length h1 = length h" "\<forall>a < length h. same_shape (h ! a) (h1 ! a)" for h1
    using that
  proof (induction nd arbitrary: h1)
    case (Cons e nd)
    obtain s n where e: "e = (s, n)" by (cases e)
    have s: "scale_at g h s" "s < length h" "within_max [n] (max_dimensions (h1 ! s))" "fill_ok (h1 ! s)"
      using Cons.prems fill [of s] same_shape_fill [of "h ! s" "h1 ! s"]
      by (auto simp: sizes_within_def e scale_at_def same_shape_def)
    obtain w where w: "Variable_resize [n] (h1 ! s) = Inr w" "dimensions w = [n]" "same_shape (h1 ! s) w"
      using Variable_resize_shape [OF s(4,3)] by blast
    let ?h2 = "h1[s := w]"
    have "\<forall>a < length h. same_shape (h ! a) (?h2 ! a)"
      using Cons.prems(2,3) w(3) s(2) same_shape_trans by (auto simp: nth_list_update)
    with Cons.IH [of ?h2] Cons.prems obtain h' where h': "fold_result (\<lambda>(scale, n). resize_at scale [n]) nd ?h2 = Inr h'"
      "length h' = length h" "\<forall>a < length h. same_shape (h ! a) (h' ! a) \<and>
         dimensions (h' ! a) = (case map_of (rev nd) a of Some n \<Rightarrow> [n] | None \<Rightarrow> dimensions (?h2 ! a))"
      by (auto simp: sizes_within_def)
    have "dimensions (h' ! a) = (case map_of (rev (e # nd)) a of Some n \<Rightarrow> [n] | None \<Rightarrow> dimensions (h1 ! a))"
      if "a < length h" for a
      using h'(3) that w(2) s(2) Cons.prems(2) by (auto simp: e map_add_def nth_list_update split: option.splits)
    moreover have "fold_result (\<lambda>(scale, n). resize_at scale [n]) (e # nd) h1 = Inr h'"
      using h'(1) by (simp add: e resize_at_def w(1))
    ultimately show ?case using h'(2,3) by blast
  qed simp
  from this [OF assms(2), of h] show ?thesis by simp
qed

lemma within_max_nth:
  "within_max ns ms \<longleftrightarrow> length ns = length ms \<and> (\<forall>i < length ns. ms ! i < 0 \<or> int (ns ! i) \<le> ms ! i)"
  by (simp add: within_max_def list_all2_conv_all_nth)

lemma new_sizes_within:
  assumes "dims_agree g h v" "\<not> is_scale v" "sizes_within g h nd"
  shows "within_max (new_sizes nd v) (max_dimensions v)" "length (new_sizes nd v) = length (dimensions v)"
proof -
  show len: "length (new_sizes nd v) = length (dimensions v)" by (simp add: new_sizes_def)
  have "max_dimensions v ! i < 0 \<or> int (new_sizes nd v ! i) \<le> max_dimensions v ! i" if i: "i < length (dimensions v)" for i
  proof -
    have w: "max_dimensions v ! i < 0 \<or> int (dimensions v ! i) \<le> max_dimensions v ! i"
      using assms(1) i by (auto simp: dims_agree_def within_max_nth)
    obtain s where s: "dim_scales v ! i = Some s" "max_dimensions (h ! s) = [max_dimensions v ! i]"
      using assms(1,2) i by (auto simp: dims_agree_def)
    show ?thesis
    proof (cases "map_of (rev nd) s")
      case None
      then show ?thesis using w s i by (simp add: new_sizes_eq)
    next
      case (Some n)
      then have "(s, n) \<in> set nd" using map_of_SomeD by fastforce
      then have "within_max [n] [max_dimensions v ! i]" using assms(3) s(2) by (auto simp: sizes_within_def)
      then show ?thesis using Some s i by (auto simp: new_sizes_eq within_max_def)
    qed
  qed
  then show "within_max (new_sizes nd v) (max_dimensions v)"
    using assms(1) len by (auto simp: dims_agree_def within_max_nth)
qed

text \<open>A variable that has its new sizes already is given the same sizes again.\<close>

lemma new_sizes_again:
  assumes "same_shape v w" "dimensions w = new_sizes nd v \<or> dimensions w = dimensions v"
  shows "new_sizes nd w = new_sizes nd v"
  using assms by (auto simp: new_sizes_eq same_shape_def intro!: map_cong split: option.split)


lemma convertV1_at_free: "at_free n \<Longrightarrow> convertV1PathToV2Path n = n"
  by (simp add: convertV1PathToV2Path_def at_free_def str_find_None)

lemma resize_variables:
  assumes ok: "obs_group_ok (g, h)" and nd: "sizes_within g h nd" and len: "length h1 = length h"
    and shape: "\<forall>a < length h. same_shape (h ! a) (h1 ! a) \<and>
      dimensions (h1 ! a) = (if is_scale (h ! a) \<or> a \<in> done then resized nd h a else dimensions (h ! a))"
    and names: "\<forall>n \<in> set ns. Has_Variables_exists n g"
  shows "\<exists>h'. fold_result (\<lambda>name h. bind_result (Base_open Layout_ObsGroup name g) (\<lambda>a.
        if \<not> is_scale (h ! a) then resize_at a (new_sizes nd (h ! a)) h else Inr h)) ns h1 = Inr h' \<and> length h' = length h \<and>
      (\<forall>a < length h. same_shape (h ! a) (h' ! a) \<and>
        dimensions (h' ! a) = (if is_scale (h ! a) \<or> a \<in> done \<or> (\<exists>n \<in> set ns. var_at (resolve n) g = Some a)
          then resized nd h a else dimensions (h ! a)))"
  using len shape names
proof (induction ns arbitrary: h1 "done")
  case Nil
  then show ?case by simp
next
  case (Cons n ns)
  from Cons.prems(3) obtain a where a: "var_at (resolve n) g = Some a" by (auto simp: Has_Variables_exists_iff)
  have "at_free n" using ok Cons.prems(3) by (simp add: obs_group_ok_def)
  then have op: "Base_open Layout_ObsGroup n g = Inr a"
    using a by (simp add: Base_open_def convertV1_at_free Has_Variables_open_iff)
  have a_lt: "a < length h" and agree: "dims_agree g h (h ! a)"
    using ok a by (cases "resolve n"; auto simp: obs_group_ok_def store_inv_def)+
  have sh: "same_shape (h ! a) (h1 ! a)" using Cons.prems(2) a_lt by blast
  obtain h2 where h2: "(if \<not> is_scale (h1 ! a) then resize_at a (new_sizes nd (h1 ! a)) h1 else Inr h1) = Inr h2" "length h2 = length h"
    "\<forall>b < length h. same_shape (h ! b) (h2 ! b) \<and>
        dimensions (h2 ! b) = (if is_scale (h ! b) \<or> b \<in> insert a done then resized nd h b else dimensions (h ! b))"
  proof (cases "is_scale (h ! a)")
    case True
    then have "is_scale (h1 ! a)" using sh by (simp add: same_shape_def)
    then show ?thesis using that [of h1] Cons.prems(1,2) True by auto
  next
    case False
    then have nsc: "\<not> is_scale (h1 ! a)" using sh by (simp add: same_shape_def)
    have again: "new_sizes nd (h1 ! a) = new_sizes nd (h ! a)"
      using Cons.prems(2) a_lt False by (intro new_sizes_again [OF sh]) (auto simp: resized_def)
    have "within_max (new_sizes nd (h1 ! a)) (max_dimensions (h1 ! a))" "fill_ok (h1 ! a)"
      using new_sizes_within(1) [OF agree False nd] sh agree same_shape_fill [OF sh]
      by (simp_all add: again same_shape_def dims_agree_def)
    then obtain w where w: "Variable_resize (new_sizes nd (h1 ! a)) (h1 ! a) = Inr w"
      "dimensions w = new_sizes nd (h ! a)" "same_shape (h1 ! a) w"
      using Variable_resize_shape again by metis
    have "same_shape (h ! b) (h1[a := w] ! b) \<and>
        dimensions (h1[a := w] ! b) = (if is_scale (h ! b) \<or> b \<in> insert a done then resized nd h b else dimensions (h ! b))"
      if "b < length h" for b
    proof (cases "b = a")
      case True
      then show ?thesis using w sh False a_lt Cons.prems(1) same_shape_trans [OF sh w(3)] by (simp add: resized_def)
    next
      case False
      then show ?thesis using Cons.prems(2) that by simp
    qed
    then show ?thesis using that [of "h1[a := w]"] nsc w(1) Cons.prems(1) by (simp add: resize_at_def)
  qed
  have names: "(b \<in> insert a done \<or> (\<exists>m \<in> set ns. var_at (resolve m) g = Some b)) =
      (b \<in> done \<or> (\<exists>m \<in> set (n # ns). var_at (resolve m) g = Some b))" for b using a by auto
  have "\<forall>n \<in> set ns. Has_Variables_exists n g" using Cons.prems(3) by simp
  from Cons.IH [OF h2(2,3) this] show ?case unfolding names using op h2(1) by simp
qed

lemma ObsGroup_resize_result:
  assumes "obs_group_ok (g, h)" "sizes_within g h nd"
  obtains h' where "ObsGroup_resize Layout_ObsGroup nd (g, h) = Inr (g, h')" "length h' = length h"
    "\<And>a. a < length h \<Longrightarrow> same_shape (h ! a) (h' ! a)"
    "\<And>k a. var_at k g = Some a \<Longrightarrow> dimensions (h' ! a) = resized nd h a"
    "\<And>s. scale_at g h s \<Longrightarrow> dimensions (h' ! s) = resized nd h s"
proof -
  obtain h1 where h1: "fold_result (\<lambda>(scale, n). resize_at scale [n]) nd h = Inr h1" "length h1 = length h"
    "\<forall>a < length h. same_shape (h ! a) (h1 ! a) \<and>
       dimensions (h1 ! a) = (case map_of (rev nd) a of Some n \<Rightarrow> [n] | None \<Rightarrow> dimensions (h ! a))"
    using resize_scales [OF assms] by blast
  have inv: "store_inv (g, h)" using assms(1) by (simp add: obs_group_ok_def)
  have "map_of (rev nd) a = None" if "\<not> is_scale (h ! a)" for a
    using assms(2) that by (fastforce simp: sizes_within_def scale_at_def map_of_eq_None_iff)
  then have "\<forall>a < length h. same_shape (h ! a) (h1 ! a) \<and>
      dimensions (h1 ! a) = (if is_scale (h ! a) \<or> a \<in> {} then resized nd h a else dimensions (h ! a))"
    using h1(3) by (simp add: resized_def)
  from resize_variables [OF assms h1(2) this, of "variable_names '''' g"] obtain h' where
    h': "fold_result (\<lambda>name h. bind_result (Base_open Layout_ObsGroup name g) (\<lambda>a.
        if \<not> is_scale (h ! a) then resize_at a (new_sizes nd (h ! a)) h else Inr h)) (variable_names '''' g) h1 = Inr h'"
      "length h' = length h" "\<forall>a < length h. same_shape (h ! a) (h' ! a) \<and>
        dimensions (h' ! a) = (if is_scale (h ! a) \<or> (\<exists>n \<in> set (variable_names '''' g). var_at (resolve n) g = Some a)
          then resized nd h a else dimensions (h ! a))"
    unfolding listing_names(2) [OF inv] by auto
  have "dimensions (h' ! a) = resized nd h a" if "var_at k g = Some a" for k a
  proof -
    obtain ps v where k: "k = (ps, v)" by (cases k)
    have free: "list_all slash_free ps" "slash_free v" "a < length h" using inv that by (auto simp: store_inv_def k)
    then have "resolve (path_name k) = k" by (simp add: k resolve_path_name)
    then have "path_name k \<in> set (variable_names '''' g)" "var_at (resolve (path_name k)) g = Some a"
      using that by (simp_all add: listing_names(2) [OF inv] Has_Variables_exists_iff)
    then show ?thesis using h'(3) free(3) by auto
  qed
  moreover have "ObsGroup_resize Layout_ObsGroup nd (g, h) = Inr (g, h')"
    using h1(1) h'(1) by (simp add: ObsGroup_resize_def resizeVars_def listing_names(1) [OF inv])
  ultimately show thesis using that [of h'] h'(2,3) by (simp add: scale_at_def)
qed

lemma obs_group_ok_resized:
  assumes ok: "obs_group_ok (g, h)" and nd: "sizes_within g h nd" and len: "length h' = length h"
    and shape: "\<And>a. a < length h \<Longrightarrow> same_shape (h ! a) (h' ! a)"
    and dims: "\<And>k a. var_at k g = Some a \<Longrightarrow> dimensions (h' ! a) = resized nd h a"
  shows "obs_group_ok (g, h')"
proof -
  have sc: "scale_at g h' s \<longleftrightarrow> scale_at g h s" for s
    using len shape by (auto simp: scale_at_def same_shape_def)
  have "dims_agree g h' (h' ! a)" if k: "var_at k g = Some a" for k a
  proof -
    have a: "a < length h" and ag: "dims_agree g h (h ! a)" using ok k by (cases k; auto simp: obs_group_ok_def store_inv_def)+
    note sh = shape [OF a]
    show ?thesis
    proof (cases "is_scale (h ! a)")
      case True
      have "within_max (resized nd h a) (max_dimensions (h ! a)) \<and> length (resized nd h a) = 1"
      proof (cases "map_of (rev nd) a")
        case None
        then show ?thesis using ag True by (simp add: resized_def dims_agree_def)
      next
        case (Some n)
        then have "(a, n) \<in> set nd" using map_of_SomeD by fastforce
        then show ?thesis using nd Some True by (auto simp: resized_def sizes_within_def)
      qed
      then show ?thesis using sh ag True dims [OF k] same_shape_fill [OF sh] same_shape_hint [OF sh] by (simp add: dims_agree_def same_shape_def)
    next
      case False
      note n = new_sizes_within [OF ag False nd]
      have "\<exists>s. dim_scales (h ! a) ! i = Some s \<and> scale_at g h' s \<and> dimensions (h' ! s) = [new_sizes nd (h ! a) ! i] \<and>
          max_dimensions (h' ! s) = [max_dimensions (h ! a) ! i]" if i: "i < length (dimensions (h ! a))" for i
      proof -
        obtain s where s: "dim_scales (h ! a) ! i = Some s" "scale_at g h s" "dimensions (h ! s) = [dimensions (h ! a) ! i]"
          "max_dimensions (h ! s) = [max_dimensions (h ! a) ! i]" using ag False i by (auto simp: dims_agree_def)
        then have "dimensions (h' ! s) = resized nd h s" using dims by (auto simp: scale_at_def)
        also have "\<dots> = [new_sizes nd (h ! a) ! i]"
          using s i by (auto simp: resized_def scale_at_def new_sizes_eq split: option.split)
        finally show ?thesis using s shape [of s] len by (auto simp: sc scale_at_def same_shape_def)
      qed
      then show ?thesis
        using sh ag False dims [OF k] n same_shape_fill [OF sh] by (simp add: dims_agree_def same_shape_def resized_def)
    qed
  qed
  then show ?thesis using ok len by (simp add: obs_group_ok_def store_inv_def)
qed


section \<open>Creation keeps variables in agreement with their scales\<close>

lemma Has_Attributes_add_keeps:
  assumes "Has_Attributes_add n ty data dims as = Inr as'" "std_map_ok as"
  shows "std_map_ok as'" "m \<noteq> n \<Longrightarrow> std_find as' m = std_find as m"
  using assms by (auto simp: Has_Attributes_add_def Has_Attributes_create_def std_find_insert std_find_assign split: if_splits)

lemma add_creation_atts_keeps:
  assumes "add_creation_atts dims p as = Inr as'" "std_map_ok as"
  shows "std_map_ok as'" "std_find as' ''_fillValue'' = std_find as ''_fillValue''"
proof -
  let ?chunks = "if vcp_chunk p
        then bind_result (getChunks dims p) (\<lambda>cs. Has_Attributes_add ''_chunks'' long_type (map Integral cs) [length cs] as) else Inr as"
  let ?gzip = "\<lambda>as. if vcp_gzip p then Has_Attributes_add ''_gzip'' int_type [Integral (gzip_level p)] [1] as else Inr as"
  let ?szip = "\<lambda>as. if vcp_szip p
       then Has_Attributes_add ''_szip'' uint_type [Integral (szip_options p), Integral (szip_PixelsPerBlock p)] [2] as else Inr as"
  obtain a1 a2 where a: "?chunks = Inr a1" "?gzip a1 = Inr a2" "?szip a2 = Inr as'"
    using assms(1) unfolding add_creation_atts_def bind_result_eq_Inr by blast
  have 1: "std_map_ok a1 \<and> std_find a1 ''_fillValue'' = std_find as ''_fillValue''"
    using a(1) assms(2) by (auto split: if_splits dest: Has_Attributes_add_keeps(1) Has_Attributes_add_keeps(2) [where m = "''_fillValue''"])
  have 2: "std_map_ok a2 \<and> std_find a2 ''_fillValue'' = std_find a1 ''_fillValue''"
    using a(2) 1 by (auto split: if_splits dest: Has_Attributes_add_keeps(1) Has_Attributes_add_keeps(2) [where m = "''_fillValue''"])
  have "std_map_ok as' \<and> std_find as' ''_fillValue'' = std_find a2 ''_fillValue''"
    using a(3) 2 by (auto split: if_splits dest: Has_Attributes_add_keeps(1) Has_Attributes_add_keeps(2) [where m = "''_fillValue''"])
  with 1 2 show "std_map_ok as'" "std_find as' ''_fillValue'' = std_find as ''_fillValue''" by simp_all
qed

lemma fold_add_map_ok:
  "fold_result (\<lambda>(name, ty, data, dims). Has_Attributes_add name ty data dims) xs as = Inr as' \<Longrightarrow> std_map_ok as \<Longrightarrow> std_map_ok as'"
  by (induction xs arbitrary: as) (auto dest: Has_Attributes_add_keeps(1))

lemma Variable_not_scale: "Variable dims max_dims ty params = Inr v \<Longrightarrow> \<not> is_scale v \<and> atts v = []"
proof -
  have res: "is_scale w = is_scale u \<and> atts w = atts u" if "Variable_resize ds u = Inr w" for u w ds
    using that by (auto simp: Variable_resize_def Let_def split: if_splits bind_splits)
  show "Variable dims max_dims ty params = Inr v \<Longrightarrow> \<not> is_scale v \<and> atts v = []"
    by (auto simp: Variable_def split: bind_splits if_splits dest!: res)
qed

definition fits_type :: "variable_creation_parameters \<Rightarrow> obs_type \<Rightarrow> bool" where
  "fits_type p ty \<longleftrightarrow> 0 < ty_num_elements ty \<and>
     (case vcp_fillValue p of None \<Rightarrow> True | Some fv \<Rightarrow> length fv = ty_num_elements ty)"

text \<open>A new variable that has not yet been attached to its scales.\<close>

definition fresh_variable :: "nat list \<Rightarrow> int list \<Rightarrow> obs_variable \<Rightarrow> bool" where
  "fresh_variable dims max_dims v \<longleftrightarrow> variable_ok v \<and> dimensions v = dims \<and> max_dimensions v = max_dims \<and> \<not> is_scale v"

lemma fresh_variable_facts:
  assumes "fresh_variable dims max_dims v"
  shows "fill_ok v" "within_max dims max_dims" "length (dim_scales v) = length dims"
  using assms by (auto simp: fresh_variable_def variable_ok_def)

lemma Base_create_result:
  assumes "group_ok g" "Base_create l name ty dims max_dims p (g, h) = Inr (a, s')" "length dims = length max_dims" "fits_type p ty"
  obtains v where "a = length h" "s' = (insert_var (resolve (doMap l name)) (length h) g, h @ [v])" "fresh_variable dims max_dims v"
    "fold_result (\<lambda>(name, ty, data, dims). Has_Attributes_add name ty data dims) (vcp_atts p) [] = Inr (atts v)" "dtype v = ty"
proof -
  define md where "md = (if max_dims \<noteq> [] then max_dims else map int dims)"
  have md: "md = max_dims" using assms(3) by (cases max_dims) (simp_all add: md_def)
  let ?g = "insert_var (resolve (doMap l name)) (length h) g"
  obtain u as w where u: "Variable dims max_dims ty (os_params p) = Inr u" "add_creation_atts dims p (impl_atts u) = Inr as"
    "apply_creation_atts p (u \<lparr> impl_atts := as \<rparr>) = Inr w" "a = length h" "s' = (?g, h @ [w])"
    using assms(2,3) unfolding Base_create_def HasVariables_Backend_create_def Has_Variables_create_eq [OF assms(1)] md_def [symmetric]
    by (auto simp: md split: if_splits)
  obtain as2 where w: "w = u \<lparr> impl_atts := as, atts := as2 \<rparr>"
    "fold_result (\<lambda>(name, ty, data, dims). Has_Attributes_add name ty data dims) (vcp_atts p) [] = Inr as2"
    using u(3) Variable_not_scale [OF u(1)] by (auto simp: apply_creation_atts_def)
  have ok: "variable_ok u \<and> dimensions u = dims \<and> max_dimensions u = max_dims \<and> dtype u = ty"
    using variable_ok_created [OF u(1) assms(3)] assms(4) by (auto simp: fits_type_def os_params_def split: option.splits)
  have "std_map_ok as" "std_find as ''_fillValue'' = std_find (impl_atts u) ''_fillValue''"
    using add_creation_atts_keeps [OF u(2)] Variable_impl_atts(1) [OF u(1)] by simp_all
  moreover have "std_map_ok as2" using fold_add_map_ok [OF w(2)] by simp
  ultimately have "fresh_variable dims max_dims w"
    using ok Variable_not_scale [OF u(1)] by (auto simp: fresh_variable_def w(1) variable_ok_def fill_ok_def cong: option.case_cong)
  then show thesis using that [of w] u(4,5) w ok by simp
qed

lemma scale_at_insert:
  assumes "group_ok g" "scale_at g h s"
  shows "scale_at (insert_var k a g) (h @ [v]) s"
  using assms by (auto simp: scale_at_def var_at_insert_var nth_append)

lemma dims_agree_mono:
  assumes "dims_agree g h v" "\<And>s. scale_at g h s \<Longrightarrow> scale_at g' h' s \<and> dimensions (h' ! s) = dimensions (h ! s) \<and>
      max_dimensions (h' ! s) = max_dimensions (h ! s)"
  shows "dims_agree g' h' v"
proof (cases "is_scale v")
  case True
  then show ?thesis using assms(1) by (simp add: dims_agree_def)
next
  case False
  have "\<exists>s. dim_scales v ! i = Some s \<and> scale_at g' h' s \<and> dimensions (h' ! s) = [dimensions v ! i] \<and>
      max_dimensions (h' ! s) = [max_dimensions v ! i]" if i: "i < length (dimensions v)" for i
  proof -
    obtain s where "dim_scales v ! i = Some s" "scale_at g h s" "dimensions (h ! s) = [dimensions v ! i]"
      "max_dimensions (h ! s) = [max_dimensions v ! i]" using assms(1) False i by (auto simp: dims_agree_def)
    then show ?thesis using assms(2) [of s] by auto
  qed
  then show ?thesis using assms(1) False by (simp add: dims_agree_def)
qed

lemma dims_agree_insert:
  assumes "group_ok g" "dims_agree g h v"
  shows "dims_agree (insert_var k a g) (h @ [w]) v"
proof (rule dims_agree_mono [OF assms(2)])
  fix s assume s: "scale_at g h s"
  then have "s < length h" by (simp add: scale_at_def)
  with scale_at_insert [OF assms(1) s, of k a w]
  show "scale_at (insert_var k a g) (h @ [w]) s \<and> dimensions ((h @ [w]) ! s) = dimensions (h ! s) \<and>
      max_dimensions ((h @ [w]) ! s) = max_dimensions (h ! s)" by (simp add: nth_append)
qed

subsection \<open>Variables that still have to be attached\<close>

definition pending_ok :: "group \<Rightarrow> heap \<Rightarrow> nat \<times> nat list \<Rightarrow> bool" where
  "pending_ok g h p \<longleftrightarrow> fst p < length h \<and> (\<forall>s \<in> set (snd p). scale_at g h s) \<and>
     fresh_variable (map (\<lambda>s. dimensions (h ! s) ! 0) (snd p)) (map (\<lambda>s. max_dimensions (h ! s) ! 0) (snd p)) (h ! fst p)"

definition pending_group_ok :: "(nat \<times> nat list) list \<Rightarrow> group \<times> heap \<Rightarrow> bool" where
  "pending_group_ok ps s \<longleftrightarrow> store_inv s \<and> (\<forall>n. Has_Variables_exists n (fst s) \<longrightarrow> at_free n) \<and>
     (\<forall>k a. var_at k (fst s) = Some a \<longrightarrow> a \<in> fst ` set ps \<or> dims_agree (fst s) (snd s) (snd s ! a)) \<and>
     distinct (map fst ps) \<and> list_all (pending_ok (fst s) (snd s)) ps"

lemma pending_Nil: "pending_group_ok [] s \<longleftrightarrow> obs_group_ok s"
  by (simp add: pending_group_ok_def obs_group_ok_def)

lemma pending_named:
  "pending_group_ok ps (g, h) \<Longrightarrow> var_at k g = Some a \<Longrightarrow> a \<in> fst ` set ps \<or> dims_agree g h (h ! a)"
  unfolding pending_group_ok_def fst_conv snd_conv by blast

lemma scale_one_dim:
  assumes "pending_group_ok ps (g, h)" "scale_at g h s"
  shows "dimensions (h ! s) = [dimensions (h ! s) ! 0]" "max_dimensions (h ! s) = [max_dimensions (h ! s) ! 0]"
proof -
  obtain n where n: "var_at ([], n) g = Some s" and sc: "is_scale (h ! s)" using assms(2) by (auto simp: scale_at_def)
  have "s \<notin> fst ` set ps"
    using assms(1) sc by (auto simp: pending_group_ok_def list_all_iff pending_ok_def fresh_variable_def)
  then have "dims_agree g h (h ! s)" using pending_named [OF assms(1) n] by blast
  then have "length (dimensions (h ! s)) = 1" "length (max_dimensions (h ! s)) = 1"
    using sc by (auto simp: dims_agree_def within_max_nth)
  then show "dimensions (h ! s) = [dimensions (h ! s) ! 0]" "max_dimensions (h ! s) = [max_dimensions (h ! s) ! 0]"
    by (simp_all add: length_Suc_conv) auto
qed

lemma setDimScale_eq: "length (dim_scales v) = length ss \<Longrightarrow> setDimScale ss v = v \<lparr> dim_scales := map Some ss \<rparr>"
proof -
  assume len: "length (dim_scales v) = length ss"
  have "fold (\<lambda>i. Variable_attachDimensionScale i (ss ! i)) [0..<k] v
      = v \<lparr> dim_scales := map Some (take k ss) @ drop k (dim_scales v) \<rparr>" if "k \<le> length ss" for k
    using that
  proof (induction k)
    case (Suc k)
    have "(map Some (take k ss) @ drop k (dim_scales v))[k := Some (ss ! k)] = map Some (take (Suc k) ss) @ drop (Suc k) (dim_scales v)"
      using Suc.prems len by (simp add: list_update_append take_Suc_conv_app_nth Cons_nth_drop_Suc [symmetric])
    with Suc show ?case by (simp add: Variable_attachDimensionScale_def)
  qed simp
  from this [of "length ss"] len show ?thesis by (simp add: setDimScale_def)
qed

lemma attach_one:
  assumes "pending_group_ok ((a, ss) # ps) (g, h)"
  shows "pending_group_ok ps (g, h[a := setDimScale ss (h ! a)])"
proof -
  let ?v = "(h ! a) \<lparr> dim_scales := map Some ss \<rparr>" and ?h = "h[a := (h ! a) \<lparr> dim_scales := map Some ss \<rparr>]"
  have p: "pending_ok g h (a, ss)" "list_all (pending_ok g h) ps" "a \<notin> fst ` set ps" "distinct (map fst ps)"
    using assms by (auto simp: pending_group_ok_def)
  have a: "a < length h" and fresh: "fresh_variable (map (\<lambda>s. dimensions (h ! s) ! 0) ss) (map (\<lambda>s. max_dimensions (h ! s) ! 0) ss) (h ! a)"
    and ss: "\<And>s. s \<in> set ss \<Longrightarrow> scale_at g h s" using p(1) by (auto simp: pending_ok_def)
  have v: "setDimScale ss (h ! a) = ?v" using fresh_variable_facts(3) [OF fresh] by (intro setDimScale_eq) simp
  have nth: "?h ! b = (if b = a then ?v else h ! b)" for b using a by (cases "b = a") simp_all
  have sc: "scale_at g ?h s \<longleftrightarrow> scale_at g h s" for s by (auto simp: scale_at_def nth)
  have agree: "dims_agree g h u \<Longrightarrow> dims_agree g ?h u" for u
    by (erule dims_agree_mono) (auto simp: sc nth)
  have "dims_agree g h ?v"
    using fresh fresh_variable_facts [OF fresh] ss scale_one_dim [OF assms]
    by (auto simp: dims_agree_def fresh_variable_def fill_ok_def cong: option.case_cong)
  then have "dims_agree g ?h (?h ! b)" if "b = a \<or> dims_agree g h (h ! b)" for b
    using agree that by (auto simp: nth)
  moreover have "pending_ok g ?h q" if "q \<in> set ps" for q
  proof -
    have ok: "pending_ok g h q" and ne: "fst q \<noteq> a" using that p(2,3) by (auto simp: list_all_iff image_iff)
    have "s \<noteq> a" if "scale_at g h s" for s using that fresh by (auto simp: scale_at_def fresh_variable_def)
    then have "h ! s = ?h ! s" if "s \<in> set (snd q)" for s using ok that by (auto simp: pending_ok_def nth)
    with ok ne show ?thesis by (auto simp: pending_ok_def sc nth cong: map_cong)
  qed
  moreover have "b = a \<or> b \<in> fst ` set ps \<or> dims_agree g h (h ! b)" if "var_at k g = Some b" for k b
    using pending_named [OF assms that] by simp
  ultimately have "b \<in> fst ` set ps \<or> dims_agree g ?h (?h ! b)" if "var_at k g = Some b" for k b
    using that by blast
  moreover have "list_all (pending_ok g ?h) ps" using \<open>\<And>q. q \<in> set ps \<Longrightarrow> pending_ok g ?h q\<close> by (simp add: list_all_iff)
  ultimately show ?thesis
    using assms p(4) unfolding v pending_group_ok_def by (simp add: store_inv_def)
qed

lemma attach_all: "pending_group_ok ps (g, h) \<Longrightarrow> obs_group_ok (g, attachDimensionScales ps h)"
proof (induction ps arbitrary: h)
  case Nil
  then show ?case by (simp add: pending_Nil attachDimensionScales_def)
next
  case (Cons p ps)
  obtain a ss where "p = (a, ss)" by (cases p)
  with Cons attach_one [of a ss ps g h] show ?case by (simp add: attachDimensionScales_def)
qed


subsection \<open>The three operations\<close>

definition new_variable_ok :: "group \<Rightarrow> heap \<Rightarrow> new_variable \<Rightarrow> bool" where
  "new_variable_ok g h nv \<longleftrightarrow> (\<forall>s \<in> set (nv_scales nv). scale_at g h s) \<and>
     (\<forall>t. provide_type (nv_dataType nv) = Inr t \<longrightarrow> fits_type (nv_vcp nv) t)"

definition new_dimension_ok :: "new_dimension_scale \<Rightarrow> bool" where
  "new_dimension_ok f \<longleftrightarrow> slash_free (nd_name f) \<and> at_free (nd_name f) \<and>
     (\<forall>t. provide_type (nd_dataType f) = Inr t \<longrightarrow> 0 < ty_num_elements t)"

lemma insert_exists:
  assumes "group_ok g"
  shows "Has_Variables_exists n (insert_var (resolve m) a g) \<longleftrightarrow> n = m \<or> Has_Variables_exists n g"
  by (auto simp: Has_Variables_exists_iff var_at_insert_var [OF assms] resolve_inj)

lemma store_inv_insert:
  assumes "store_inv (g, h)"
  shows "store_inv (insert_var (resolve n) (length h) g, h @ [v])"
proof -
  have ok: "group_ok g" using assms by (simp add: store_inv_def)
  have "list_all slash_free (fst k) \<and> slash_free (snd k) \<and> a < length (h @ [v])"
    if "var_at k (insert_var (resolve n) (length h) g) = Some a" for k a
  proof (cases "k = resolve n \<and> var_at k g = None")
    case True
    then show ?thesis using that resolve_slash_free [of n] by (simp add: var_at_insert_var [OF ok] split: if_splits)
  next
    case False
    then have "var_at k g = Some a" using that by (simp add: var_at_insert_var [OF ok] split: if_splits)
    then have "list_all slash_free (fst k) \<and> slash_free (snd k) \<and> a < length h"
      using assms unfolding store_inv_def fst_conv snd_conv by blast
    then show ?thesis by simp
  qed
  then show ?thesis using ok unfolding store_inv_def by (simp add: insert_var_ok)
qed

lemma pending_insert:
  assumes "pending_group_ok ps (g, h)" "at_free n" "fresh_variable dims max_dims v"
    "dims = map (\<lambda>s. dimensions (h ! s) ! 0) ss" "max_dims = map (\<lambda>s. max_dimensions (h ! s) ! 0) ss" "\<forall>s \<in> set ss. scale_at g h s"
  shows "pending_group_ok (ps @ [(length h, ss)]) (insert_var (resolve n) (length h) g, h @ [v])"
proof -
  let ?g = "insert_var (resolve n) (length h) g" and ?h = "h @ [v]"
  have inv: "store_inv (g, h)" and ok: "group_ok g" using assms(1) by (auto simp: pending_group_ok_def store_inv_def)
  have sc: "scale_at g h s \<Longrightarrow> scale_at ?g ?h s" for s by (rule scale_at_insert [OF ok])
  have same: "?h ! s = h ! s" if "s < length h" for s using that by (simp add: nth_append)
  have scl: "s < length h" if "scale_at g h s" for s using that by (simp add: scale_at_def)
  have old: "pending_ok ?g ?h p" if "pending_ok g h p" for p
    using that sc scl by (auto simp: pending_ok_def same cong: map_cong)
  have new: "pending_ok ?g ?h (length h, ss)"
    using assms(3-6) sc scl by (auto simp: pending_ok_def same cong: map_cong)
  have named: "a \<in> fst ` set (ps @ [(length h, ss)]) \<or> dims_agree ?g ?h (?h ! a)" if "var_at k ?g = Some a" for k a
  proof (cases "k = resolve n \<and> var_at k g = None")
    case True
    then show ?thesis using that by (simp add: var_at_insert_var [OF ok] split: if_splits)
  next
    case False
    then have k: "var_at k g = Some a" using that by (simp add: var_at_insert_var [OF ok] split: if_splits)
    then have a: "a < length h" using inv unfolding store_inv_def fst_conv snd_conv by blast
    show ?thesis
      using pending_named [OF assms(1) k] dims_agree_insert [OF ok, of h "h ! a" "resolve n" "length h" v] by (auto simp: same [OF a])
  qed
  have "length h \<notin> fst ` set ps" "distinct (map fst ps)" "list_all (pending_ok g h) ps"
    using assms(1) by (auto simp: pending_group_ok_def list_all_iff pending_ok_def)
  then have "distinct (map fst (ps @ [(length h, ss)]))" "list_all (pending_ok ?g ?h) (ps @ [(length h, ss)])"
    using old new by (auto simp: list_all_iff)
  moreover have "at_free m" if "Has_Variables_exists m ?g" for m
    using that assms(1,2) by (auto simp: insert_exists [OF ok] pending_group_ok_def)
  ultimately show ?thesis using store_inv_insert [OF inv] named unfolding pending_group_ok_def by simp
qed

lemma create_one_cases:
  assumes "create_one l nv (g, h) = Inr r"
  obtains t p where "provide_type (nv_dataType nv) = Inr t" "vcp_fillValue p = vcp_fillValue (nv_vcp nv)"
    "Base_create l (nv_name nv) t (map (\<lambda>s. dimensions (h ! s) ! 0) (nv_scales nv))
       (map (\<lambda>s. max_dimensions (h ! s) ! 0) (nv_scales nv)) p (g, h) = Inr r"
proof -
  let ?p = "VariableCreationParameters_copy (nv_vcp nv) \<lparr> vcp_chunk := True \<rparr>"
  let ?q = "\<lambda>hints. if vcp_chunks ?p = [] then ?p \<lparr> vcp_chunks := hints \<rparr> else ?p"
  obtain t hints where "provide_type (nv_dataType nv) = Inr t"
    "Base_create l (nv_name nv) t (map (\<lambda>s. dimensions (h ! s) ! 0) (nv_scales nv))
       (map (\<lambda>s. max_dimensions (h ! s) ! 0) (nv_scales nv)) (?q hints) (g, h) = Inr r"
    using assms unfolding create_one_def Let_def bind_result_eq_Inr map_map comp_def snd_conv by blast
  moreover have "vcp_fillValue (?q hints) = vcp_fillValue (nv_vcp nv)" by (simp add: VariableCreationParameters_copy_def)
  ultimately show thesis using that by blast
qed

lemma create_one_pending:
  assumes "pending_group_ok ps (g, h)" "new_variable_ok g h nv" "create_one Layout_ObsGroup nv (g, h) = Inr (a, g', h')"
  shows "pending_group_ok (ps @ [(a, nv_scales nv)]) (g', h')" "scale_at g h s \<Longrightarrow> scale_at g' h' s"
    "g' = insert_var (resolve (doMap Layout_ObsGroup (nv_name nv))) (length h) g" "a = length h" "\<exists>v. h' = h @ [v]"
proof -
  have ok: "group_ok g" using assms(1) by (simp add: pending_group_ok_def store_inv_def)
  let ?dims = "map (\<lambda>s. dimensions (h ! s) ! 0) (nv_scales nv)" and ?max = "map (\<lambda>s. max_dimensions (h ! s) ! 0) (nv_scales nv)"
  obtain t p where t: "provide_type (nv_dataType nv) = Inr t" and p: "vcp_fillValue p = vcp_fillValue (nv_vcp nv)"
    and c: "Base_create Layout_ObsGroup (nv_name nv) t ?dims ?max p (g, h) = Inr (a, g', h')"
    by (rule create_one_cases [OF assms(3)]) simp
  have fits: "fits_type p t" using assms(2) t p by (simp add: new_variable_ok_def fits_type_def)
  obtain v where v: "a = length h" "(g', h') = (insert_var (resolve (doMap Layout_ObsGroup (nv_name nv))) (length h) g, h @ [v])"
    "fresh_variable ?dims ?max v" by (rule Base_create_result [OF ok c _ fits]) simp_all
  have "at_free (doMap Layout_ObsGroup (nv_name nv))" by (simp add: at_free_def convertV1PathToV2Path_at_free)
  from pending_insert [OF assms(1) this v(3)] v(1,2) assms(2)
  show "pending_group_ok (ps @ [(a, nv_scales nv)]) (g', h')" by (simp add: new_variable_ok_def)
  show "scale_at g h s \<Longrightarrow> scale_at g' h' s" using scale_at_insert [OF ok] v(2) by simp
  show "g' = insert_var (resolve (doMap Layout_ObsGroup (nv_name nv))) (length h) g" "a = length h" "\<exists>v. h' = h @ [v]"
    using v(1,2) by simp_all
qed

lemma createWithScales_ok:
  assumes "obs_group_ok (g, h)" "\<forall>nv \<in> set nvs. new_variable_ok g h nv" "createWithScales Layout_ObsGroup nvs (g, h) = Inr s'"
  shows "obs_group_ok s'"
proof -
  let ?step = "\<lambda>newvar (gh, scaleMappings).
         bind_result (create_one Layout_ObsGroup newvar gh) (\<lambda>(a, gh). Inr (gh, scaleMappings @ [(a, nv_scales newvar)]))"
  have loop: "pending_group_ok ps' (g', h')"
    if "fold_result ?step nvs ((g1, h1), ps) = Inr ((g', h'), ps')" "pending_group_ok ps (g1, h1)"
      "\<forall>nv \<in> set nvs. new_variable_ok g1 h1 nv" for g1 h1 ps g' h' ps'
    using that
  proof (induction nvs arbitrary: g1 h1 ps)
    case (Cons nv nvs)
    from Cons.prems(1) obtain a g2 h2 where c: "create_one Layout_ObsGroup nv (g1, h1) = Inr (a, g2, h2)"
      and rest: "fold_result ?step nvs ((g2, h2), ps @ [(a, nv_scales nv)]) = Inr ((g', h'), ps')"
      by auto
    have nv: "new_variable_ok g1 h1 nv" using Cons.prems(3) by simp
    have "\<forall>nv \<in> set nvs. new_variable_ok g2 h2 nv"
      using Cons.prems(3) create_one_pending(2) [OF Cons.prems(2) nv c] by (auto simp: new_variable_ok_def)
    with Cons.IH [OF rest create_one_pending(1) [OF Cons.prems(2) nv c]] show ?case by blast
  qed simp
  obtain g' h' ps where run: "fold_result ?step nvs ((g, h), []) = Inr ((g', h'), ps)"
    and s': "s' = (g', attachDimensionScales ps h')"
    using assms(3) by (auto simp: createWithScales_def)
  have "pending_group_ok ps (g', h')" using loop [OF run] assms(1,2) by (simp add: pending_Nil)
  then show ?thesis unfolding s' by (rule attach_all)
qed

text \<open>The chunk size of a new scale is what variables on the scale take as hint.\<close>

lemma dim_params_hint:
  assumes "fold_result (\<lambda>(name, ty, data, dims). Has_Attributes_add name ty data dims) (vcp_atts (dim_params f)) [] = Inr (atts v)"
  shows "chunk_hint v = Inr (nd_chunkingSize f)"
proof -
  obtain as' where "Has_Attributes_add ''suggested_chunk_dim'' long_type [Integral (nd_chunkingSize f)] [1] [] = Inr as'"
    "Has_Attributes_read ''suggested_chunk_dim'' long_type as' = Inr [Integral (nd_chunkingSize f)]"
    "std_find as' ''suggested_chunk_dim'' \<noteq> None"
    by (rule Has_Attributes_add_new [OF fundamental_examples(1), of "[]" "''suggested_chunk_dim''" "[Integral (nd_chunkingSize f)]" "[1]"])
      simp_all
  moreover from this(1) assms have "as' = atts v" by (simp add: dim_params_def)
  ultimately show ?thesis by (simp add: chunk_hint_def Has_Attributes_exists_def scalar_int_def)
qed

lemma setup_dim_result:
  assumes ok: "group_ok g" and "new_dimension_ok f" "setup_dim Layout_ObsGroup f (g, h) = Inr s'"
  obtains w where "s' = (insert_var (resolve (nd_name f)) (length h) g, h @ [w])" "is_scale w" "fill_ok w"
    "dimensions w = [nd_size f]" "max_dimensions w = [nd_maxSize f]" "within_max [nd_size f] [nd_maxSize f]"
    "chunk_hint w = Inr (nd_chunkingSize f)"
proof -
  obtain t a g' h' w where t: "provide_type (nd_dataType f) = Inr t"
    and c: "Base_create Layout_ObsGroup (nd_name f) t [nd_size f] [nd_maxSize f] (dim_params f) (g, h) = Inr (a, g', h')"
    and w: "writeInitialData f t (Variable_setIsDimensionScale (nd_name f) (h' ! a)) = Inr w" and s': "s' = (g', h'[a := w])"
    using assms(3) by (auto simp: setup_dim_def)
  have fits: "fits_type (dim_params f) t"
    using assms(2) t by (simp add: new_dimension_ok_def fits_type_def dim_params_def VariableCreationParameters_def)
  obtain v where v: "a = length h" "(g', h') = (insert_var (resolve (doMap Layout_ObsGroup (nd_name f))) (length h) g, h @ [v])"
    "fresh_variable [nd_size f] [nd_maxSize f] v"
    "fold_result (\<lambda>(name, ty, data, dims). Has_Attributes_add name ty data dims) (vcp_atts (dim_params f)) [] = Inr (atts v)"
    by (rule Base_create_result [OF ok c _ fits]) simp_all
  have name: "doMap Layout_ObsGroup (nd_name f) = nd_name f" using assms(2) by (simp add: new_dimension_ok_def convertV1_at_free)
  have "\<exists>st. w = Variable_setIsDimensionScale (nd_name f) v \<lparr> var_data := st \<rparr>"
  proof (cases "nd_initdata f")
    case None
    then show ?thesis
      using w v(1,2) by (auto simp: writeInitialData_def intro!: exI [of _ "var_data (Variable_setIsDimensionScale (nd_name f) v)"])
  next
    case (Some xs)
    then show ?thesis
      using w v(1,2) by (auto simp: writeInitialData_def Backend_write_def Variable_write_def split: if_splits)
  qed
  then obtain st where st: "w = Variable_setIsDimensionScale (nd_name f) v \<lparr> var_data := st \<rparr>" ..
  have "chunk_hint w = chunk_hint v" by (simp add: st chunk_hint_def Variable_setIsDimensionScale_def)
  moreover have "fill_ok w = fill_ok v" by (simp add: st Variable_setIsDimensionScale_def fill_ok_def cong: option.case_cong)
  ultimately show thesis
    using that [of w] s' v(1,2,3) name fresh_variable_facts [OF v(3)] dim_params_hint [OF v(4)]
    by (simp add: st Variable_setIsDimensionScale_def fresh_variable_def)
qed

lemma setup_dim_ok:
  assumes "obs_group_ok (g, h)" "new_dimension_ok f" "setup_dim Layout_ObsGroup f (g, h) = Inr s'"
  shows "obs_group_ok s'"
proof -
  have inv: "store_inv (g, h)" and ok: "group_ok g" using assms(1) by (auto simp: obs_group_ok_def store_inv_def)
  obtain w where eq: "s' = (insert_var (resolve (nd_name f)) (length h) g, h @ [w])" and w: "is_scale w" "fill_ok w"
    "dimensions w = [nd_size f]" "max_dimensions w = [nd_maxSize f]" "within_max [nd_size f] [nd_maxSize f]"
    "chunk_hint w = Inr (nd_chunkingSize f)" by (rule setup_dim_result [OF ok assms(2,3)])
  let ?g = "insert_var (resolve (nd_name f)) (length h) g" and ?h = "h @ [w]"
  have new: "dims_agree ?g ?h w" using w by (simp add: dims_agree_def)
  have "dims_agree ?g ?h (?h ! b)" if "var_at k ?g = Some b" for k b
  proof (cases "k = resolve (nd_name f) \<and> var_at k g = None")
    case True
    then show ?thesis using that new by (auto simp: var_at_insert_var [OF ok] split: if_splits)
  next
    case False
    then have k: "var_at k g = Some b" using that by (simp add: var_at_insert_var [OF ok] split: if_splits)
    then have "b < length h" "dims_agree g h (h ! b)"
      using assms(1) unfolding obs_group_ok_def store_inv_def fst_conv snd_conv by blast+
    then show ?thesis using dims_agree_insert [OF ok, of h "h ! b" "resolve (nd_name f)" "length h" w] by (simp add: nth_append)
  qed
  moreover have "at_free m" if "Has_Variables_exists m ?g" for m
    using that assms(1,2) by (auto simp: insert_exists [OF ok] obs_group_ok_def new_dimension_ok_def)
  ultimately show ?thesis unfolding eq obs_group_ok_def using store_inv_insert [OF inv, of "nd_name f" w] by simp
qed

lemma createRootGroup_ok: "obs_group_ok (createRootGroup, [])"
  by (simp add: obs_group_ok_def store_inv_def createRootGroup_def var_at_empty Has_Variables_exists_iff)

lemma set_grp_atts_same [simp]:
  "var_at k (set_grp_atts as g) = var_at k g" "group_ok (set_grp_atts as g) = group_ok g"
proof -
  obtain cs vs as0 where g: "g = Group cs vs as0" by (cases g)
  show "var_at k (set_grp_atts as g) = var_at k g" by (cases k; cases "fst k") (auto simp: g var_at_simps)
  show "group_ok (set_grp_atts as g) = group_ok g" by (simp add: g)
qed

lemma ObsGroup_generate_ok:
  assumes "ObsGroup_generate None dims (createRootGroup, []) = Inr (l, s)" "list_all new_dimension_ok dims"
  shows "l = Layout_ObsGroup" "obs_group_ok s"
proof -
  obtain as where run: "l = Layout_ObsGroup" "fold_result (setup_dim Layout_ObsGroup) dims (set_grp_atts as createRootGroup, []) = Inr s"
    using assms(1) by (auto simp: ObsGroup_generate_def ObsGroup_setup_def generate_by_policy_def initializeStructure_def)
  show "l = Layout_ObsGroup" by (rule run(1))
  have "obs_group_ok (set_grp_atts as createRootGroup, [])"
    using createRootGroup_ok by (simp add: obs_group_ok_def store_inv_def Has_Variables_exists_iff)
  then show "obs_group_ok s"
    using run(2) assms(2)
  proof (induction dims arbitrary: s rule: rev_induct)
    case (snoc f dims)
    then obtain g h where gh: "fold_result (setup_dim Layout_ObsGroup) dims (set_grp_atts as createRootGroup, []) = Inr (g, h)"
      "setup_dim Layout_ObsGroup f (g, h) = Inr s" by (auto simp: fold_result_append)
    with snoc have "obs_group_ok (g, h)" by simp
    with gh(2) snoc.prems(3) show ?case using setup_dim_ok [of g h f s] by simp
  qed simp
qed

section \<open>Reachable ObsGroups\<close>

text \<open>What a client can do to a new ObsGroup: create variables on scales of the group, and resize along its scales.\<close>

inductive reachable_obs_group :: "group \<times> heap \<Rightarrow> bool" where
  generate: "list_all new_dimension_ok dims \<Longrightarrow> ObsGroup_generate None dims (createRootGroup, []) = Inr (l, s) \<Longrightarrow> reachable_obs_group s"
| create: "reachable_obs_group (g, h) \<Longrightarrow> \<forall>nv \<in> set nvs. new_variable_ok g h nv \<Longrightarrow>
    createWithScales Layout_ObsGroup nvs (g, h) = Inr s \<Longrightarrow> reachable_obs_group s"
| resize: "reachable_obs_group (g, h) \<Longrightarrow> \<forall>(s, n) \<in> set nd. scale_at g h s \<Longrightarrow>
    ObsGroup_resize Layout_ObsGroup nd (g, h) = Inr s' \<Longrightarrow> reachable_obs_group s'"

text \<open>A resize that returns has kept to the limits.\<close>

lemma Variable_resize_within:
  assumes "fill_ok v" "length new = length (max_dimensions v)" "Variable_resize new v = Inr w"
  shows "within_max new (max_dimensions v)" "same_shape v w"
  using assms(3) by (auto simp: Variable_resize_eq [OF assms(1,2)] same_shape_def split: if_splits)

lemma resize_within:
  assumes "obs_group_ok (g, h)" "\<forall>(s, n) \<in> set nd. scale_at g h s"
    "fold_result (\<lambda>(scale, n). resize_at scale [n]) nd h1 = Inr h'" "\<forall>a < length h. same_shape (h ! a) (h1 ! a)" "length h1 = length h"
  shows "sizes_within g h nd"
  using assms(2-5)
proof (induction nd arbitrary: h1)
  case (Cons e nd)
  obtain s n where e: "e = (s, n)" by (cases e)
  have s: "scale_at g h s" "s < length h" using Cons.prems(1) by (auto simp: e scale_at_def)
  then have agree: "dims_agree g h (h ! s)" "is_scale (h ! s)"
    using assms(1) by (auto simp: scale_at_def obs_group_ok_def)
  have sh: "same_shape (h ! s) (h1 ! s)" using Cons.prems(3) s(2) by simp
  obtain w where w: "Variable_resize [n] (h1 ! s) = Inr w"
    and rest: "fold_result (\<lambda>(scale, n). resize_at scale [n]) nd (h1[s := w]) = Inr h'"
  proof -
    from Cons.prems(2) obtain h2 where "resize_at s [n] h1 = Inr h2"
      "fold_result (\<lambda>(scale, n). resize_at scale [n]) nd h2 = Inr h'" by (auto simp: e)
    then show thesis using that by (auto simp: resize_at_def)
  qed
  have "fill_ok (h1 ! s)" "length [n] = length (max_dimensions (h1 ! s))"
    using agree sh same_shape_fill [OF sh] by (auto simp: dims_agree_def within_max_nth same_shape_def)
  from Variable_resize_within [OF this w] sh have "within_max [n] (max_dimensions (h ! s))" "same_shape (h ! s) w"
    by (auto simp: same_shape_def)
  moreover have "sizes_within g h nd"
  proof (rule Cons.IH [OF _ rest])
    show "\<forall>a < length h. same_shape (h ! a) (h1[s := w] ! a)"
      using Cons.prems(3,4) calculation(2) s(2) by (auto simp: nth_list_update)
  qed (use Cons.prems in auto)
  ultimately show ?case using s(1) by (auto simp: sizes_within_def e)
qed (simp add: sizes_within_def)

lemma reachable_obs_group_ok: "reachable_obs_group s \<Longrightarrow> obs_group_ok s"
proof (induction rule: reachable_obs_group.induct)
  case (generate dims l s)
  then show ?case using ObsGroup_generate_ok by blast
next
  case (create g h nvs s)
  then show ?case using createWithScales_ok by blast
next
  case (resize g h nd s')
  have "sizes_within g h nd"
    using resize.hyps(3) resize_within [OF resize.IH resize.hyps(2)] by (auto simp: ObsGroup_resize_def)
  then obtain h' where "ObsGroup_resize Layout_ObsGroup nd (g, h) = Inr (g, h')" "obs_group_ok (g, h')"
    using ObsGroup_resize_result [OF resize.IH] obs_group_ok_resized [OF resize.IH] by metis
  then show ?case using resize.hyps(3) by simp
qed

end
