(* ===== verification/Ioda_Scales.thy ===== *)
theory Ioda_Scales
  imports Ioda_ObsGroup
begin

text \<open>
  Building an ObsGroup succeeds: the dimension scales of a new group (\<open>generate\<close>) and new variables on scales of
  a group (\<open>createWithScales\<close>) are created whenever their types are those of the type provider and their sizes
  respect the limits. The properties of ObsGroups that can be built and resized follow.
\<close>

section \<open>Creation succeeds\<close>

definition provided_type :: "obs_type \<Rightarrow> bool" where
  "provided_type ty \<longleftrightarrow> (\<exists>c. makeFundamentalType c = Inr ty)"

definition creation_att_ok :: "string \<times> obs_type \<times> scalar list \<times> nat list \<Rightarrow> bool" where
  "creation_att_ok x \<longleftrightarrow> (case x of (name, ty, data, dims) \<Rightarrow>
     provided_type ty \<and> length data = prod_list dims \<and> prod_list dims < 2 ^ 31)"

definition creation_params_ok :: "variable_creation_parameters \<Rightarrow> bool" where
  "creation_params_ok p \<longleftrightarrow> (case vcp_fillValue p of None \<Rightarrow> True | Some fv \<Rightarrow> length fv = 1) \<and>
     length (vcp_chunks p) < 2 ^ 31 \<and> list_all creation_att_ok (vcp_atts p)"

lemma provided_type_facts:
  assumes "provided_type ty"
  shows "ty_num_elements ty = 1" "\<exists>st. createVarAttrStore ty = Inr st"
  using assms fundamental_type_store by (auto simp: provided_type_def)

lemma fold_add_succeeds:
  "list_all creation_att_ok xs \<Longrightarrow>
   \<exists>as'. fold_result (\<lambda>(name, ty, data, dims). Has_Attributes_add name ty data dims) xs as = Inr as'"
proof (induction xs arbitrary: as)
  case (Cons x xs)
  obtain name ty data dims where x: "x = (name, ty, data, dims)" by (cases x)
  have "\<exists>as1. Has_Attributes_add name ty data dims as = Inr as1"
    using Cons.prems Has_Attributes_add_succeeds by (auto simp: x creation_att_ok_def provided_type_def)
  with Cons show ?case by (auto simp: x)
qed simp

lemma Base_create_succeeds:
  assumes "group_ok g" "provided_type ty" "within_max dims max_dims" "creation_params_ok p"
    "vcp_chunk p \<Longrightarrow> \<exists>cs. getChunks dims p = Inr cs \<and> length cs < 2 ^ 31"
  shows "\<exists>r. Base_create Layout_ObsGroup name ty dims max_dims p (g, h) = Inr r"
proof -
  have len: "length dims = length max_dims" using assms(3) by (simp add: within_max_nth)
  note ty = provided_type_facts [OF assms(2)]
  obtain st where st: "createVarAttrStore ty = Inr st" using ty(2) ..
  have "fvdata_set (os_params p) \<Longrightarrow> length (fill_value (os_params p)) = ty_num_elements ty"
    using assms(4) ty(1) by (auto simp: os_params_def creation_params_ok_def split: option.splits)
  from Variable_created [OF st len _ this] ty(1) assms(3) obtain v where v: "Variable dims max_dims ty (os_params p) = Inr v" by auto
  obtain cs where cs: "vcp_chunk p \<Longrightarrow> getChunks dims p = Inr cs" "length cs < 2 ^ 31"
    using assms(5) by (cases "vcp_chunk p") (fastforce intro: that [of "[]"])+
  obtain as where as: "add_creation_atts dims p (impl_atts v) = Inr as"
    by (rule add_creation_atts_reads [OF Variable_impl_atts(1) [OF v] Variable_impl_atts(2) [OF v] cs])
  obtain as2 where "fold_result (\<lambda>(name, ty, data, dims). Has_Attributes_add name ty data dims) (vcp_atts p) (atts v) = Inr as2"
    using fold_add_succeeds assms(4) unfolding creation_params_ok_def by blast
  then show ?thesis
    using v as len by (cases "max_dims = []") (simp_all add: Base_create_def HasVariables_Backend_create_def
        Has_Variables_create_eq [OF assms(1)] apply_creation_atts_def)
qed

definition usable_dimension :: "new_dimension_scale \<Rightarrow> bool" where
  "usable_dimension f \<longleftrightarrow> slash_free (nd_name f) \<and> at_free (nd_name f) \<and>
     (\<exists>t. provide_type (nd_dataType f) = Inr t \<and> provided_type t) \<and> within_max [nd_size f] [nd_maxSize f] \<and> nd_size f < 2 ^ 31 \<and>
     (case nd_initdata f of None \<Rightarrow> True | Some xs \<Rightarrow> length xs = nd_size f)"

lemma usable_dimension_ok: "usable_dimension f \<Longrightarrow> new_dimension_ok f"
  using provided_type_facts(1) by (auto simp: usable_dimension_def new_dimension_ok_def)

lemma setup_dim_succeeds:
  assumes "obs_group_ok (g, h)" "usable_dimension f"
  shows "\<exists>s. setup_dim Layout_ObsGroup f (g, h) = Inr s"
proof -
  have ok: "group_ok g" using assms(1) by (auto simp: obs_group_ok_def store_inv_def)
  obtain t where t: "provide_type (nd_dataType f) = Inr t" "provided_type t" using assms(2) by (auto simp: usable_dimension_def)
  have within: "within_max [nd_size f] [nd_maxSize f]" using assms(2) by (simp add: usable_dimension_def)
  have p: "creation_params_ok (dim_params f)"
    using fundamental_examples(1)
    by (auto simp: creation_params_ok_def dim_params_def VariableCreationParameters_def creation_att_ok_def provided_type_def)
  have ch: "getChunks [nd_size f] (dim_params f) = Inr [nd_chunkingSize f]"
    by (simp add: getChunks_def dim_params_def VariableCreationParameters_def)
  obtain a g' h' where c: "Base_create Layout_ObsGroup (nd_name f) t [nd_size f] [nd_maxSize f] (dim_params f) (g, h) = Inr (a, g', h')"
    using Base_create_succeeds [OF ok t(2) within p] ch by fastforce
  have fits: "fits_type (dim_params f) t"
    using provided_type_facts [OF t(2)] by (simp add: fits_type_def dim_params_def VariableCreationParameters_def)
  obtain v where v: "a = length h" "(g', h') = (insert_var (resolve (doMap Layout_ObsGroup (nd_name f))) (length h) g, h @ [v])"
    "fresh_variable [nd_size f] [nd_maxSize f] v" "dtype v = t" by (rule Base_create_result [OF ok c _ fits]) simp_all
  let ?v = "Variable_setIsDimensionScale (nd_name f) v"
  have v': "variable_ok ?v" "dimensions ?v = [nd_size f]" "dtype ?v = t"
    using v(3,4) by (auto simp: fresh_variable_def variable_ok_def Variable_setIsDimensionScale_def fill_ok_def cong: option.case_cong)
  have one: "num_elements (var_data ?v) = 1" using v'(1,3) provided_type_facts(1) [OF t(2)] by (simp add: variable_ok_def)
  have "\<exists>w. writeInitialData f t ?v = Inr w"
  proof (cases "nd_initdata f")
    case None
    then show ?thesis by (simp add: writeInitialData_def)
  next
    case (Some xs)
    then have "length xs = nd_size f" "nd_size f < 2 ^ 31" using assms(2) by (simp_all add: usable_dimension_def)
    with Backend_write_all [OF v'(1), of xs] v'(2,3) one Some show ?thesis by (simp add: writeInitialData_def)
  qed
  then show ?thesis using c v(1,2) t(1) by (auto simp: setup_dim_def)
qed

lemma provide_string_att:
  "\<exists>as'. Has_Attributes_add name string_type [Text x] [1] as = Inr as'"
proof -
  have ty: "createVarAttrStore string_type = Inr \<lparr> store_type = STRING, var_attr_data = [], num_elements = 1 \<rparr>"
    by (simp add: string_type_def makeStringType_def Type_fundamental_def createVarAttrStore_def)
  define a where "a = \<lparr> att_dimensions = [1], att_dtype = string_type, attr_data = VarAttrStore_resize 1
     \<lparr> store_type = STRING, var_attr_data = [], num_elements = 1 \<rparr> \<rparr>"
  have "ty_num_elements string_type = 1" by (simp add: string_type_def makeStringType_def Type_fundamental_def)
  then have a: "Attribute [1] string_type = Inr a" "attribute_ok a" "att_dtype a = string_type" "att_dimensions a = [1]"
    "length (var_attr_data (attr_data a)) = 1"
    by (simp_all add: a_def Attribute_def ty VarAttrStore_resize_def attribute_ok_def)
  have "\<exists>b. Attribute_write [Text x] string_type a = Inr b"
    using Attribute_write_all [OF a(2), of "[Text x]"] a(3-5) by simp
  then show ?thesis
    using a(1) by (auto simp: Has_Attributes_add_def Has_Attributes_create_def)
qed

lemma ObsGroup_generate_succeeds:
  assumes "list_all usable_dimension dims"
  shows "\<exists>s. ObsGroup_generate None dims (createRootGroup, []) = Inr (Layout_ObsGroup, s)"
proof -
  obtain as1 where as1: "Has_Attributes_add ''_ioda_layout'' string_type [Text ''ObsGroup''] [1] (grp_atts createRootGroup) = Inr as1"
    by (rule exE [OF provide_string_att])
  obtain as where as: "Has_Attributes_add ''_ioda_layout_version'' int_type [Integral 0] [1] as1 = Inr as"
    using Has_Attributes_add_succeeds [OF fundamental_examples(2), of "[Integral 0]" "[1]"] by auto
  have "obs_group_ok (set_grp_atts as createRootGroup, [])"
    using createRootGroup_ok by (simp add: obs_group_ok_def store_inv_def Has_Variables_exists_iff)
  then have "\<exists>s. fold_result (setup_dim Layout_ObsGroup) dims (set_grp_atts as createRootGroup, []) = Inr s \<and> obs_group_ok s"
    using assms
  proof (induction dims rule: rev_induct)
    case (snoc f dims)
    then obtain g h where gh: "fold_result (setup_dim Layout_ObsGroup) dims (set_grp_atts as createRootGroup, []) = Inr (g, h)"
      "obs_group_ok (g, h)" by auto
    have f: "usable_dimension f" using snoc.prems(2) by simp
    obtain s where s: "setup_dim Layout_ObsGroup f (g, h) = Inr s" using setup_dim_succeeds [OF gh(2) f] ..
    then show ?case using gh setup_dim_ok [OF gh(2) usable_dimension_ok [OF f] s] by (simp add: fold_result_append)
  qed simp
  then show ?thesis
    using as1 as by (auto simp: ObsGroup_generate_def ObsGroup_setup_def generate_by_policy_def initializeStructure_def)
qed

definition usable_variable :: "group \<Rightarrow> heap \<Rightarrow> new_variable \<Rightarrow> bool" where
  "usable_variable g h nv \<longleftrightarrow> (\<forall>s \<in> set (nv_scales nv). scale_at g h s) \<and> length (nv_scales nv) < 2 ^ 31 \<and>
     (\<exists>t. provide_type (nv_dataType nv) = Inr t \<and> provided_type t) \<and> creation_params_ok (nv_vcp nv)"

lemma usable_variable_ok: "usable_variable g h nv \<Longrightarrow> new_variable_ok g h nv"
  using provided_type_facts(1)
  by (auto simp: usable_variable_def new_variable_ok_def fits_type_def creation_params_ok_def split: option.splits)

lemma pending_scale:
  assumes "pending_group_ok ps (g, h)" "scale_at g h s"
  shows "dims_agree g h (h ! s)"
proof -
  obtain n where n: "var_at ([], n) g = Some s" and sc: "is_scale (h ! s)" using assms(2) by (auto simp: scale_at_def)
  have "s \<notin> fst ` set ps"
    using assms(1) sc by (auto simp: pending_group_ok_def list_all_iff pending_ok_def fresh_variable_def)
  then show ?thesis using pending_named [OF assms(1) n] by blast
qed

lemma map_result_succeeds: "\<forall>x \<in> set xs. \<exists>y. f x = Inr y \<Longrightarrow> \<exists>ys. map_result f xs = Inr ys \<and> length ys = length xs"
  by (induction xs) fastforce+

lemma create_one_succeeds:
  assumes "pending_group_ok ps (g, h)" "usable_variable g h nv"
  shows "\<exists>r. create_one Layout_ObsGroup nv (g, h) = Inr r"
proof -
  have ok: "group_ok g" using assms(1) by (simp add: pending_group_ok_def store_inv_def)
  obtain t where t: "provide_type (nv_dataType nv) = Inr t" "provided_type t" using assms(2) by (auto simp: usable_variable_def)
  let ?ss = "nv_scales nv"
  let ?dims = "map (\<lambda>s. dimensions (h ! s) ! 0) ?ss" and ?max = "map (\<lambda>s. max_dimensions (h ! s) ! 0) ?ss"
  have sc: "scale_at g h s" if "s \<in> set ?ss" for s using assms(2) that by (simp add: usable_variable_def)
  have agree: "dims_agree g h (h ! s)" "is_scale (h ! s)" if "s \<in> set ?ss" for s
    using pending_scale [OF assms(1) sc [OF that]] sc [OF that] by (simp_all add: scale_at_def)
  have within: "within_max ?dims ?max"
  proof -
    have "max_dimensions (h ! s) ! 0 < 0 \<or> int (dimensions (h ! s) ! 0) \<le> max_dimensions (h ! s) ! 0" if "s \<in> set ?ss" for s
      using agree [OF that] by (auto simp: dims_agree_def within_max_nth dest!: spec [of _ 0])
    then show ?thesis unfolding within_max_nth by (simp add: nth_mem)
  qed
  obtain hints where hints: "map_result chunk_hint (map (\<lambda>s. h ! s) ?ss) = Inr hints" "length hints = length ?ss"
    using map_result_succeeds [of "map (\<lambda>s. h ! s) ?ss" chunk_hint] agree by (fastforce simp: dims_agree_def)
  define p where "p = VariableCreationParameters_copy (nv_vcp nv) \<lparr> vcp_chunk := True \<rparr>"
  define q where "q = (if vcp_chunks p = [] then p \<lparr> vcp_chunks := hints \<rparr> else p)"
  have q: "creation_params_ok q"
    using assms(2) hints(2) by (auto simp: q_def p_def creation_params_ok_def usable_variable_def VariableCreationParameters_copy_def)
  have "\<exists>cs. getChunks ?dims q = Inr cs \<and> length cs < 2 ^ 31"
    using assms(2) hints(2)
    by (auto simp: q_def p_def getChunks_def usable_variable_def creation_params_ok_def VariableCreationParameters_copy_def
        VariableCreationParameters_def Chunking_Max_def)
  from Base_create_succeeds [OF ok t(2) within q this] obtain r where
    "Base_create Layout_ObsGroup (nv_name nv) t ?dims ?max q (g, h) = Inr r" by blast
  then show ?thesis
    using t(1) hints(1) by (cases r) (simp add: create_one_def Let_def comp_def p_def [symmetric] q_def [symmetric])
qed

lemma insert_exists_layout:
  "group_ok g \<Longrightarrow> Base_exists l n (insert_var (resolve (doMap l m)) a g) \<longleftrightarrow> doMap l n = doMap l m \<or> Base_exists l n g"
  by (simp add: Base_exists_def insert_exists)

lemma createWithScales_run:
  assumes "obs_group_ok (g, h)" "\<forall>nv \<in> set nvs. usable_variable g h nv"
  shows "\<exists>g' h'. createWithScales Layout_ObsGroup nvs (g, h) = Inr (g', h') \<and>
    (\<forall>n. Base_exists Layout_ObsGroup n g' \<longleftrightarrow>
       Base_exists Layout_ObsGroup n g \<or> (\<exists>nv \<in> set nvs. doMap Layout_ObsGroup (nv_name nv) = doMap Layout_ObsGroup n))"
proof -
  let ?step = "\<lambda>newvar (gh, scaleMappings).
         bind_result (create_one Layout_ObsGroup newvar gh) (\<lambda>(a, gh). Inr (gh, scaleMappings @ [(a, nv_scales newvar)]))"
  have "\<exists>g' h' ps'. fold_result ?step nvs ((g1, h1), ps) = Inr ((g', h'), ps') \<and>
      (\<forall>n. Base_exists Layout_ObsGroup n g' \<longleftrightarrow>
        Base_exists Layout_ObsGroup n g1 \<or> (\<exists>nv \<in> set nvs. doMap Layout_ObsGroup (nv_name nv) = doMap Layout_ObsGroup n))"
    if "pending_group_ok ps (g1, h1)" "\<forall>nv \<in> set nvs. usable_variable g1 h1 nv" for g1 h1 ps
    using that
  proof (induction nvs arbitrary: g1 h1 ps)
    case (Cons nv nvs)
    have nv: "usable_variable g1 h1 nv" using Cons.prems(2) by simp
    obtain a g2 h2 where c: "create_one Layout_ObsGroup nv (g1, h1) = Inr (a, g2, h2)"
      using create_one_succeeds [OF Cons.prems(1) nv] by (metis prod_cases3)
    note step = create_one_pending [OF Cons.prems(1) usable_variable_ok [OF nv] c]
    have "\<forall>nv \<in> set nvs. usable_variable g2 h2 nv" using Cons.prems(2) step(2) by (auto simp: usable_variable_def)
    from Cons.IH [OF step(1) this] obtain g' h' ps' where
      run: "fold_result ?step nvs ((g2, h2), ps @ [(a, nv_scales nv)]) = Inr ((g', h'), ps')" and
      ex: "\<forall>n. Base_exists Layout_ObsGroup n g' \<longleftrightarrow>
        Base_exists Layout_ObsGroup n g2 \<or> (\<exists>nv \<in> set nvs. doMap Layout_ObsGroup (nv_name nv) = doMap Layout_ObsGroup n)"
      by blast
    have "fold_result ?step (nv # nvs) ((g1, h1), ps) = Inr ((g', h'), ps')" using c run by simp
    moreover have "Base_exists Layout_ObsGroup n g2 \<longleftrightarrow>
        doMap Layout_ObsGroup n = doMap Layout_ObsGroup (nv_name nv) \<or> Base_exists Layout_ObsGroup n g1" for n
    proof -
      have "group_ok g1" using Cons.prems(1) by (simp add: pending_group_ok_def store_inv_def)
      moreover have "g2 = insert_var (resolve (doMap Layout_ObsGroup (nv_name nv))) (length h1) g1"
        by (rule step(3))
      ultimately show ?thesis by (simp add: insert_exists_layout del: doMap.simps)
    qed
    ultimately show ?case using ex by (metis list.set_intros set_ConsD)
  qed simp
  from this [of "[]" g h] assms obtain g' h' ps' where
    run: "fold_result ?step nvs ((g, h), []) = Inr ((g', h'), ps')" and
    ex: "\<forall>n. Base_exists Layout_ObsGroup n g' \<longleftrightarrow>
      Base_exists Layout_ObsGroup n g \<or> (\<exists>nv \<in> set nvs. doMap Layout_ObsGroup (nv_name nv) = doMap Layout_ObsGroup n)"
    unfolding pending_Nil by blast
  from run have "createWithScales Layout_ObsGroup nvs (g, h) = Inr (g', attachDimensionScales ps' h')"
    by (simp add: createWithScales_def)
  with ex show ?thesis by blast
qed

section \<open>An example\<close>

text \<open>A group with one unlimited dimension of size two, with a variable on it.\<close>

abbreviation example_dim :: new_dimension_scale where
  "example_dim \<equiv> NewDimensionScale CT_int ''nlocs'' 2 Unlimited 10"

abbreviation example_var :: new_variable where
  "example_var \<equiv> \<lparr> nv_name = ''t@ObsValue'', nv_dataType = Cpp_Type CT_int, nv_scales = [0], nv_vcp = VariableCreationParameters \<rparr>"

lemma example_generated:
  obtains g w where "reachable_obs_group (g, [w])" "scale_at g [w] 0" "dimensions w = [2]" "max_dimensions w = [- 1]"
    "\<forall>k. var_at k g = (if k = ([], ''nlocs'') then Some 0 else None)" "usable_variable g [w] example_var"
proof -
  have sizes: "nd_name example_dim = ''nlocs''" "nd_size example_dim = 2" "nd_maxSize example_dim = - 1"
    "nd_initdata example_dim = Some [Integral 0, Integral 0]"
    by (simp_all add: NewDimensionScale_def Unlimited_def Unspecified_def makeFundamentalType_def getFundamentalObsStoreType_def
        Type_fundamental_def default_value_def numeral_2_eq_2)
  have t: "provide_type (Cpp_Type CT_int) = Inr int_type" "provided_type int_type"
    using fundamental_examples(2) by (auto simp: provide_type_def provided_type_def)
  have use: "usable_dimension example_dim"
    using t by (simp add: usable_dimension_def sizes slash_free_def at_free_def within_max_def) (simp add: NewDimensionScale_def)
  obtain s where gen: "ObsGroup_generate None [example_dim] (createRootGroup, []) = Inr (Layout_ObsGroup, s)"
    using ObsGroup_generate_succeeds [of "[example_dim]"] use by auto
  then have reach: "reachable_obs_group s" using reachable_obs_group.generate [of "[example_dim]"] usable_dimension_ok [OF use] by simp
  obtain as where set: "setup_dim Layout_ObsGroup example_dim (set_grp_atts as createRootGroup, []) = Inr s"
    using gen by (auto simp: ObsGroup_generate_def ObsGroup_setup_def generate_by_policy_def initializeStructure_def)
  let ?root = "set_grp_atts as createRootGroup" and ?g = "insert_var (resolve ''nlocs'') 0 (set_grp_atts as createRootGroup)"
  have ok: "group_ok ?root" by (simp add: createRootGroup_def)
  obtain w where w: "s = (?g, [w])" "is_scale w" "dimensions w = [2]" "max_dimensions w = [- 1]"
    by (rule setup_dim_result [OF ok usable_dimension_ok [OF use] set]) (simp add: sizes)
  have res: "resolve ''nlocs'' = ([], ''nlocs'')" by (simp add: resolve_simps)
  have at: "var_at k ?g = (if k = ([], ''nlocs'') then Some 0 else None)" for k
    by (simp add: var_at_insert_var [OF ok] res) (simp add: createRootGroup_def var_at_empty)
  have sc: "scale_at ?g [w] 0" using w(2) by (auto simp: scale_at_def at slash_free_def)
  have "usable_variable ?g [w] example_var"
    using sc t by (simp add: usable_variable_def creation_params_ok_def VariableCreationParameters_def)
  then show thesis using that [of ?g w] w reach sc at by simp
qed

lemma example_created:
  obtains g h a where "reachable_obs_group (g, h)" "Base_open Layout_ObsGroup ''t@ObsValue'' g = Inr a"
    "\<not> is_scale (h ! a)" "dimensions (h ! a) = [2]" "max_dimensions (h ! a) = [- 1]" "scale_at g h 0"
    "max_dimensions (h ! 0) = [- 1]" "dim_scales (h ! a) = [Some 0]"
    "\<forall>k. var_at k g = (if k = ([''ObsValue''], ''t'') then Some a else if k = ([], ''nlocs'') then Some 0 else None)"
proof -
  obtain g w where g: "reachable_obs_group (g, [w])" "scale_at g [w] 0" "dimensions w = [2]" "max_dimensions w = [- 1]"
    "\<forall>k. var_at k g = (if k = ([], ''nlocs'') then Some 0 else None)" "usable_variable g [w] example_var"
    by (rule example_generated)
  have ok: "obs_group_ok (g, [w])" by (rule reachable_obs_group_ok [OF g(1)])
  then have gok: "group_ok g" and pend: "pending_group_ok [] (g, [w])" by (simp_all add: obs_group_ok_def store_inv_def pending_Nil)
  obtain a g' h' where c: "create_one Layout_ObsGroup example_var (g, [w]) = Inr (a, g', h')"
    using create_one_succeeds [OF pend g(6)] by (metis prod_cases3)
  note step = create_one_pending [OF pend usable_variable_ok [OF g(6)] c]
  obtain v where v: "h' = [w, v]" using step(5) by auto
  have a: "a = 1" using step(4) by simp
  have fresh: "fresh_variable [2] [- 1] v"
    using step(1) g(3,4) by (simp add: pending_group_ok_def pending_ok_def v a)
  let ?h = "[w, v \<lparr> dim_scales := [Some 0] \<rparr>]"
  have att: "attachDimensionScales [(1, [0])] [w, v] = ?h"
    using fresh_variable_facts(3) [OF fresh] by (simp add: attachDimensionScales_def setDimScale_eq)
  have run: "createWithScales Layout_ObsGroup [example_var] (g, [w]) = Inr (g', ?h)"
    using c by (simp add: createWithScales_def v a att del: One_nat_def)
  have reach: "reachable_obs_group (g', ?h)"
    using reachable_obs_group.create [OF g(1) _ run] usable_variable_ok [OF g(6)] by simp
  have res: "resolve (doMap Layout_ObsGroup ''t@ObsValue'') = ([''ObsValue''], ''t'')"
    using resolve_path_name [of "[''ObsValue'']" "''t''"]
    by (simp add: path_name_def slash_free_def convertV1PathToV2Path_eq nonempty_def)
  then have at: "\<forall>k. var_at k g' = (if k = ([''ObsValue''], ''t'') then Some 1 else if k = ([], ''nlocs'') then Some 0 else None)"
    using step(3) gok g(5) by (simp add: var_at_insert_var)
  then have op: "Base_open Layout_ObsGroup ''t@ObsValue'' g' = Inr 1"
    using res by (simp add: Base_open_def Has_Variables_open_iff)
  have "scale_at g' [w, v] 0" using step(2) [OF g(2)] by (simp add: v)
  then have sc: "scale_at g' ?h 0" by (simp add: scale_at_def)
  show thesis by (rule that [OF reach op _ _ _ _ _ _ at]) (use fresh g(4) sc in \<open>simp_all add: fresh_variable_def\<close>)
qed

section \<open>Properties\<close>

text \<open>C28. In every ObsGroup that a client can build and resize, each dimension of a variable has a dimension scale
  attached, and the size and the limit of the dimension are those of the scale.\<close>

theorem obs_group_dimensions_agree:
  assumes "reachable_obs_group (g, h)" "Base_open Layout_ObsGroup name g = Inr a" "\<not> is_scale (h ! a)"
    "i < length (dimensions (h ! a))"
  shows "\<exists>s. Variable_isDimensionScaleAttached i s (h ! a) \<and> is_scale (h ! s) \<and>
    dimensions (h ! s) = [dimensions (h ! a) ! i] \<and> max_dimensions (h ! s) = [max_dimensions (h ! a) ! i]"
proof -
  have "var_at (resolve (convertV1PathToV2Path name)) g = Some a"
    using assms(2) by (simp add: Base_open_def Has_Variables_open_iff)
  then have "dims_agree g h (h ! a)"
    using reachable_obs_group_ok [OF assms(1)] unfolding obs_group_ok_def fst_conv snd_conv by blast
  with assms(3,4) show ?thesis by (auto simp: dims_agree_def Variable_isDimensionScaleAttached_def scale_at_def)
qed

theorem obs_group_dimensions_agree_witness:
  "\<exists>g h a s. reachable_obs_group (g, h) \<and> Base_open Layout_ObsGroup ''t@ObsValue'' g = Inr a \<and> dimensions (h ! a) = [2] \<and>
     Variable_isDimensionScaleAttached 0 s (h ! a) \<and> dimensions (h ! s) = [2] \<and> max_dimensions (h ! s) = max_dimensions (h ! a)"
proof -
  obtain g h a where e: "reachable_obs_group (g, h)" "Base_open Layout_ObsGroup ''t@ObsValue'' g = Inr a"
    "\<not> is_scale (h ! a)" "dimensions (h ! a) = [2]" "max_dimensions (h ! a) = [- 1]" by (rule example_created)
  from obs_group_dimensions_agree [OF e(1,2,3), of 0] e obtain s where "Variable_isDimensionScaleAttached 0 s (h ! a)"
    "dimensions (h ! s) = [2]" "max_dimensions (h ! s) = max_dimensions (h ! a)" by auto
  with e show ?thesis by blast
qed

text \<open>C29. Resizing a reachable ObsGroup along its scales, to sizes within their limits, returns; every scale gets its
  last given size, every other variable the new size in the dimensions on these scales and its old size in
  the others, and the group is again one whose variables agree with their scales.\<close>

theorem ObsGroup_resize_succeeds:
  assumes "reachable_obs_group (g, h)" "\<forall>(s, n) \<in> set nd. scale_at g h s \<and> within_max [n] (max_dimensions (h ! s))"
  shows "\<exists>h'. ObsGroup_resize Layout_ObsGroup nd (g, h) = Inr (g, h') \<and> reachable_obs_group (g, h') \<and>
    (\<forall>name a. Base_open Layout_ObsGroup name g = Inr a \<longrightarrow>
       (if is_scale (h ! a) then dimensions (h' ! a) = (case map_of (rev nd) a of Some n \<Rightarrow> [n] | None \<Rightarrow> dimensions (h ! a))
        else length (dimensions (h' ! a)) = length (dimensions (h ! a)) \<and>
          (\<forall>i < length (dimensions (h ! a)). dimensions (h' ! a) ! i =
             (case map_of (rev nd) (the (dim_scales (h ! a) ! i)) of Some n \<Rightarrow> n | None \<Rightarrow> dimensions (h ! a) ! i))))"
proof -
  have ok: "obs_group_ok (g, h)" by (rule reachable_obs_group_ok [OF assms(1)])
  have nd: "sizes_within g h nd" using assms(2) by (simp add: sizes_within_def)
  obtain h' where h': "ObsGroup_resize Layout_ObsGroup nd (g, h) = Inr (g, h')"
    "\<And>k a. var_at k g = Some a \<Longrightarrow> dimensions (h' ! a) = resized nd h a"
    using ObsGroup_resize_result [OF ok nd] by metis
  have "if is_scale (h ! a) then dimensions (h' ! a) = (case map_of (rev nd) a of Some n \<Rightarrow> [n] | None \<Rightarrow> dimensions (h ! a))
        else length (dimensions (h' ! a)) = length (dimensions (h ! a)) \<and>
          (\<forall>i < length (dimensions (h ! a)). dimensions (h' ! a) ! i =
             (case map_of (rev nd) (the (dim_scales (h ! a) ! i)) of Some n \<Rightarrow> n | None \<Rightarrow> dimensions (h ! a) ! i))"
    if "Base_open Layout_ObsGroup name g = Inr a" for name a
  proof -
    have k: "var_at (resolve (convertV1PathToV2Path name)) g = Some a"
      using that by (simp add: Base_open_def Has_Variables_open_iff)
    then have "dims_agree g h (h ! a)" using ok unfolding obs_group_ok_def fst_conv snd_conv by blast
    then have att: "\<exists>s. dim_scales (h ! a) ! i = Some s" if "\<not> is_scale (h ! a)" "i < length (dimensions (h ! a))" for i
      using that by (auto simp: dims_agree_def)
    have "dimensions (h' ! a) ! i =
        (case map_of (rev nd) (the (dim_scales (h ! a) ! i)) of Some n \<Rightarrow> n | None \<Rightarrow> dimensions (h ! a) ! i)"
      if i: "\<not> is_scale (h ! a)" "i < length (dimensions (h ! a))" for i
    proof -
      obtain s where "dim_scales (h ! a) ! i = Some s" using att [OF i] ..
      then show ?thesis using i h'(2) [OF k] by (simp add: resized_def new_sizes_eq cong: option.case_cong)
    qed
    then show ?thesis using h'(2) [OF k] by (simp add: resized_def new_sizes_eq cong: option.case_cong)
  qed
  moreover have "reachable_obs_group (g, h')"
    using reachable_obs_group.resize [OF assms(1) _ h'(1)] assms(2) by auto
  ultimately show ?thesis using h'(1) by blast
qed

theorem ObsGroup_resize_succeeds_witness:
  "\<exists>g h h' a. ObsGroup_resize Layout_ObsGroup [(0, 5)] (g, h) = Inr (g, h') \<and>
     Base_open Layout_ObsGroup ''t@ObsValue'' g = Inr a \<and> dimensions (h ! a) = [2] \<and> dimensions (h' ! a) = [5]"
proof -
  obtain g h a where e: "reachable_obs_group (g, h)" "Base_open Layout_ObsGroup ''t@ObsValue'' g = Inr a"
    "\<not> is_scale (h ! a)" "dimensions (h ! a) = [2]" "scale_at g h 0" "max_dimensions (h ! 0) = [- 1]" "dim_scales (h ! a) = [Some 0]"
    by (rule example_created)
  have "\<forall>(s, n) \<in> set [(0, 5)]. scale_at g h s \<and> within_max [n] (max_dimensions (h ! s))" using e(5,6) by (simp add: within_max_def)
  from ObsGroup_resize_succeeds [OF e(1) this] obtain h' where
    h': "ObsGroup_resize Layout_ObsGroup [(0, 5)] (g, h) = Inr (g, h')" "length (dimensions (h' ! a)) = 1" "dimensions (h' ! a) ! 0 = 5"
    using e(2,3,4,7) by auto
  then have "dimensions (h' ! a) = [5]" by (cases "dimensions (h' ! a)") auto
  with h'(1) e(2,4) show ?thesis by blast
qed

text \<open>C30. Creating variables on scales of a reachable ObsGroup, with types of the type provider, returns; the names of
  the new variables are exactly those that are added to the group, and the group can be reached again.\<close>

theorem createWithScales_succeeds:
  assumes "reachable_obs_group (g, h)" "\<forall>nv \<in> set nvs. usable_variable g h nv"
  shows "\<exists>g' h'. createWithScales Layout_ObsGroup nvs (g, h) = Inr (g', h') \<and> reachable_obs_group (g', h') \<and>
    (\<forall>n. Base_exists Layout_ObsGroup n g' \<longleftrightarrow>
       Base_exists Layout_ObsGroup n g \<or> (\<exists>nv \<in> set nvs. doMap Layout_ObsGroup (nv_name nv) = doMap Layout_ObsGroup n))"
proof -
  obtain g' h' where run: "createWithScales Layout_ObsGroup nvs (g, h) = Inr (g', h')"
    "\<forall>n. Base_exists Layout_ObsGroup n g' \<longleftrightarrow>
       Base_exists Layout_ObsGroup n g \<or> (\<exists>nv \<in> set nvs. doMap Layout_ObsGroup (nv_name nv) = doMap Layout_ObsGroup n)"
    using createWithScales_run [OF reachable_obs_group_ok [OF assms(1)] assms(2)] by blast
  have "\<forall>nv \<in> set nvs. new_variable_ok g h nv" using assms(2) usable_variable_ok by blast
  from reachable_obs_group.create [OF assms(1) this run(1)] run show ?thesis by blast
qed

theorem createWithScales_succeeds_witness:
  "\<exists>g h s'. reachable_obs_group (g, h) \<and> createWithScales Layout_ObsGroup [example_var] (g, h) = Inr s' \<and>
     Base_exists Layout_ObsGroup ''t@ObsValue'' (fst s')"
proof -
  obtain g w where g: "reachable_obs_group (g, [w])" "usable_variable g [w] example_var" by (rule example_generated)
  have "\<forall>nv \<in> set [example_var]. usable_variable g [w] nv" using g(2) by simp
  from createWithScales_succeeds [OF g(1) this] obtain g' h' where
    "createWithScales Layout_ObsGroup [example_var] (g, [w]) = Inr (g', h')" "Base_exists Layout_ObsGroup ''t@ObsValue'' g'"
    by auto
  with g(1) show ?thesis by force
qed

end
