(* ===== verification/Ioda_Rows.thy ===== *)
theory Ioda_Rows
  imports Ioda_Backend
begin

text \<open>
  Transfers of whole rows: the selections that \<open>ObsFrame\<close> builds for the first dimension of a variable
  (\<open>io/ObsFrame.cc\<close>), the index selection of \<open>ObsFrameRead\<close>, and the frontend read into a vector
  (\<open>Variables/Variable.h\<close>). A row is everything stored under one index of the first dimension.

  The lemmas say which elements move: a block of rows of the variable and the beginning of a buffer are copied to
  each other in order. Sizes are bounded by \<open>2 ^ 64\<close>, the range of the address computation.
\<close>

section \<open>User selections\<close>

definition SingleSelection_slab :: "nat list \<Rightarrow> nat list \<Rightarrow> SingleSelection" where
  "SingleSelection_slab start count =
     \<lparr> slab_start = start, slab_count = count, slab_stride = [], slab_block = [], sel_points = [],
       dimension = 0, dimension_indices_starts = [], dimension_indices_counts = [] \<rparr>"

definition SingleSelection_indices :: "nat \<Rightarrow> nat list \<Rightarrow> SingleSelection" where
  "SingleSelection_indices idim indices_starts =
     \<lparr> slab_start = [], slab_count = [], slab_stride = [], slab_block = [], sel_points = [],
       dimension = idim, dimension_indices_starts = indices_starts, dimension_indices_counts = [] \<rparr>"

definition Selection_new :: user_selection where
  "Selection_new = \<lparr> sel_default = SELECT_ALL, sel_actions = [], sel_extent = [] \<rparr>"

definition Selection_select :: "SingleSelection \<Rightarrow> user_selection \<Rightarrow> user_selection" where
  "Selection_select s sel = sel \<lparr> sel_actions := sel_actions sel @ [s] \<rparr>"

definition Selection_extent :: "nat list \<Rightarrow> user_selection \<Rightarrow> user_selection" where
  "Selection_extent sz sel = sel \<lparr> sel_extent := sz \<rparr>"

section \<open>The selections of a frame\<close>

definition createMemSelection :: "nat list \<Rightarrow> nat \<Rightarrow> user_selection" where
  "createMemSelection varShape frameCount =
     (let memShape = varShape[0 := frameCount];
          numElements = fold (*) memShape 1
      in Selection_select (SingleSelection_slab [0] [numElements]) (Selection_extent [numElements] Selection_new))"

definition createEntireFrameSelection :: "nat list \<Rightarrow> nat \<Rightarrow> user_selection" where
  "createEntireFrameSelection varShape frameCount =
     (let entireFrameCounts = varShape[0 := frameCount];
          frameVarShape = varShape[0 := frameCount];
          entireFrameStarts = replicate (length entireFrameCounts) 0
      in Selection_select (SingleSelection_slab entireFrameStarts entireFrameCounts) (Selection_extent frameVarShape Selection_new))"

definition createVarSelection :: "nat list \<Rightarrow> nat \<Rightarrow> nat \<Rightarrow> user_selection" where
  "createVarSelection varShape frameStart frameCount =
     (let varCounts = varShape[0 := frameCount];
          varStarts = (replicate (length varCounts) 0)[0 := frameStart]
      in Selection_select (SingleSelection_slab varStarts varCounts) (Selection_extent varShape Selection_new))"

definition createObsIoSelection :: "nat list \<Rightarrow> nat \<Rightarrow> nat \<Rightarrow> user_selection" where
  "createObsIoSelection varShape frameStart frameCount =
     (let obsIoCounts = varShape[0 := frameCount];
          obsIoStarts = (replicate (length obsIoCounts) 0)[0 := frameStart]
      in Selection_select (SingleSelection_slab obsIoStarts obsIoCounts) (Selection_extent varShape Selection_new))"

definition createIndexedFrameSelection :: "nat list \<Rightarrow> nat list \<Rightarrow> user_selection" where
  "createIndexedFrameSelection frame_loc_index varShape =
     fold (\<lambda>i sel. Selection_select (SingleSelection_indices i [0..<varShape ! i]) (Selection_extent varShape sel)) [1..<length varShape]
       (Selection_select (SingleSelection_indices 0 frame_loc_index) (Selection_extent varShape Selection_new))"

text \<open>The read of the frontend into a new vector, which first gets the size of the whole variable.\<close>

definition Variable_read_vector :: "obs_type \<Rightarrow> user_selection \<Rightarrow> user_selection \<Rightarrow> obs_variable \<Rightarrow> scalar list result" where
  "Variable_read_vector ty mem_selection file_selection v =
     (let (_, _, _, numElements) = Backend_getDimensions v
      in Backend_read (replicate numElements (default_value (ty_type ty))) ty mem_selection file_selection v)"

section \<open>Addresses of rows\<close>

lemma datum_indices_append [simp]: "datum_indices n (xs @ ys) = datum_indices n xs @ datum_indices n ys"
  by (simp add: datum_indices_def)

lemma map_add_datum_indices:
  "map (\<lambda>j. i * (n * e) + j) (datum_indices e xs) = datum_indices e (map (\<lambda>j. i * n + j) xs)"
  by (induction xs) (simp_all add: algebra_simps comp_def)

lemma datum_indices_compose: "datum_indices e (datum_indices n xs) = datum_indices (n * e) xs"
proof (induction xs)
  case (Cons i xs)
  have "datum_indices e (map (\<lambda>j. i * n + j) [0..<n]) = map (\<lambda>j. i * (n * e) + j) [0..<n * e]"
    using map_add_datum_indices [of i n e "[0..<n]"] by (simp add: datum_indices_all)
  then show ?case using Cons by simp
qed simp

lemma radix_points:
  "map (\<lambda>cs. radix_val cs (n # ns)) (product_lists (xs # map (\<lambda>n. [0..<n]) ns)) = datum_indices (prod_list ns) xs"
proof (induction ns arbitrary: n xs)
  case Nil
  then show ?case by (induction xs) simp_all
next
  case (Cons m ns)
  have inner: "map (\<lambda>cs. radix_val cs (m # ns)) (product_lists ([0..<m] # map (\<lambda>n. [0..<n]) ns)) = [0..<m * prod_list ns]"
    using Cons.IH [of m "[0..<m]"] by (simp add: datum_indices_all)
  have "map (\<lambda>cs. radix_val cs (n # m # ns)) (product_lists (xs # map (\<lambda>n. [0..<n]) (m # ns)))
      = concat (map (\<lambda>x. map (\<lambda>cs. x * (m * prod_list ns) + radix_val cs (m # ns)) (product_lists ([0..<m] # map (\<lambda>n. [0..<n]) ns))) xs)"
    by (simp add: map_concat comp_def)
  also have "\<dots> = concat (map (\<lambda>x. map (\<lambda>j. x * (m * prod_list ns) + j) [0..<m * prod_list ns]) xs)"
    by (simp only: inner [symmetric] map_map comp_def)
  finally show ?case by (simp add: datum_indices_def)
qed

lemma slab_rows:
  assumes "length ks = length ds" "\<forall>k \<in> set ks. k = 0"
  shows "genDimSelects_slab (s # ks) (c # ds) [] [] = [s..<s + c] # map (\<lambda>n. [0..<n]) ds"
proof (rule nth_equalityI)
  show "length (genDimSelects_slab (s # ks) (c # ds) [] []) = length ([s..<s + c] # map (\<lambda>n. [0..<n]) ds)"
    using assms(1) by (simp add: genDimSelects_slab_def)
  fix i assume "i < length (genDimSelects_slab (s # ks) (c # ds) [] [])"
  then have i: "i < Suc (length ds)" using assms(1) by (simp add: genDimSelects_slab_def)
  have "genDimSelects_slab (s # ks) (c # ds) [] [] ! i = map (\<lambda>k. (s # ks) ! i + k) [0..<(c # ds) ! i]"
    using i assms(1) by (cases "i = length ds") (simp_all add: genDimSelects_slab_def concat_map_singleton nth_append)
  also have "\<dots> = [(s # ks) ! i..<(s # ks) ! i + (c # ds) ! i]"
    using map_add_upt [of "(s # ks) ! i" "(c # ds) ! i"] by (simp add: add.commute)
  also have "\<dots> = ([s..<s + c] # map (\<lambda>n. [0..<n]) ds) ! i"
  proof (cases i)
    case (Suc j)
    then have "ks ! j = 0" using i assms by simp
    then show ?thesis using Suc i by simp
  qed simp
  finally show "genDimSelects_slab (s # ks) (c # ds) [] [] ! i = ([s..<s + c] # map (\<lambda>n. [0..<n]) ds) ! i" .
qed

text \<open>The selection of the rows \<open>xs\<close> of a variable with \<open>n\<close> rows of the shape \<open>ds\<close>.\<close>

definition row_selection :: "nat list \<Rightarrow> nat \<Rightarrow> nat list \<Rightarrow> selection" where
  "row_selection xs n ds = Selection INTERSECT (xs # map (\<lambda>n. [0..<n]) ds) (n # ds)"

lemma row_selection_facts:
  assumes "\<forall>x \<in> set xs. x < n" "distinct xs" "xs \<noteq> []" "0 < prod_list ds" "n * prod_list ds \<le> 2 ^ 64"
  shows "selection_wf (row_selection xs n ds)"
    "selection_points (row_selection xs n ds) = datum_indices (prod_list ds) xs"
    "npoints (row_selection xs n ds) = length xs * prod_list ds"
    "length xs * prod_list ds \<le> transfer_fuel (row_selection xs n ds)"
proof -
  have pos: "\<forall>d \<in> set ds. 0 < d" using assms(4) prod_list_zero_iff [of ds] by (metis gr0I less_not_refl)
  show "selection_wf (row_selection xs n ds)"
    unfolding row_selection_def
  proof (rule Selection_intersect_wf)
    show "\<forall>ys \<in> set (xs # map (\<lambda>n. [0..<n]) ds). ys \<noteq> []" using assms(3) pos by auto
    show "list_all2 (\<lambda>xs n. \<forall>x \<in> set xs. x < n) (xs # map (\<lambda>n. [0..<n]) ds) (n # ds)"
      using assms(1) by (auto simp: list_all2_map1 list_all2_same)
  qed (use assms(5) in simp_all)
  show "selection_points (row_selection xs n ds) = datum_indices (prod_list ds) xs"
    by (simp only: selection_points_def row_selection_def Selection_fields radix_points [of n ds xs] SelectionModes.distinct if_False)
  show np: "npoints (row_selection xs n ds) = length xs * prod_list ds"
    by (simp add: row_selection_def Selection_fields comp_def)
  show "length xs * prod_list ds \<le> transfer_fuel (row_selection xs n ds)"
    by (simp add: transfer_fuel_def np)
qed

lemma npoints_row_selection: "npoints (row_selection xs n ds) = length xs * prod_list ds"
  by (simp add: row_selection_def Selection_fields comp_def)

lemmas user_selection_defs = Selection_select_def Selection_extent_def Selection_new_def SingleSelection_slab_def
  SingleSelection_indices_def

lemma createObsStoreSelection_slab:
  assumes "length ks = length ds" "\<forall>k \<in> set ks. k = 0" "length sizes = length ds"
  shows "createObsStoreSelection SELECT_ALL [SingleSelection_slab (s # ks) (c # ds)] (n # ds) = Inr (row_selection [s..<s + c] n ds)"
  by (simp add: createObsStoreSelection_def SingleSelection_slab_def slab_rows [OF assms(1,2)] row_selection_def)

lemma createMemSelection_eq:
  assumes "prod_list (sh[0 := k]) = N"
  shows "createMemSelection sh k = \<lparr> sel_default = SELECT_ALL, sel_actions = [SingleSelection_slab [0] [N]], sel_extent = [N] \<rparr>"
  using assms by (simp add: createMemSelection_def user_selection_defs fold_times_prod)

lemma createObsStoreSelection_mem:
  "createObsStoreSelection SELECT_ALL [SingleSelection_slab [0] [N]] [N] = Inr (row_selection [0..<N] N [])"
  using createObsStoreSelection_slab [of "[]" "[]" "[]" 0 N N] by simp

text \<open>A user selection that selects the rows \<open>xs\<close>.\<close>

definition selects_rows :: "user_selection \<Rightarrow> nat list \<Rightarrow> nat \<Rightarrow> nat list \<Rightarrow> bool" where
  "selects_rows f xs n ds \<longleftrightarrow> createObsStoreSelection (sel_default f) (sel_actions f) (n # ds) = Inr (row_selection xs n ds)"

lemma createObsIoSelection_rows: "selects_rows (createObsIoSelection (n # ds) s c) [s..<s + c] n ds"
proof -
  have "(replicate (length ((n # ds)[0 := c])) 0)[0 := s] = s # replicate (length ds) 0" by simp
  then show ?thesis
    using createObsStoreSelection_slab [of "replicate (length ds) 0" ds ds s c n]
    by (simp add: selects_rows_def createObsIoSelection_def user_selection_defs Let_def)
qed

lemma createVarSelection_rows: "selects_rows (createVarSelection (n # ds) s c) [s..<s + c] n ds"
  using createObsIoSelection_rows [of n ds s c]
  by (simp add: selects_rows_def createVarSelection_def createObsIoSelection_def Let_def)

lemma createEntireFrameSelection_rows: "selects_rows (createEntireFrameSelection (m # ds) c) [0..<c] n ds"
  using createObsStoreSelection_slab [of "replicate (length ds) 0" ds ds 0 c n]
  by (simp add: selects_rows_def createEntireFrameSelection_def user_selection_defs Let_def)

lemma action_indices_sorted: "sorted_wrt (<) xs \<Longrightarrow> action_indices (SingleSelection_indices i xs) = xs"
  by (simp add: action_indices_def SingleSelection_indices_def concat_map_singleton map_nth strict_sorted_iff
      distinct_remdups_id sorted_sort_id)

lemma createIndexedFrameSelection_actions:
  "createIndexedFrameSelection idx sh = \<lparr> sel_default = SELECT_ALL,
     sel_actions = SingleSelection_indices 0 idx # map (\<lambda>i. SingleSelection_indices i [0..<sh ! i]) [1..<length sh], sel_extent = sh \<rparr>"
proof -
  have "fold (\<lambda>i sel. Selection_select (SingleSelection_indices i [0..<sh ! i]) (Selection_extent sh sel)) is
      \<lparr> sel_default = SELECT_ALL, sel_actions = as, sel_extent = sh \<rparr>
    = \<lparr> sel_default = SELECT_ALL, sel_actions = as @ map (\<lambda>i. SingleSelection_indices i [0..<sh ! i]) is, sel_extent = sh \<rparr>" for "is" as
    by (induction "is" arbitrary: as) (simp_all add: Selection_select_def Selection_extent_def)
  then show ?thesis
    by (simp add: createIndexedFrameSelection_def Selection_select_def Selection_extent_def Selection_new_def)
qed

lemma fold_dimension_updates:
  assumes "\<forall>i \<in> set is. 0 < i"
  shows "length (fold (\<lambda>a selects. selects[dimension a := action_indices a])
      (map (\<lambda>i. SingleSelection_indices i [0..<sh ! i]) is) sel) = length sel
   \<and> (\<forall>j < length sel. fold (\<lambda>a selects. selects[dimension a := action_indices a])
      (map (\<lambda>i. SingleSelection_indices i [0..<sh ! i]) is) sel ! j = (if j \<in> set is then [0..<sh ! j] else sel ! j))"
  using assms
proof (induction "is" arbitrary: sel)
  case (Cons i "is")
  have d: "dimension (SingleSelection_indices i xs) = i" for i xs by (simp add: SingleSelection_indices_def)
  have "action_indices (SingleSelection_indices i [0..<sh ! i]) = [0..<sh ! i]" by (rule action_indices_sorted) simp
  then show ?case using Cons by (auto simp: d nth_list_update)
qed simp

lemma createIndexedFrameSelection_rows:
  assumes "sorted_wrt (<) idx" "idx \<noteq> []"
  shows "selects_rows (createIndexedFrameSelection idx (m # ds)) idx n ds"
proof -
  let ?sh = "m # ds"
  let ?as = "map (\<lambda>i. SingleSelection_indices i [0..<?sh ! i]) [1..<length ?sh]"
  let ?sel = "fold (\<lambda>a selects. selects[dimension a := action_indices a]) ?as (idx # replicate (length ds) [])"
  note f = fold_dimension_updates [of "[1..<length ?sh]" ?sh "idx # replicate (length ds) []"]
  have first: "action_indices (SingleSelection_indices 0 idx) = idx" "dimension (SingleSelection_indices 0 idx) = 0"
    using action_indices_sorted [OF assms(1)] by (auto simp: SingleSelection_indices_def)
  have "genDimSelects_actions (SingleSelection_indices 0 idx # ?as) (n # ds)
      = map (\<lambda>idim. if ?sel ! idim = [] then [0..<(n # ds) ! idim] else ?sel ! idim) [0..<length ?sel]"
    by (simp add: genDimSelects_actions_def Let_def first del: upt_Suc upt_rec_numeral)
  also have "\<dots> = idx # map (\<lambda>n. [0..<n]) ds"
  proof (rule nth_equalityI)
    fix i assume "i < length (map (\<lambda>idim. if ?sel ! idim = [] then [0..<(n # ds) ! idim] else ?sel ! idim) [0..<length ?sel])"
    then have i: "i < Suc (length ds)" using f by simp
    then have "?sel ! i = (if i = 0 then idx else [0..<ds ! (i - 1)])"
      using f by (cases i) (auto simp del: upt_Suc)
    with i f show "map (\<lambda>idim. if ?sel ! idim = [] then [0..<(n # ds) ! idim] else ?sel ! idim) [0..<length ?sel] ! i
        = (idx # map (\<lambda>n. [0..<n]) ds) ! i"
      using assms(2) by (cases i) (simp_all del: upt_Suc)
  qed (use f in simp)
  finally show ?thesis
    using assms(2)
    by (simp add: selects_rows_def createIndexedFrameSelection_actions createObsStoreSelection_def row_selection_def
        SingleSelection_indices_def del: upt_Suc)
qed

section \<open>What a transfer of rows moves\<close>

definition rows_at :: "nat \<Rightarrow> nat list \<Rightarrow> 'a list \<Rightarrow> 'a list" where
  "rows_at w xs data = map ((!) data) (datum_indices w xs)"

lemma length_rows_at [simp]: "length (rows_at w xs data) = w * length xs"
  by (simp add: rows_at_def)

lemma rows_at_append [simp]: "rows_at w (xs @ ys) data = rows_at w xs data @ rows_at w ys data"
  by (simp add: rows_at_def)

lemma datum_indices_block: "datum_indices w [s..<s + c] = [s * w..<(s + c) * w]"
proof -
  have "datum_indices w [0..<s] @ datum_indices w [s..<s + c] = datum_indices w [0..<s + c]"
    by (simp only: upt_add_eq_append [of 0 s c] datum_indices_append le0)
  then have "[0..<s * w] @ datum_indices w [s..<s + c] = [0..<s * w] @ [s * w..<(s + c) * w]"
    by (simp only: datum_indices_all upt_add_eq_append [of 0 "s * w" "c * w", symmetric] add_mult_distrib le0)
  then show ?thesis by simp
qed

lemma rows_at_block: "(s + c) * w \<le> length data \<Longrightarrow> rows_at w [s..<s + c] data = take (c * w) (drop (s * w) data)"
  unfolding rows_at_def datum_indices_block add_mult_distrib by (rule nth_equalityI) simp_all

lemma scatter_gather:
  assumes "length is \<le> length dst"
  shows "scatter src (zip is [0..<length is]) dst = map ((!) src) is @ drop (length is) dst"
proof (rule nth_equalityI)
  fix j assume "j < length (scatter src (zip is [0..<length is]) dst)"
  then have j: "j < length dst" by simp
  show "scatter src (zip is [0..<length is]) dst ! j = (map ((!) src) is @ drop (length is) dst) ! j"
  proof (cases "j < length is")
    case True
    then have "(is ! j, j) \<in> set (zip is [0..<length is])" by (auto simp: set_zip intro!: exI [of _ j])
    then show ?thesis using True j scatter_at [of "zip is [0..<length is]" "is ! j" j dst src] by (simp add: nth_append)
  next
    case False
    then have "j \<notin> snd ` set (zip is [0..<length is])" by (auto dest: set_zip_rightD)
    then show ?thesis using False j assms by (simp add: scatter_other nth_append)
  qed
qed (use assms in simp)

lemma scatter_block:
  assumes "a + L \<le> length dst" "L \<le> length src"
  shows "scatter src (zip [0..<L] [a..<a + L]) dst = take a dst @ take L src @ drop (a + L) dst"
proof (rule nth_equalityI)
  fix j assume "j < length (scatter src (zip [0..<L] [a..<a + L]) dst)"
  then have j: "j < length dst" by simp
  show "scatter src (zip [0..<L] [a..<a + L]) dst ! j = (take a dst @ take L src @ drop (a + L) dst) ! j"
  proof (cases "a \<le> j \<and> j < a + L")
    case True
    then have "(j - a, j) \<in> set (zip [0..<L] [a..<a + L])" by (auto simp: set_zip intro!: exI [of _ "j - a"])
    then show ?thesis using True j assms scatter_at [of "zip [0..<L] [a..<a + L]" "j - a" j dst src] by (auto simp: nth_append)
  next
    case False
    then have "j \<notin> snd ` set (zip [0..<L] [a..<a + L])" by (auto dest: set_zip_rightD)
    then show ?thesis using False j assms by (auto simp: scatter_other nth_append)
  qed
qed (use assms in simp)

text \<open>A variable with one element to a datum, as all types supported by the reader have it.\<close>

definition plain_variable :: "obs_variable \<Rightarrow> bool" where
  "plain_variable v \<longleftrightarrow> variable_ok v \<and> num_elements (var_data v) = 1"

lemma plain_variable_facts:
  assumes "plain_variable v"
  shows "variable_ok v" "num_elements (var_data v) = 1" "ty_num_elements (dtype v) = 1"
    "length (var_attr_data (var_data v)) = prod_list (dimensions v)"
    "snd (snd (snd (Backend_getDimensions v))) = prod_list (dimensions v)"
  using assms fold_times_nth [of "dimensions v"] by (simp_all add: plain_variable_def variable_ok_def Backend_getDimensions_def Let_def)

lemma datum_indices_1 [simp]: "datum_indices (Suc 0) xs = xs"
  by (simp add: datum_indices_def concat_map_singleton)

lemma length_le_distinct_bound: "distinct xs \<Longrightarrow> \<forall>x \<in> set xs. x < n \<Longrightarrow> length xs \<le> (n :: nat)"
  using card_mono [of "{..<n}" "set xs"] by (auto simp: distinct_card)

text \<open>The selections on the two sides of a transfer of rows.\<close>

lemma row_transfer_sides:
  assumes "xs \<noteq> []" "distinct xs" "\<forall>x \<in> set xs. x < n" "0 < prod_list ds" "n * prod_list ds \<le> 2 ^ 64"
  defines "N \<equiv> length xs * prod_list ds"
  defines "m \<equiv> row_selection [0..<N] N []" and "f \<equiv> row_selection xs n ds"
  shows "selection_wf m" "selection_wf f" "selection_points m = [0..<N]" "selection_points f = datum_indices (prod_list ds) xs"
    "N \<le> transfer_fuel m" "N \<le> n * prod_list ds"
proof -
  have "length xs \<le> n" using assms(2,3) by (rule length_le_distinct_bound)
  then show N: "N \<le> n * prod_list ds" unfolding N_def by (rule mult_le_mono1)
  have pos: "0 < N" using assms(1,4) by (simp add: N_def)
  note m = row_selection_facts [of "[0..<N]" N "[]", folded m_def]
  note f = row_selection_facts [OF assms(3,2,1,4,5), folded f_def]
  show "selection_wf m" "selection_points m = [0..<N]" "N \<le> transfer_fuel m"
    using m pos N assms(5) by simp_all
  show "selection_wf f" "selection_points f = datum_indices (prod_list ds) xs" using f by simp_all
qed

lemma read_rows:
  assumes "plain_variable v" "dimensions v = n # ds" "n * prod_list ds \<le> 2 ^ 64"
    "xs \<noteq> []" "distinct xs" "\<forall>x \<in> set xs. x < n" "selects_rows f xs n ds"
  shows "Variable_read_vector (dtype v) (createMemSelection (k # ds) (length xs)) f v
    = Inr (rows_at (prod_list ds) xs (var_attr_data (var_data v)) @
        replicate ((n - length xs) * prod_list ds) (default_value (ty_type (dtype v))))"
proof -
  let ?P = "prod_list ds" and ?N = "length xs * prod_list ds" and ?buf = "replicate (n * prod_list ds) (default_value (ty_type (dtype v)))"
  let ?m = "row_selection [0..<?N] ?N []" and ?f = "row_selection xs n ds"
  note v = plain_variable_facts [OF assms(1)]
  have mem: "createMemSelection (k # ds) (length xs) = \<lparr> sel_default = SELECT_ALL, sel_actions = [SingleSelection_slab [0] [?N]], sel_extent = [?N] \<rparr>"
    by (rule createMemSelection_eq) simp
  have read: "Variable_read_vector (dtype v) (createMemSelection (k # ds) (length xs)) f v = VarAttrStore_read ?buf ?m ?f (var_data v)"
    using assms(2,7) v(5)
    by (simp add: Variable_read_vector_def split_def Backend_read_def mem mem_dim_sizes_def createObsStoreSelection_mem selects_rows_def
        npoints_row_selection Variable_read_def Type_eq_iff)
  show ?thesis
  proof (cases "?P = 0")
    case True
    then show ?thesis unfolding read by (simp add: VarAttrStore_read_def rows_at_def datum_indices_def)
  next
    case False
    then have P: "0 < ?P" by simp
    note s = row_transfer_sides [OF assms(4-6) P assms(3)]
    have "?buf \<noteq> []" using assms(4,6) P by (cases xs) auto
    then have "VarAttrStore_read ?buf ?m ?f (var_data v)
        = Inr (scatter (var_attr_data (var_data v)) (zip (datum_indices ?P xs) [0..<?N]) ?buf)"
      using VarAttrStore_read_scatter [OF s(1,2), of ?buf "var_data v"] s v(2) by (simp add: mult.commute)
    also have "scatter (var_attr_data (var_data v)) (zip (datum_indices ?P xs) [0..<?N]) ?buf
        = rows_at ?P xs (var_attr_data (var_data v)) @ drop ?N ?buf"
      using scatter_gather [of "datum_indices ?P xs" ?buf "var_attr_data (var_data v)"] s(6) by (simp add: rows_at_def mult.commute)
    finally show ?thesis unfolding read by (simp add: diff_mult_distrib)
  qed
qed

lemma write_rows:
  assumes "plain_variable v" "dimensions v = n # ds" "n * prod_list ds \<le> 2 ^ 64"
    "0 < c" "s + c \<le> n" "selects_rows f [s..<s + c] n ds" "c * prod_list ds \<le> length buf" "prod_list ds = 0 \<Longrightarrow> buf = []"
  shows "Backend_write buf (dtype v) (createMemSelection (k # ds) c) f v
    = Inr (v \<lparr> var_data := (var_data v) \<lparr> var_attr_data :=
        take (s * prod_list ds) (var_attr_data (var_data v)) @ take (c * prod_list ds) buf @
        drop ((s + c) * prod_list ds) (var_attr_data (var_data v)) \<rparr> \<rparr>)"
proof -
  let ?P = "prod_list ds" and ?N = "c * prod_list ds" and ?old = "var_attr_data (var_data v)" and ?xs = "[s..<s + c]"
  let ?m = "row_selection [0..<?N] ?N []" and ?f = "row_selection ?xs n ds"
  note v = plain_variable_facts [OF assms(1)]
  have mem: "createMemSelection (k # ds) c = \<lparr> sel_default = SELECT_ALL, sel_actions = [SingleSelection_slab [0] [?N]], sel_extent = [?N] \<rparr>"
    by (rule createMemSelection_eq) simp
  have wr: "Backend_write buf (dtype v) (createMemSelection (k # ds) c) f v
      = bind_result (VarAttrStore_write buf ?m ?f (var_data v)) (\<lambda>st. Inr (v \<lparr> var_data := st \<rparr>))"
    using assms(2,6)
    by (simp add: Backend_write_def mem mem_dim_sizes_def createObsStoreSelection_mem selects_rows_def
        npoints_row_selection Variable_write_def Type_eq_iff)
  have len: "length ?old = n * ?P" using v(4) assms(2) by simp
  show ?thesis
  proof (cases "?P = 0")
    case True
    then show ?thesis using len assms(8) unfolding wr by (simp add: VarAttrStore_write_def)
  next
    case False
    then have P: "0 < ?P" by simp
    have xs: "?xs \<noteq> []" "distinct ?xs" "\<forall>x \<in> set ?xs. x < n" using assms(4,5) by auto
    note s = row_transfer_sides [OF xs P assms(3), unfolded length_upt diff_add_inverse datum_indices_block add_mult_distrib]
    have "0 < ?N" using assms(4) P by simp
    then have "buf \<noteq> []" using assms(7) by auto
    then have "VarAttrStore_write buf ?m ?f (var_data v)
        = Inr ((var_data v) \<lparr> var_attr_data := scatter buf (zip [0..<?N] [s * ?P..<s * ?P + ?N]) ?old \<rparr>)"
      using VarAttrStore_write_scatter [OF s(1,2), of buf "var_data v"] s(3-5) v(2) by simp
    moreover have "s * ?P + ?N \<le> length ?old" using mult_le_mono1 [OF assms(5), of ?P] len by (simp add: add_mult_distrib)
    ultimately show ?thesis unfolding wr using scatter_block [of "s * ?P" ?N ?old buf] assms(7) by (simp add: add_mult_distrib)
  qed
qed

section \<open>The transfer of a frame\<close>

definition set_data :: "scalar list \<Rightarrow> obs_variable \<Rightarrow> obs_variable" where
  "set_data d v = v \<lparr> var_data := (var_data v) \<lparr> var_attr_data := d \<rparr> \<rparr>"

lemma set_data_fields [simp]:
  "dimensions (set_data d v) = dimensions v" "max_dimensions (set_data d v) = max_dimensions v" "dtype (set_data d v) = dtype v"
  "dim_scales (set_data d v) = dim_scales v" "is_scale (set_data d v) = is_scale v" "atts (set_data d v) = atts v"
  "impl_atts (set_data d v) = impl_atts v" "fvdata (set_data d v) = fvdata v" "var_attr_data (var_data (set_data d v)) = d"
  "num_elements (var_data (set_data d v)) = num_elements (var_data v)" "store_type (var_data (set_data d v)) = store_type (var_data v)"
  by (simp_all add: set_data_def)

lemma plain_set_data: "plain_variable v \<Longrightarrow> length d = prod_list (dimensions v) \<Longrightarrow> plain_variable (set_data d v)"
  by (simp add: plain_variable_def variable_ok_def fill_ok_def cong: option.case_cong)

text \<open>Reading the rows of a frame through the selections of the reader and writing them to the beginning of another
  variable with rows of the same shape puts exactly these rows there and leaves the other rows as they were.\<close>

lemma frame_transfer:
  assumes "plain_variable src" "dimensions src = n # ds" "plain_variable dst" "dimensions dst = m # ds" "dtype dst = dtype src"
    "n * prod_list ds \<le> 2 ^ 64" "m * prod_list ds \<le> 2 ^ 64" "0 < c" "s + c \<le> n" "c \<le> m"
  shows "\<exists>buf dst'. Variable_read_vector (dtype src) (createMemSelection (dimensions src) c) (createObsIoSelection (dimensions src) s c) src = Inr buf \<and>
    Backend_write buf (dtype dst) (createMemSelection (dimensions src) c) (createEntireFrameSelection (dimensions src) c) dst = Inr dst' \<and>
    dst' = set_data (var_attr_data (var_data dst')) dst \<and>
    rows_at (prod_list ds) [0..<c] (var_attr_data (var_data dst')) = rows_at (prod_list ds) [s..<s + c] (var_attr_data (var_data src)) \<and>
    rows_at (prod_list ds) [c..<m] (var_attr_data (var_data dst')) = rows_at (prod_list ds) [c..<m] (var_attr_data (var_data dst)) \<and>
    plain_variable dst'"
proof -
  let ?P = "prod_list ds" and ?src = "var_attr_data (var_data src)" and ?dst = "var_attr_data (var_data dst)"
  let ?block = "rows_at ?P [s..<s + c] ?src"
  define buf where "buf = ?block @ replicate ((n - c) * ?P) (default_value (ty_type (dtype src)))"
  have xs: "[s..<s + c] \<noteq> []" "distinct [s..<s + c]" "\<forall>x \<in> set [s..<s + c]. x < n" using assms(8,9) by auto
  have read: "Variable_read_vector (dtype src) (createMemSelection (n # ds) c) (createObsIoSelection (n # ds) s c) src = Inr buf"
    using read_rows [OF assms(1,2,6) xs createObsIoSelection_rows, of n] by (simp add: buf_def)
  have len: "length ?block = c * ?P" by (simp add: mult.commute)
  have tk: "take (c * ?P) buf = ?block" by (simp add: buf_def len)
  have "?P = 0 \<Longrightarrow> buf = []" by (simp add: buf_def rows_at_def datum_indices_def)
  then have wr: "Backend_write buf (dtype dst) (createMemSelection (n # ds) c) (createEntireFrameSelection (n # ds) c) dst
      = Inr (set_data (?block @ drop (c * ?P) ?dst) dst)"
    using write_rows [OF assms(3,4,7,8), of 0 "createEntireFrameSelection (n # ds) c" buf n] createEntireFrameSelection_rows [of n ds c m] assms(10) tk
    by (simp add: buf_def len set_data_def)
  let ?dst' = "set_data (?block @ drop (c * ?P) ?dst) dst"
  have dl: "length ?dst = m * ?P" using plain_variable_facts(4) [OF assms(3)] assms(4) by simp
  have mono: "c * ?P \<le> m * ?P" using assms(10) by (rule mult_le_mono1)
  have r1: "rows_at ?P [0..<0 + c] (?block @ drop (c * ?P) ?dst) = ?block"
    by (subst rows_at_block) (use len dl mono in simp_all)
  have r2: "rows_at ?P [c..<c + (m - c)] (?block @ drop (c * ?P) ?dst) = rows_at ?P [c..<c + (m - c)] ?dst"
    by (subst (1 2) rows_at_block) (use len dl mono assms(10) in simp_all)
  have "plain_variable ?dst'"
    using assms(3) len dl mono by (intro plain_set_data) (simp_all add: assms(4))
  then show ?thesis using read wr r1 r2 assms(2,10) by (intro exI [of _ buf] exI [of _ ?dst']) simp
qed

end
