(* ===== verification/Ioda_VarUtils.thy ===== *)
theory Ioda_VarUtils
  imports Ioda_Scales Ioda_Rows "HOL-Library.Multiset"
begin

text \<open>
  Inspection of a group (\<open>VarUtils.cpp\<close>, \<open>Variables/VarUtils.h\<close>): the types that an ObsSpace supports, the order in
  which variables are visited, the dimension scales attached to each axis (\<open>Variable.cpp\<close>), and
  \<open>collectVarDimInfo\<close>, which separates the dimension scales of a group from its variables.

  A \<open>Named_Variable\<close> is a name with the address of the variable; \<open>VarDimMap\<close> is ordered by the names.
\<close>

section \<open>Supported types\<close>

definition Variable_isA :: "cpp_type \<Rightarrow> obs_variable \<Rightarrow> bool" where
  "Variable_isA c v = (case makeFundamentalType c of Inr ty \<Rightarrow> Variable_isOfType ty v | Inl _ \<Rightarrow> False)"

text \<open>The action is called with the first type that matches; \<open>int64_t\<close> is \<open>long\<close>.\<close>

definition forAnySupportedVariableType :: "obs_variable \<Rightarrow> (cpp_type \<Rightarrow> 'a result) \<Rightarrow> 'a result \<Rightarrow> 'a result" where
  "forAnySupportedVariableType v action typeErrorHandler =
     (if Variable_isA CT_int v then action CT_int
      else if Variable_isA CT_long v then action CT_long
      else if Variable_isA CT_float v then action CT_float
      else if Variable_isA CT_string v then action CT_string
      else if Variable_isA CT_char v then action CT_char
      else typeErrorHandler)"

definition ThrowIfVariableIsOfUnsupportedType :: "string \<Rightarrow> 'a result" where
  "ThrowIfVariableIsOfUnsupportedType varName =
     Inl (Exception (''Variable '' @ varName @ '' is not of any supported type''))"

definition forEachSupportedVariableType :: "(cpp_type \<Rightarrow> 'a \<Rightarrow> 'a) \<Rightarrow> 'a \<Rightarrow> 'a" where
  "forEachSupportedVariableType action = fold action [CT_int, CT_long, CT_float, CT_string, CT_char]"

section \<open>Order of the variables\<close>

definition LocationVarNames :: "string list" where
  "LocationVarNames = [''Location'', ''nlocs'']"

definition isPossiblyScale :: "string \<Rightarrow> bool" where
  "isPossiblyScale name \<longleftrightarrow> str_find (CHR ''@'') name = None \<and> str_find (CHR ''/'') name = None"

definition preferentialSortVariableNames :: "string list \<Rightarrow> string list" where
  "preferentialSortVariableNames allVars =
     fold (\<lambda>name sortedAllVars.
         if sortedAllVars = [] then [name]
         else if isPossiblyScale name
         then if hd sortedAllVars \<in> set LocationVarNames then hd sortedAllVars # name # tl sortedAllVars
              else name # sortedAllVars
         else sortedAllVars @ [name])
       allVars []"

section \<open>Collecting variables and dimensions\<close>

type_synonym named_variable = "string \<times> nat"

definition getDimensionScaleMappings :: "named_variable list \<Rightarrow> bool \<Rightarrow> obs_variable \<Rightarrow> named_variable list list" where
  "getDimensionScaleMappings scalesToQueryAgainst firstOnly v =
     map (\<lambda>i. let attached = filter (\<lambda>s. Variable_isDimensionScaleAttached i (snd s) v) scalesToQueryAgainst
              in if firstOnly then take 1 attached else attached)
       [0..<length (dimensions v)]"

record var_dim_info =
  varList :: "named_variable list"
  dimVarList :: "named_variable list"
  dimsAttachedToVars :: "(string, nat \<times> named_variable list) std_map"
  maxVarSize0 :: nat
  dimension_scales :: "named_variable list"

text \<open>Without subgroups, the dimension scales are moved to the front.\<close>

definition scales_first :: "layout \<Rightarrow> group \<Rightarrow> heap \<Rightarrow> string list \<Rightarrow> string list result" where
  "scales_first l g h sortedAllVars =
     bind_result (fold_result (\<lambda>vname (scales, nonscales).
         bind_result (Base_open l vname g) (\<lambda>a.
           Inr (if is_scale (h ! a)
                then (if vname \<in> set LocationVarNames then vname # scales else scales @ [vname], nonscales)
                else (scales, nonscales @ [vname]))))
       sortedAllVars ([], [])) (\<lambda>(scales, nonscales). Inr (scales @ nonscales))"

definition collect_variable :: "layout \<Rightarrow> group \<Rightarrow> heap \<Rightarrow> string \<Rightarrow> var_dim_info \<Rightarrow> var_dim_info result" where
  "collect_variable l g h vname info =
     bind_result (Base_open l vname g) (\<lambda>a.
       let v = h ! a; dims = dimensions v;
           info = (if length dims \<ge> 1 then info \<lparr> maxVarSize0 := max (maxVarSize0 info) (dims ! 0) \<rparr> else info)
       in if length dims = 1 \<and> isPossiblyScale vname \<and> is_scale v
          then Inr (info \<lparr> dimension_scales := (if vname \<in> set LocationVarNames then (vname, a) # dimension_scales info
                               else dimension_scales info @ [(vname, a)]),
                           dimVarList := dimVarList info @ [(vname, a)] \<rparr>)
          else let info = info \<lparr> varList := varList info @ [(vname, a)] \<rparr>;
                   attached_dimensions = getDimensionScaleMappings (dimension_scales info) True v
               in if list_ex (\<lambda>along_axis. along_axis = []) attached_dimensions
                  then Inl (Exception ''Unexpected size of dim_scales_along_axis'')
                  else Inr (info \<lparr> dimsAttachedToVars :=
                         std_insert vname (a, map (\<lambda>along_axis. along_axis ! 0) attached_dimensions) (dimsAttachedToVars info) \<rparr>))"

definition collectVarDimInfo :: "layout \<Rightarrow> group \<Rightarrow> heap \<Rightarrow> var_dim_info result" where
  "collectVarDimInfo l g h =
     (let allVars = (case snd (Backend_listObjects OT_Variable True g) of Some xs \<Rightarrow> xs | None \<Rightarrow> []);
          sortedAllVars = preferentialSortVariableNames allVars
      in bind_result (if Group_list g = [] then scales_first l g h sortedAllVars else Inr sortedAllVars) (\<lambda>sortedAllVars.
           fold_result (collect_variable l g h) sortedAllVars
             \<lparr> varList = [], dimVarList = [], dimsAttachedToVars = [], maxVarSize0 = 0, dimension_scales = [] \<rparr>))"

section \<open>The preferred order\<close>

lemma isPossiblyScale_iff: "isPossiblyScale n \<longleftrightarrow> at_free n \<and> slash_free n"
  by (simp add: isPossiblyScale_def str_find_None at_free_def slash_free_def)

lemma location_names_possible: "n \<in> set LocationVarNames \<Longrightarrow> isPossiblyScale n"
  by (auto simp: LocationVarNames_def isPossiblyScale_iff at_free_def slash_free_def)

lemma preferential_sort_parts:
  "\<exists>ss. preferentialSortVariableNames ns = ss @ filter (\<lambda>n. \<not> isPossiblyScale n) ns \<and>
     mset ss = mset (filter isPossiblyScale ns) \<and>
     (\<forall>n \<in> set ns. n \<in> set LocationVarNames \<longrightarrow> ss \<noteq> [] \<and> hd ss \<in> set LocationVarNames)"
proof (induction ns rule: rev_induct)
  case Nil
  then show ?case by (simp add: preferentialSortVariableNames_def)
next
  case (snoc n ns)
  let ?rest = "filter (\<lambda>n. \<not> isPossiblyScale n) ns"
  from snoc obtain ss where ss: "preferentialSortVariableNames ns = ss @ ?rest" "mset ss = mset (filter isPossiblyScale ns)"
    "\<forall>n \<in> set ns. n \<in> set LocationVarNames \<longrightarrow> ss \<noteq> [] \<and> hd ss \<in> set LocationVarNames" by blast
  have eq: "preferentialSortVariableNames (ns @ [n]) =
      (let s = preferentialSortVariableNames ns
       in if s = [] then [n] else if isPossiblyScale n
          then if hd s \<in> set LocationVarNames then hd s # n # tl s else n # s else s @ [n])"
    by (simp add: preferentialSortVariableNames_def Let_def)
  show ?case
  proof (cases "isPossiblyScale n")
    case False
    then have "n \<notin> set LocationVarNames" using location_names_possible by blast
    then show ?thesis using False ss eq by (intro exI [of _ ss]) (auto simp: Let_def)
  next
    case True
    show ?thesis
    proof (cases "ss = []")
      case Nil: True
      have "hd (ss @ ?rest) \<notin> set LocationVarNames" if "ss @ ?rest \<noteq> []"
      proof -
        have "hd (ss @ ?rest) \<in> set ?rest" using that Nil by (cases ?rest) auto
        then show ?thesis using location_names_possible by auto
      qed
      then have "preferentialSortVariableNames (ns @ [n]) = [n] @ ?rest" using True Nil ss(1) eq by (auto simp: Let_def)
      then show ?thesis using True Nil ss(2,3) by (intro exI [of _ "[n]"]) auto
    next
      case False
      show ?thesis
      proof (cases "hd ss \<in> set LocationVarNames")
        case loc: True
        then have "preferentialSortVariableNames (ns @ [n]) = (hd ss # n # tl ss) @ ?rest"
          using True False ss(1) eq by (auto simp: Let_def)
        moreover have "mset (hd ss # n # tl ss) = mset (filter isPossiblyScale (ns @ [n]))"
          using True False ss(2) by (cases ss) auto
        ultimately show ?thesis using True loc by (intro exI [of _ "hd ss # n # tl ss"]) simp
      next
        case other: False
        then have "preferentialSortVariableNames (ns @ [n]) = (n # ss) @ ?rest"
          using True False ss(1) eq by (auto simp: Let_def)
        then show ?thesis using True other False ss(2,3) by (intro exI [of _ "n # ss"]) auto
      qed
    qed
  qed
qed

section \<open>The listing has no duplicates\<close>

fun variable_keys :: "group \<Rightarrow> (string list \<times> string) list"
  and child_variable_keys :: "(string \<times> group) list \<Rightarrow> (string list \<times> string) list" where
  "variable_keys (Group cs vs as) = map (\<lambda>v. ([], v)) (map fst vs) @ child_variable_keys cs"
| "child_variable_keys [] = []"
| "child_variable_keys ((n, c) # cs) = map (\<lambda>(ps, v). (n # ps, v)) (variable_keys c) @ child_variable_keys cs"

lemma variable_names_keys:
  "variable_names prefix g = map (\<lambda>k. prefix @ path_name k) (variable_keys g)"
  "child_variable_names prefix cs = map (\<lambda>k. prefix @ path_name k) (child_variable_keys cs)"
  by (induction prefix g and prefix cs rule: variable_names_child_variable_names.induct)
     (simp_all add: path_name_simps comp_def split_def)

lemma distinct_variable_keys:
  "group_ok g \<Longrightarrow> distinct (variable_keys g)"
  "list_all (\<lambda>e. group_ok (snd e)) cs \<Longrightarrow> distinct (map fst cs) \<Longrightarrow>
     distinct (child_variable_keys cs) \<and> (\<forall>k \<in> set (child_variable_keys cs). fst k \<noteq> [] \<and> hd (fst k) \<in> fst ` set cs)"
proof (induction g and cs rule: variable_keys_child_variable_keys.induct)
  case (1 cs vs as)
  then have "distinct (map fst cs)" "distinct (map fst vs)" by (simp_all add: std_map_ok_def std_keys_def strict_sorted_iff)
  with 1 show ?case by (auto simp: distinct_map inj_on_def)
next
  case 2
  then show ?case by simp
next
  case (3 n c cs)
  then have "distinct (variable_keys c)"
    "distinct (child_variable_keys cs)" "\<forall>k \<in> set (child_variable_keys cs). fst k \<noteq> [] \<and> hd (fst k) \<in> fst ` set cs" by auto
  moreover have "distinct (map (\<lambda>(ps, v). (n # ps, v)) (variable_keys c))"
    using calculation(1) by (auto simp: distinct_map inj_on_def)
  ultimately show ?case using 3(4) by (auto simp: image_iff split_def) force+
qed

lemma variable_keys_set:
  assumes "group_ok g"
  shows "k \<in> set (variable_keys g) \<Longrightarrow> var_at k g \<noteq> None"
  using assms
proof (induction "fst k" arbitrary: k g)
  case Nil
  obtain cs vs as where g: "g = Group cs vs as" by (cases g)
  have "list_all (\<lambda>e. group_ok (snd e)) cs" "distinct (map fst cs)"
    using Nil(3) by (simp_all add: g std_map_ok_def std_keys_def strict_sorted_iff)
  from distinct_variable_keys(2) [OF this] Nil show ?case
    by (cases k) (auto simp: g var_at_simps map_of_eq_None_iff)
next
  case (Cons p ps)
  obtain cs vs as where g: "g = Group cs vs as" by (cases g)
  have dcs: "distinct (map fst cs)" "list_all (\<lambda>e. group_ok (snd e)) cs"
    using Cons.prems(2) by (simp_all add: g std_map_ok_def std_keys_def strict_sorted_iff)
  have "k \<in> set (child_variable_keys cs)" using Cons.prems(1) Cons.hyps(2) by (auto simp: g)
  moreover have "\<exists>c. (p, c) \<in> set cs \<and> (ps, snd k) \<in> set (variable_keys c)" if "k \<in> set (child_variable_keys cs)" for cs
    using that Cons.hyps(2) by (induction cs) (auto, blast+)
  ultimately obtain c where c: "(p, c) \<in> set cs" "(ps, snd k) \<in> set (variable_keys c)" by blast
  then have "group_ok c" "map_of cs p = Some c" using dcs by (auto simp: list_all_iff)
  then have "var_at (ps, snd k) c \<noteq> None" using Cons.hyps(1) [of "(ps, snd k)" c] c(2) by simp
  moreover have "k = (p # ps, snd k)" using Cons.hyps(2) by (cases k) simp
  ultimately show ?case using \<open>map_of cs p = Some c\<close> by (metis g var_at_simps(2) group.sel(1) bind.bind_lunit)
qed

lemma distinct_variable_names:
  assumes "store_inv (g, h)"
  shows "distinct (variable_names '''' g)"
proof -
  have ok: "group_ok g" using assms by (simp add: store_inv_def)
  have "inj_on path_name (set (variable_keys g))"
  proof (rule inj_on_inverseI)
    fix k assume "k \<in> set (variable_keys g)"
    then obtain a where "var_at k g = Some a" using variable_keys_set [OF ok] by blast
    then have "list_all slash_free (fst k)" "slash_free (snd k)" using assms unfolding store_inv_def fst_conv snd_conv by blast+
    then show "resolve (path_name k) = k" using resolve_path_name [of "fst k" "snd k"] by simp
  qed
  then show ?thesis using distinct_variable_keys(1) [OF ok] by (simp add: variable_names_keys distinct_map)
qed

section \<open>What is collected\<close>

text \<open>The layout of an observation file: the dimension scales are the variables of the root group, every other variable
  is in a subgroup, and no two names denote the same variable.\<close>

definition scales_at_root :: "group \<times> heap \<Rightarrow> bool" where
  "scales_at_root s \<longleftrightarrow> (\<forall>n a. var_at (resolve n) (fst s) = Some a \<longrightarrow> (is_scale (snd s ! a) \<longleftrightarrow> slash_free n)) \<and>
     (\<forall>m n a. var_at (resolve m) (fst s) = Some a \<and> var_at (resolve n) (fst s) = Some a \<longrightarrow> m = n)"

definition address :: "group \<Rightarrow> string \<Rightarrow> nat" where
  "address g n = the (var_at (resolve n) g)"

text \<open>The dimension scales attached to a variable, with their names.\<close>

definition attached_scales :: "group \<Rightarrow> obs_variable \<Rightarrow> named_variable list \<Rightarrow> bool" where
  "attached_scales g v ds \<longleftrightarrow> length ds = length (dimensions v) \<and>
     (\<forall>i < length ds. dim_scales v ! i = Some (snd (ds ! i)) \<and> slash_free (fst (ds ! i)) \<and>
        var_at (resolve (fst (ds ! i))) g = Some (snd (ds ! i)))"

definition attached_map :: "group \<Rightarrow> heap \<Rightarrow> string set \<Rightarrow> (string, nat \<times> named_variable list) std_map \<Rightarrow> bool" where
  "attached_map g h N m \<longleftrightarrow> std_map_ok m \<and>
     (\<forall>n. if n \<in> N then \<exists>ds. std_find m n = Some (address g n, ds) \<and> attached_scales g (h ! address g n) ds else std_find m n = None)"

definition largest_size :: "group \<Rightarrow> heap \<Rightarrow> string set \<Rightarrow> nat \<Rightarrow> bool" where
  "largest_size g h N m \<longleftrightarrow>
     (\<forall>n \<in> N. dimensions (h ! address g n) \<noteq> [] \<longrightarrow> dimensions (h ! address g n) ! 0 \<le> m) \<and>
     (m \<noteq> 0 \<longrightarrow> (\<exists>n \<in> N. dimensions (h ! address g n) \<noteq> [] \<and> dimensions (h ! address g n) ! 0 = m))"

definition collected :: "group \<Rightarrow> heap \<Rightarrow> string list \<Rightarrow> var_dim_info \<Rightarrow> bool" where
  "collected g h ns info \<longleftrightarrow>
     varList info = map (\<lambda>n. (n, address g n)) (filter (\<lambda>n. \<not> slash_free n) ns) \<and>
     dimVarList info = map (\<lambda>n. (n, address g n)) (filter slash_free ns) \<and>
     set (dimension_scales info) = set (dimVarList info) \<and>
     attached_map g h {n \<in> set ns. \<not> slash_free n} (dimsAttachedToVars info) \<and> largest_size g h (set ns) (maxVarSize0 info)"

lemma Base_open_name:
  assumes "obs_group_ok (g, h)" "Has_Variables_exists n g"
  shows "Base_open Layout_ObsGroup n g = Inr (address g n)" "var_at (resolve n) g = Some (address g n)" "at_free n"
proof -
  show n: "at_free n" using assms by (simp add: obs_group_ok_def)
  show a: "var_at (resolve n) g = Some (address g n)" using assms(2) by (auto simp: Has_Variables_exists_iff address_def)
  have "doMap Layout_ObsGroup n = n" using convertV1_at_free [OF n] by simp
  then show "Base_open Layout_ObsGroup n g = Inr (address g n)" using a by (simp add: Base_open_def Has_Variables_open_iff)
qed

lemma obs_group_named: "obs_group_ok (g, h) \<Longrightarrow> var_at k g = Some a \<Longrightarrow> dims_agree g h (h ! a) \<and> a < length h"
  unfolding obs_group_ok_def store_inv_def fst_conv snd_conv by blast

lemma largest_size_insert:
  assumes "largest_size g h N m"
  shows "largest_size g h (insert n N) (if dimensions (h ! address g n) \<noteq> [] then max m (dimensions (h ! address g n) ! 0) else m)"
  using assms by (auto simp: largest_size_def max_def)

lemma collect_scale:
  assumes "obs_group_ok (g, h)" "scales_at_root (g, h)" "Has_Variables_exists n g" "slash_free n" "collected g h ns info"
  shows "\<exists>info'. collect_variable Layout_ObsGroup g h n info = Inr info' \<and> collected g h (ns @ [n]) info'"
proof -
  note o = Base_open_name [OF assms(1,3)]
  let ?v = "h ! address g n"
  have scale: "is_scale ?v" using assms(2,4) o(2) by (auto simp: scales_at_root_def)
  have "dims_agree g h ?v" using obs_group_named [OF assms(1) o(2)] ..
  then have dims: "length (dimensions ?v) = 1" using scale by (simp add: dims_agree_def)
  let ?info = "info \<lparr> maxVarSize0 := max (maxVarSize0 info) (dimensions ?v ! 0),
      dimension_scales := (if n \<in> set LocationVarNames then (n, address g n) # dimension_scales info
                               else dimension_scales info @ [(n, address g n)]),
      dimVarList := dimVarList info @ [(n, address g n)] \<rparr>"
  have "collect_variable Layout_ObsGroup g h n info = Inr ?info"
    using o assms(4) scale dims by (simp add: collect_variable_def isPossiblyScale_iff)
  moreover have "collected g h (ns @ [n]) ?info"
  proof -
    have "{m \<in> set (ns @ [n]). \<not> slash_free m} = {m \<in> set ns. \<not> slash_free m}" using assms(4) by auto
    then show ?thesis
      using assms(4,5) dims largest_size_insert [of g h "set ns" "maxVarSize0 info" n] unfolding collected_def
      by (cases "dimensions ?v") simp_all
  qed
  ultimately show ?thesis by blast
qed

lemma attached_scale_found:
  assumes "obs_group_ok (g, h)" "scales_at_root (g, h)" "var_at (resolve n) g = Some a" "\<not> slash_free n"
    "set scales = {(m, address g m) | m. slash_free m \<and> Has_Variables_exists m g}" "i < length (dimensions (h ! a))"
  shows "\<exists>m. filter (\<lambda>s. Variable_isDimensionScaleAttached i (snd s) (h ! a)) scales \<noteq> [] \<and>
    hd (filter (\<lambda>s. Variable_isDimensionScaleAttached i (snd s) (h ! a)) scales) = (m, address g m) \<and> slash_free m \<and>
    dim_scales (h ! a) ! i = Some (address g m) \<and> var_at (resolve m) g = Some (address g m)"
proof -
  have "\<not> is_scale (h ! a)" using assms(2-4) by (auto simp: scales_at_root_def)
  then obtain s where s: "dim_scales (h ! a) ! i = Some s" "scale_at g h s"
    using obs_group_named [OF assms(1,3)] assms(6) by (auto simp: dims_agree_def)
  then obtain m where m: "slash_free m" "var_at ([], m) g = Some s" by (auto simp: scale_at_def)
  then have rm: "resolve m = ([], m)" by (simp add: resolve_simps slash_free_def)
  then have am: "address g m = s" "Has_Variables_exists m g" using m by (simp_all add: address_def Has_Variables_exists_iff)
  let ?f = "filter (\<lambda>s. Variable_isDimensionScaleAttached i (snd s) (h ! a)) scales"
  have set_f: "set ?f = {(m', address g m') | m'. slash_free m' \<and> Has_Variables_exists m' g \<and> address g m' = s}"
    unfolding set_filter assms(5) using s(1) by (auto simp: Variable_isDimensionScaleAttached_def)
  then have "(m, s) \<in> set ?f" using m(1) am by auto
  then have ne: "?f \<noteq> []" by (metis list.set(1) empty_iff)
  then have "hd ?f \<in> set ?f" by (rule hd_in_set)
  then obtain m' where m': "hd ?f = (m', address g m')" "slash_free m'" "Has_Variables_exists m' g" "address g m' = s"
    unfolding set_f by blast
  then have "var_at (resolve m') g = Some (address g m')" by (auto simp: Has_Variables_exists_iff address_def)
  with ne m' s(1) show ?thesis by blast
qed

lemma collect_nonscale:
  assumes "obs_group_ok (g, h)" "scales_at_root (g, h)" "Has_Variables_exists n g" "\<not> slash_free n" "n \<notin> set ns" "collected g h ns info"
    "\<And>m. slash_free m \<Longrightarrow> Has_Variables_exists m g \<longleftrightarrow> m \<in> set ns"
  shows "\<exists>info'. collect_variable Layout_ObsGroup g h n info = Inr info' \<and> collected g h (ns @ [n]) info'"
proof -
  note o = Base_open_name [OF assms(1,3)]
  let ?a = "address g n" and ?sc = "dimension_scales info"
  let ?f = "\<lambda>i. filter (\<lambda>s. Variable_isDimensionScaleAttached i (snd s) (h ! ?a)) ?sc"
  have scales: "set ?sc = {(m, address g m) | m. slash_free m \<and> Has_Variables_exists m g}"
    using assms(6,7) by (auto simp: collected_def)
  have found: "\<exists>m. ?f i \<noteq> [] \<and> hd (?f i) = (m, address g m) \<and> slash_free m \<and>
    dim_scales (h ! ?a) ! i = Some (address g m) \<and> var_at (resolve m) g = Some (address g m)" if "i < length (dimensions (h ! ?a))" for i
    using attached_scale_found [OF assms(1,2) o(2) assms(4) scales that] .
  define ds where "ds = map (\<lambda>i. hd (?f i)) [0..<length (dimensions (h ! ?a))]"
  have att: "attached_scales g (h ! ?a) ds"
    unfolding attached_scales_def
  proof (intro conjI allI impI)
    show "length ds = length (dimensions (h ! ?a))" by (simp add: ds_def)
    fix i assume i: "i < length ds"
    then have "i < length (dimensions (h ! ?a))" by (simp add: ds_def)
    from found [OF this] obtain m where "hd (?f i) = (m, address g m)" "slash_free m"
      "dim_scales (h ! ?a) ! i = Some (address g m)" "var_at (resolve m) g = Some (address g m)" by blast
    with i show "dim_scales (h ! ?a) ! i = Some (snd (ds ! i))" "slash_free (fst (ds ! i))"
      "var_at (resolve (fst (ds ! i))) g = Some (snd (ds ! i))" by (simp_all add: ds_def)
  qed
  have map: "getDimensionScaleMappings ?sc True (h ! ?a) = map (\<lambda>d. [d]) ds"
  proof (rule nth_equalityI)
    fix i assume "i < length (getDimensionScaleMappings ?sc True (h ! ?a))"
    then have i: "i < length (dimensions (h ! ?a))" by (simp add: getDimensionScaleMappings_def)
    then have "?f i \<noteq> []" using found by blast
    then show "getDimensionScaleMappings ?sc True (h ! ?a) ! i = map (\<lambda>d. [d]) ds ! i"
      using i by (cases "?f i") (simp_all add: getDimensionScaleMappings_def ds_def)
  qed (simp add: getDimensionScaleMappings_def ds_def)
  define m where "m = (if dimensions (h ! ?a) \<noteq> [] then max (maxVarSize0 info) (dimensions (h ! ?a) ! 0) else maxVarSize0 info)"
  let ?info = "info \<lparr> maxVarSize0 := m, varList := varList info @ [(n, ?a)],
      dimsAttachedToVars := std_insert n (?a, ds) (dimsAttachedToVars info) \<rparr>"
  have "\<not> is_scale (h ! ?a)" using assms(2,4) o(2) by (auto simp: scales_at_root_def)
  then have "collect_variable Layout_ObsGroup g h n info = Inr ?info"
    using o map by (auto simp: collect_variable_def list_ex_iff m_def comp_def Suc_le_eq Let_def)
  moreover have "attached_map g h {n' \<in> set (ns @ [n]). \<not> slash_free n'} (std_insert n (?a, ds) (dimsAttachedToVars info))"
    using assms(4-6) att by (auto simp: attached_map_def collected_def std_find_insert)
  then have "collected g h (ns @ [n]) ?info"
    using assms(4,6) largest_size_insert [of g h "set ns" "maxVarSize0 info" n] by (simp add: collected_def m_def)
  ultimately show ?thesis by blast
qed

lemma collect_scales:
  assumes "obs_group_ok (g, h)" "scales_at_root (g, h)" "\<forall>n \<in> set ss. slash_free n \<and> Has_Variables_exists n g" "collected g h ns info"
  shows "\<exists>info'. fold_result (collect_variable Layout_ObsGroup g h) ss info = Inr info' \<and> collected g h (ns @ ss) info'"
  using assms(3,4)
proof (induction ss arbitrary: ns info)
  case (Cons n ss)
  then obtain info1 where i: "collect_variable Layout_ObsGroup g h n info = Inr info1" "collected g h (ns @ [n]) info1"
    using collect_scale [OF assms(1,2), of n ns info] by auto
  from Cons.IH [OF _ i(2)] Cons.prems(1) i(1) show ?case by auto
qed simp

lemma collect_nonscales:
  assumes "obs_group_ok (g, h)" "scales_at_root (g, h)" "\<forall>n \<in> set rs. \<not> slash_free n \<and> Has_Variables_exists n g" "collected g h ns info"
    "distinct rs" "set rs \<inter> set ns = {}" "\<And>m. slash_free m \<Longrightarrow> Has_Variables_exists m g \<longleftrightarrow> m \<in> set ns"
  shows "\<exists>info'. fold_result (collect_variable Layout_ObsGroup g h) rs info = Inr info' \<and> collected g h (ns @ rs) info'"
  using assms(3-7)
proof (induction rs arbitrary: ns info)
  case (Cons n rs)
  then obtain info1 where i: "collect_variable Layout_ObsGroup g h n info = Inr info1" "collected g h (ns @ [n]) info1"
    using collect_nonscale [OF assms(1,2), of n ns info] by auto
  have "\<exists>info'. fold_result (collect_variable Layout_ObsGroup g h) rs info1 = Inr info' \<and> collected g h ((ns @ [n]) @ rs) info'"
    using Cons.prems by (intro Cons.IH i) auto
  with i(1) show ?case by auto
qed simp

lemma scales_first_all:
  assumes "\<forall>n \<in> set ns. \<exists>a. Base_open l n g = Inr a \<and> is_scale (h ! a)"
  shows "\<exists>ns'. scales_first l g h ns = Inr ns' \<and> mset ns' = mset ns"
proof -
  let ?step = "\<lambda>vname (scales, nonscales).
         bind_result (Base_open l vname g) (\<lambda>a.
           Inr (if is_scale (h ! a)
                then (if vname \<in> set LocationVarNames then vname # scales else scales @ [vname], nonscales)
                else (scales, nonscales @ [vname])))"
  have "\<exists>sc'. fold_result ?step ns (sc, []) = Inr (sc', []) \<and> mset sc' = mset sc + mset ns" for sc
    using assms
  proof (induction ns arbitrary: sc)
    case (Cons n ns)
    then obtain a where "Base_open l n g = Inr a" "is_scale (h ! a)" by auto
    with Cons.IH [of "n # sc"] Cons.IH [of "sc @ [n]"] Cons.prems show ?case by (cases "n \<in> set LocationVarNames") auto
  qed simp
  from this [of "[]"] show ?thesis by (auto simp: scales_first_def)
qed

lemma root_only:
  assumes "group_ok g" "Group_list g = []" "Has_Variables_exists n g"
  shows "slash_free n"
proof -
  obtain cs vs as where g: "g = Group cs vs as" by (cases g)
  then have "cs = []" using assms(2) by (simp add: Group_list_def std_keys_def)
  obtain ps v where k: "resolve n = (ps, v)" by (cases "resolve n")
  have "ps = []" using assms(3) by (cases ps) (auto simp: Has_Variables_exists_iff k g \<open>cs = []\<close> var_at_simps)
  then have "n = v" using path_name_resolve [of n] by (simp add: k path_name_simps)
  with resolve_slash_free [of n] k show ?thesis by (simp only: snd_conv)
qed

lemma collect_run:
  assumes "obs_group_ok (g, h)" "scales_at_root (g, h)"
  shows "\<exists>info ns. collectVarDimInfo Layout_ObsGroup g h = Inr info \<and> distinct ns \<and> set ns = {n. Has_Variables_exists n g} \<and> collected g h ns info"
proof -
  have inv: "store_inv (g, h)" and ok: "group_ok g" using assms(1) by (simp_all add: obs_group_ok_def store_inv_def)
  let ?ns = "variable_names '''' g"
  note l = listing_names [OF inv]
  have poss: "isPossiblyScale n \<longleftrightarrow> slash_free n" if "n \<in> set ?ns" for n
    using that Base_open_name(3) [OF assms(1)] by (simp add: l(2) isPossiblyScale_iff)
  obtain ss where ss: "preferentialSortVariableNames ?ns = ss @ filter (\<lambda>n. \<not> isPossiblyScale n) ?ns"
    "mset ss = mset (filter isPossiblyScale ?ns)" using preferential_sort_parts by blast
  define rs where "rs = filter (\<lambda>n. \<not> isPossiblyScale n) ?ns"
  have set_ss: "set ss = {n. slash_free n \<and> Has_Variables_exists n g}"
    using mset_eq_setD [OF ss(2)] poss l(2) by auto
  have set_rs: "set rs = {n. \<not> slash_free n \<and> Has_Variables_exists n g}" unfolding rs_def using poss l(2) by auto
  have dist: "distinct ?ns" by (rule distinct_variable_names [OF inv])
  have dss: "distinct ss" "distinct rs"
    using dist ss(2) by (simp_all add: rs_def mset_eq_imp_distinct_iff [OF ss(2)])
  have "\<exists>ss'. (if Group_list g = [] then scales_first Layout_ObsGroup g h (ss @ rs) else Inr (ss @ rs)) = Inr (ss' @ rs) \<and> mset ss' = mset ss"
  proof (cases "Group_list g = []")
    case True
    have "set rs = {}" unfolding set_rs using root_only [OF ok True] by blast
    then have "rs = []" by simp
    moreover have "\<forall>n \<in> set ss. \<exists>a. Base_open Layout_ObsGroup n g = Inr a \<and> is_scale (h ! a)"
    proof
      fix n assume "n \<in> set ss"
      then have n: "slash_free n" "Has_Variables_exists n g" by (simp_all add: set_ss)
      note b = Base_open_name [OF assms(1) n(2)]
      have "is_scale (h ! address g n)" using assms(2) n(1) b(2) by (simp add: scales_at_root_def)
      with b(1) show "\<exists>a. Base_open Layout_ObsGroup n g = Inr a \<and> is_scale (h ! a)" by blast
    qed
    ultimately show ?thesis using True scales_first_all [of ss Layout_ObsGroup g h] by simp
  qed auto
  then obtain ss' where ss': "(if Group_list g = [] then scales_first Layout_ObsGroup g h (ss @ rs) else Inr (ss @ rs)) = Inr (ss' @ rs)"
    "mset ss' = mset ss" by blast
  have set_ss': "set ss' = set ss" "distinct ss'" using mset_eq_setD [OF ss'(2)] mset_eq_imp_distinct_iff [OF ss'(2)] dss(1) by simp_all
  let ?i0 = "\<lparr> varList = [], dimVarList = [], dimsAttachedToVars = [], maxVarSize0 = 0, dimension_scales = [] \<rparr>"
  have "collected g h [] ?i0" by (simp add: collected_def attached_map_def largest_size_def)
  then obtain i1 where i1: "fold_result (collect_variable Layout_ObsGroup g h) ss' ?i0 = Inr i1" "collected g h ss' i1"
    using collect_scales [OF assms, of ss' "[]" ?i0] set_ss' set_ss by auto
  obtain i2 where i2: "fold_result (collect_variable Layout_ObsGroup g h) rs i1 = Inr i2" "collected g h (ss' @ rs) i2"
    using collect_nonscales [OF assms _ i1(2) dss(2)] set_ss' set_ss set_rs by auto
  have "collectVarDimInfo Layout_ObsGroup g h = Inr i2"
    using ss' i1(1) i2(1) by (simp add: collectVarDimInfo_def l(1) ss(1) rs_def [symmetric] fold_result_append)
  moreover have "distinct (ss' @ rs)" "set (ss' @ rs) = {n. Has_Variables_exists n g}"
    using dss(2) set_ss' set_ss set_rs by auto
  ultimately show ?thesis using i2(2) by blast
qed

section \<open>Properties\<close>

text \<open>The preferred order visits every variable once, all names that can be names of dimension scales before the names
  with a slash or an at sign, the latter in their order, and starts with a name of the location dimension exactly when
  there is one.\<close>

lemma preferentialSortVariableNames_order:
  "mset (preferentialSortVariableNames ns) = mset ns \<and>
   (\<exists>ss. preferentialSortVariableNames ns = ss @ filter (\<lambda>n. \<not> isPossiblyScale n) ns) \<and>
   (set (take 1 (preferentialSortVariableNames ns)) \<inter> set LocationVarNames = {} \<longleftrightarrow> set ns \<inter> set LocationVarNames = {})"
proof -
  obtain ss where ss: "preferentialSortVariableNames ns = ss @ filter (\<lambda>n. \<not> isPossiblyScale n) ns"
    "mset ss = mset (filter isPossiblyScale ns)"
    "\<forall>n \<in> set ns. n \<in> set LocationVarNames \<longrightarrow> ss \<noteq> [] \<and> hd ss \<in> set LocationVarNames" using preferential_sort_parts by blast
  have m: "mset (preferentialSortVariableNames ns) = mset ns"
    unfolding ss(1) mset_append ss(2) using multiset_partition [of "mset ns" isPossiblyScale] by (simp add: mset_filter)
  have "set (take 1 (preferentialSortVariableNames ns)) \<inter> set LocationVarNames = {}" if "set ns \<inter> set LocationVarNames = {}"
    using that set_take_subset [of 1 "preferentialSortVariableNames ns"] mset_eq_setD [OF m] by blast
  moreover have "set (take 1 (preferentialSortVariableNames ns)) \<inter> set LocationVarNames \<noteq> {}" if "set ns \<inter> set LocationVarNames \<noteq> {}"
  proof -
    have "ss \<noteq> []" "hd ss \<in> set LocationVarNames" using that ss(3) by auto
    then show ?thesis unfolding ss(1) by (cases ss) auto
  qed
  ultimately show ?thesis using m ss(1) by blast
qed



end
