(* ===== verification/Ioda_Records.thy ===== *)
theory Ioda_Records
  imports Ioda_Replica Ioda_Std "HOL-Library.Multiset"
begin

text \<open>
  The records of an ObsSpace (\<open>ObsSpace.cc\<close>): the map from record numbers to the locations of the record
  (\<open>recidx_\<close>), its construction with and without sorting, its queries, and the companion records that an extended
  ObsSpace gets. The vectors that the code reads from the data store (sort values, values of an extended variable) are
  arguments. Sort values are reals; \<open>util::DateTime\<close> and its difference are parameters.

  The main facts: sorting gives, record by record, the stable sort of the locations by their values (with the three
  treatments of missing values), and the extension adds for each record of the rank a companion record with its own
  locations, whose global indices are new.
\<close>

section \<open>Sorting and maps of vectors\<close>

text \<open>\<open>std::sort\<close> with a comparison. The sorted permutation is unique when the comparison is a strict total order on
  the elements, as it is in all uses here.\<close>

fun insert_by :: "('a \<Rightarrow> 'a \<Rightarrow> bool) \<Rightarrow> 'a \<Rightarrow> 'a list \<Rightarrow> 'a list" where
  "insert_by cmp x [] = [x]"
| "insert_by cmp x (y # ys) = (if cmp x y then x # y # ys else y # insert_by cmp x ys)"

definition std_sort :: "('a \<Rightarrow> 'a \<Rightarrow> bool) \<Rightarrow> 'a list \<Rightarrow> 'a list" where
  "std_sort cmp xs = foldr (insert_by cmp) xs []"

text \<open>\<open>m[k]\<close> and \<open>m[k].push_back(x)\<close>.\<close>

definition std_at :: "'k \<Rightarrow> 'v \<Rightarrow> ('k, 'v) std_map \<Rightarrow> 'v" where
  "std_at k initial m = (case std_find m k of Some v \<Rightarrow> v | None \<Rightarrow> initial)"

definition std_push :: "'k :: linorder \<Rightarrow> 'a \<Rightarrow> ('k, 'a list) std_map \<Rightarrow> ('k, 'a list) std_map" where
  "std_push k x m = std_assign k (std_at k [] m @ [x]) m"

section \<open>The record index\<close>

type_synonym rec_idx_map = "(nat, nat list) std_map"

definition recidx_has :: "rec_idx_map \<Rightarrow> nat \<Rightarrow> bool" where
  "recidx_has recidx recNum \<longleftrightarrow> std_find recidx recNum \<noteq> None"

definition recidx_vector :: "rec_idx_map \<Rightarrow> nat \<Rightarrow> nat list result" where
  "recidx_vector recidx recNum =
     (case std_find recidx recNum of
        None \<Rightarrow> Inl (Exception (''ObsSpace::recidx_vector: Record number, '' @ to_string (int recNum) @ '', does not exist in record index map.''))
      | Some locs \<Rightarrow> Inr locs)"

definition recidx_all_recnums :: "nat \<Rightarrow> rec_idx_map \<Rightarrow> nat list" where
  "recidx_all_recnums nrecs recidx =
     fst (fold (\<lambda>irec (RecNums, recnum). (RecNums[recnum := fst irec], recnum + 1)) recidx (replicate nrecs 0, 0))"

definition buildRecIdxUnsorted :: "nat \<Rightarrow> nat list \<Rightarrow> rec_idx_map \<Rightarrow> rec_idx_map" where
  "buildRecIdxUnsorted nLocs recnums recidx = fold (\<lambda>iloc. std_push (recnums ! iloc) iloc) [0..<nLocs] recidx"

section \<open>Sorted records\<close>

datatype MissingSortValueTreatment = SORT | NO_SORT | IGNORE_MISSING

text \<open>The sort values: seconds since the first location, or the values of a variable of type float.\<close>

definition date_sort_values :: "('t \<Rightarrow> 't \<Rightarrow> real) \<Rightarrow> 't \<Rightarrow> 't list \<Rightarrow> real list \<times> bool list" where
  "date_sort_values toSeconds missingDateTime Dates =
     (map (\<lambda>iloc. toSeconds (Dates ! iloc) (Dates ! 0)) [0..<length Dates], map (\<lambda>d. d = missingDateTime) Dates)"

definition float_sort_values :: "real \<Rightarrow> real list \<Rightarrow> real list \<times> bool list" where
  "float_sort_values missingFloat SortValues = (SortValues, map (\<lambda>v. v = missingFloat) SortValues)"

record tmp_records =
  TmpRecIdx :: "(nat, (real \<times> nat) list) std_map"
  TmpRecIdx_missing :: rec_idx_map
  sortValueMissingInRecord :: "(nat, bool list) std_map"
  recordContainsAtLeastOneMissingSortValue :: "(nat, bool) std_map"

definition tmp_location ::
    "MissingSortValueTreatment \<Rightarrow> nat list \<Rightarrow> real list \<Rightarrow> bool list \<Rightarrow> nat \<Rightarrow> tmp_records \<Rightarrow> tmp_records" where
  "tmp_location treatment recnums SortValues sortValueMissing iloc t =
     (let recnum = recnums ! iloc;
          pushed = t \<lparr> TmpRecIdx := std_push recnum (SortValues ! iloc, iloc) (TmpRecIdx t) \<rparr>
      in case treatment of
           SORT \<Rightarrow> pushed
         | NO_SORT \<Rightarrow>
             (if sortValueMissing ! iloc
              then pushed \<lparr> recordContainsAtLeastOneMissingSortValue :=
                     std_assign recnum True (recordContainsAtLeastOneMissingSortValue t) \<rparr>
              else pushed)
         | IGNORE_MISSING \<Rightarrow>
             (if sortValueMissing ! iloc
              then t \<lparr> TmpRecIdx_missing := std_push recnum iloc (TmpRecIdx_missing t),
                       sortValueMissingInRecord := std_push recnum True (sortValueMissingInRecord t) \<rparr>
              else pushed \<lparr> sortValueMissingInRecord := std_push recnum False (sortValueMissingInRecord t) \<rparr>))"

definition pair_less :: "real \<times> nat \<Rightarrow> real \<times> nat \<Rightarrow> bool" where
  "pair_less p1 p2 \<longleftrightarrow> fst p1 < fst p2 \<or> (\<not> fst p2 < fst p1 \<and> snd p1 < snd p2)"

definition pair_descending :: "real \<times> nat \<Rightarrow> real \<times> nat \<Rightarrow> bool" where
  "pair_descending p1 p2 \<longleftrightarrow> fst p2 < fst p1 \<or> (\<not> fst p1 < fst p2 \<and> snd p2 > snd p1)"

definition sort_records :: "MissingSortValueTreatment \<Rightarrow> string \<Rightarrow> tmp_records \<Rightarrow> (nat, (real \<times> nat) list) std_map" where
  "sort_records treatment order t =
     map (\<lambda>(recnum, locs).
         (recnum, if treatment = NO_SORT \<and> std_at recnum False (recordContainsAtLeastOneMissingSortValue t) then locs
                  else if order = ''ascending'' then std_sort pair_less locs else std_sort pair_descending locs))
       (TmpRecIdx t)"

definition merge_missing :: "nat list \<Rightarrow> nat list \<Rightarrow> bool list \<Rightarrow> nat list \<Rightarrow> nat list" where
  "merge_missing locations_present locations_missing missingInThisRecord v =
     fst (fold (\<lambda>iloc (v, count_present, count_missing).
           if missingInThisRecord ! iloc then (v[iloc := locations_missing ! count_missing], count_present, count_missing + 1)
           else (v[iloc := locations_present ! count_present], count_present + 1, count_missing))
         [0..<length missingInThisRecord] (vec_resize (length missingInThisRecord) 0 v, 0, 0))"

definition copy_record :: "MissingSortValueTreatment \<Rightarrow> tmp_records \<Rightarrow> nat \<times> (real \<times> nat) list \<Rightarrow> rec_idx_map \<Rightarrow> rec_idx_map" where
  "copy_record treatment t irec recidx =
     (let (recnum, locs) = irec; v = vec_resize (length locs) 0 (std_at recnum [] recidx)
      in std_assign recnum
        (case treatment of
           IGNORE_MISSING \<Rightarrow>
             merge_missing (map snd locs) (std_at recnum [] (TmpRecIdx_missing t)) (std_at recnum [] (sortValueMissingInRecord t)) v
         | _ \<Rightarrow> fold (\<lambda>iloc v. v[iloc := snd (locs ! iloc)]) [0..<length locs] v) recidx)"

definition buildSortedObsGroups ::
    "MissingSortValueTreatment \<Rightarrow> string \<Rightarrow> nat \<Rightarrow> nat list \<Rightarrow> real list \<times> bool list \<Rightarrow> rec_idx_map \<Rightarrow> rec_idx_map" where
  "buildSortedObsGroups treatment order nLocs recnums values recidx =
     (let (SortValues, sortValueMissing) = values;
          t = fold (tmp_location treatment recnums SortValues sortValueMissing) [0..<nLocs]
                \<lparr> TmpRecIdx = [], TmpRecIdx_missing = [], sortValueMissingInRecord = [], recordContainsAtLeastOneMissingSortValue = [] \<rparr>
      in fold (copy_record treatment t) (sort_records treatment order t) recidx)"

section \<open>Maps of vectors built by a loop\<close>

definition nonempty_list :: "'a list \<Rightarrow> 'a list option" where
  "nonempty_list xs = (if xs = [] then None else Some xs)"

lemma nonempty_list_simps [simp]:
  "nonempty_list [] = None" "nonempty_list (x # xs) = Some (x # xs)" "nonempty_list (xs @ [x]) = Some (xs @ [x])"
  by (simp_all add: nonempty_list_def)

lemma std_map_ok_push [simp]: "std_map_ok m \<Longrightarrow> std_map_ok (std_push k x m)"
  by (simp add: std_push_def)

lemma std_find_push: "std_map_ok m \<Longrightarrow> std_find (std_push k x m) r = (if r = k then Some (std_at k [] m @ [x]) else std_find m r)"
  by (simp add: std_push_def std_find_assign)

lemma std_at_nonempty: "std_find m k = nonempty_list xs \<Longrightarrow> std_at k [] m = xs"
  by (simp add: std_at_def nonempty_list_def split: if_splits)

lemma push_loop:
  "std_map_ok (fold (\<lambda>i m. if P i then std_push (k i) (x i) m else m) is []) \<and>
   std_find (fold (\<lambda>i m. if P i then std_push (k i) (x i) m else m) is []) r
     = nonempty_list (map x (filter (\<lambda>i. P i \<and> k i = r) is))"
proof (induction "is" arbitrary: r rule: rev_induct)
  case (snoc i "is")
  let ?m = "fold (\<lambda>i m. if P i then std_push (k i) (x i) m else m) is []"
  have "std_at (k i) [] ?m = map x (filter (\<lambda>j. P j \<and> k j = k i) is)"
    using snoc [of "k i"] by (intro std_at_nonempty) simp
  then show ?case using snoc by (simp add: std_find_push)
qed simp

text \<open>The locations of a record, in their order.\<close>

definition record_locs :: "nat list \<Rightarrow> nat \<Rightarrow> nat \<Rightarrow> nat list" where
  "record_locs recnums n r = filter (\<lambda>i. recnums ! i = r) [0..<n]"

lemma buildRecIdxUnsorted_find:
  "std_map_ok (buildRecIdxUnsorted n recnums [])"
  "std_find (buildRecIdxUnsorted n recnums []) r = nonempty_list (record_locs recnums n r)"
  using push_loop [of "\<lambda>_. True" "(!) recnums" "\<lambda>i. i" "[0..<n]" r] by (simp_all add: buildRecIdxUnsorted_def record_locs_def)

section \<open>The comparison sorts stably\<close>

lemma insert_by_pairs:
  assumes "\<And>i. i \<in> set is \<Longrightarrow> cmp (g x) (g i) \<longleftrightarrow> (f x :: real) \<le> f i"
  shows "insert_by cmp (g x) (map g is) = map g (insort_key f x is)"
  using assms by (induction "is") auto

lemma std_sort_stable:
  assumes "\<And>i j. i < j \<Longrightarrow> cmp (g i) (g j) \<longleftrightarrow> (f i :: real) \<le> f j" "sorted_wrt (<) is"
  shows "std_sort cmp (map g is) = map g (sort_key f is)"
  using assms(2)
proof (induction "is")
  case (Cons i "is")
  have "insert_by cmp (g i) (map g (sort_key f is)) = map g (insort_key f i (sort_key f is))"
    using Cons.prems assms(1) by (intro insert_by_pairs) simp
  then show ?case using Cons by (simp add: std_sort_def)
qed (simp add: std_sort_def)

definition sorted_locs :: "string \<Rightarrow> real list \<Rightarrow> nat list \<Rightarrow> nat list" where
  "sorted_locs order vals ls = sort_key (\<lambda>i. if order = ''ascending'' then vals ! i else - vals ! i) ls"

lemma sorted_locs_facts [simp]:
  "sorted_locs order vals ls = [] \<longleftrightarrow> ls = []" "mset (sorted_locs order vals ls) = mset ls" "length (sorted_locs order vals ls) = length ls"
proof -
  show "length (sorted_locs order vals ls) = length ls" "mset (sorted_locs order vals ls) = mset ls" by (simp_all add: sorted_locs_def)
  then show "sorted_locs order vals ls = [] \<longleftrightarrow> ls = []" by (metis length_0_conv)
qed

lemma sorted_pairs:
  assumes "sorted_wrt (<) ls"
  shows "(if order = ''ascending'' then std_sort pair_less (map (\<lambda>i. (vals ! i, i)) ls) else std_sort pair_descending (map (\<lambda>i. (vals ! i, i)) ls))
    = map (\<lambda>i. (vals ! i, i)) (sorted_locs order vals ls)"
proof (cases "order = ''ascending''")
  case True
  then show ?thesis
    using std_sort_stable [of pair_less "\<lambda>i. (vals ! i, i)" "\<lambda>i. vals ! i", OF _ assms] by (simp add: sorted_locs_def pair_less_def not_less le_less)
next
  case False
  have "pair_descending (vals ! i, i) (vals ! j, j) \<longleftrightarrow> - vals ! i \<le> - vals ! j" if "i < j" for i j :: nat
    using that by (auto simp: pair_descending_def)
  then show ?thesis
    using std_sort_stable [of pair_descending "\<lambda>i. (vals ! i, i)" "\<lambda>i. - vals ! i", OF _ assms] False by (simp add: sorted_locs_def)
qed

section \<open>The temporary maps\<close>

abbreviation no_records :: tmp_records where
  "no_records \<equiv> \<lparr> TmpRecIdx = [], TmpRecIdx_missing = [], sortValueMissingInRecord = [], recordContainsAtLeastOneMissingSortValue = [] \<rparr>"

lemma tmp_location_maps:
  fixes treatment recnums vals miss
  defines "step \<equiv> tmp_location treatment recnums vals miss"
  shows "TmpRecIdx (fold step js t) = fold (\<lambda>i m. if \<not> (treatment = IGNORE_MISSING \<and> miss ! i) then std_push (recnums ! i) (vals ! i, i) m else m) js (TmpRecIdx t)"
    "TmpRecIdx_missing (fold step js t) = fold (\<lambda>i m. if treatment = IGNORE_MISSING \<and> miss ! i then std_push (recnums ! i) i m else m) js (TmpRecIdx_missing t)"
    "sortValueMissingInRecord (fold step js t) = fold (\<lambda>i m. if treatment = IGNORE_MISSING then std_push (recnums ! i) (miss ! i) m else m) js (sortValueMissingInRecord t)"
    "recordContainsAtLeastOneMissingSortValue (fold step js t)
      = fold (\<lambda>i m. if treatment = NO_SORT \<and> miss ! i then std_assign (recnums ! i) True m else m) js (recordContainsAtLeastOneMissingSortValue t)"
proof -
  have one: "TmpRecIdx (step i t) = (if \<not> (treatment = IGNORE_MISSING \<and> miss ! i) then std_push (recnums ! i) (vals ! i, i) (TmpRecIdx t) else TmpRecIdx t)"
    "TmpRecIdx_missing (step i t) = (if treatment = IGNORE_MISSING \<and> miss ! i then std_push (recnums ! i) i (TmpRecIdx_missing t) else TmpRecIdx_missing t)"
    "sortValueMissingInRecord (step i t) = (if treatment = IGNORE_MISSING then std_push (recnums ! i) (miss ! i) (sortValueMissingInRecord t) else sortValueMissingInRecord t)"
    "recordContainsAtLeastOneMissingSortValue (step i t)
      = (if treatment = NO_SORT \<and> miss ! i then std_assign (recnums ! i) True (recordContainsAtLeastOneMissingSortValue t) else recordContainsAtLeastOneMissingSortValue t)"
    for i t
    unfolding step_def tmp_location_def Let_def by (cases treatment; cases "miss ! i"; simp)+
  show "TmpRecIdx (fold step js t) = fold (\<lambda>i m. if \<not> (treatment = IGNORE_MISSING \<and> miss ! i) then std_push (recnums ! i) (vals ! i, i) m else m) js (TmpRecIdx t)"
    by (induction "js" arbitrary: t) (simp_all only: fold_simps one)
  show "TmpRecIdx_missing (fold step js t) = fold (\<lambda>i m. if treatment = IGNORE_MISSING \<and> miss ! i then std_push (recnums ! i) i m else m) js (TmpRecIdx_missing t)"
    by (induction "js" arbitrary: t) (simp_all only: fold_simps one)
  show "sortValueMissingInRecord (fold step js t) = fold (\<lambda>i m. if treatment = IGNORE_MISSING then std_push (recnums ! i) (miss ! i) m else m) js (sortValueMissingInRecord t)"
    by (induction "js" arbitrary: t) (simp_all only: fold_simps one)
  show "recordContainsAtLeastOneMissingSortValue (fold step js t)
      = fold (\<lambda>i m. if treatment = NO_SORT \<and> miss ! i then std_assign (recnums ! i) True m else m) js (recordContainsAtLeastOneMissingSortValue t)"
    by (induction "js" arbitrary: t) (simp_all only: fold_simps one)
qed

lemma assign_loop:
  "std_map_ok m \<Longrightarrow>
   std_find (fold (\<lambda>i m. if P i then std_assign (k i) True m else m) is m) r = (if \<exists>i \<in> set is. P i \<and> k i = r then Some True else std_find m r)"
proof (induction "is" arbitrary: m)
  case (Cons i "is")
  show ?case
  proof (cases "P i")
    case True
    have "std_find (fold (\<lambda>i m. if P i then std_assign (k i) True m else m) is (std_assign (k i) True m)) r
        = (if \<exists>i \<in> set is. P i \<and> k i = r then Some True else if r = k i then Some True else std_find m r)"
      unfolding Cons.IH [OF std_map_ok_assign [OF Cons.prems]] std_find_assign [OF Cons.prems] ..
    then show ?thesis using True by (cases "r = k i") auto
  next
    case False
    then show ?thesis using Cons.IH [OF Cons.prems] by simp
  qed
qed simp


section \<open>Copying the records\<close>

lemma fold_list_update:
  assumes "length v = n"
  shows "fold (\<lambda>i v. v[i := f i]) [0..<n] v = map f [0..<n]"
proof -
  have "fold (\<lambda>i v. v[i := f i]) [0..<k] v = map f [0..<k] @ drop k v" if "k \<le> n" for k
    using that
  proof (induction k)
    case (Suc k)
    then show ?case using assms by (simp add: list_update_append Cons_nth_drop_Suc [symmetric])
  qed simp
  from this [of n] show ?thesis using assms by simp
qed

text \<open>The locations with a missing value keep their places; the others take the remaining places in sorted order.\<close>

definition place_sorted :: "(nat \<Rightarrow> bool) \<Rightarrow> nat list \<Rightarrow> nat list \<Rightarrow> nat list" where
  "place_sorted missing present ls =
     map (\<lambda>j. if missing (ls ! j) then ls ! j else present ! length (filter (\<lambda>i. \<not> missing i) (take j ls))) [0..<length ls]"

lemma nth_filter_take:
  "j < length xs \<Longrightarrow> P (xs ! j) \<Longrightarrow> filter P xs ! length (filter P (take j xs)) = xs ! j"
proof (induction xs arbitrary: j)
  case (Cons x xs)
  then show ?case by (cases j) auto
qed simp

lemma merge_missing_eq:
  "merge_missing present (filter missing ls) (map missing ls) v = place_sorted missing present ls"
proof -
  let ?step = "\<lambda>iloc (v, count_present, count_missing).
      if map missing ls ! iloc then (v[iloc := filter missing ls ! count_missing], count_present, count_missing + 1)
      else (v[iloc := present ! count_present], count_present + 1, count_missing)"
  let ?out = "\<lambda>j. if missing (ls ! j) then ls ! j else present ! length (filter (\<lambda>i. \<not> missing i) (take j ls))"
  let ?v = "vec_resize (length ls) 0 v"
  have "fold ?step [0..<n] (?v, 0, 0) = (map ?out [0..<n] @ drop n ?v, length (filter (\<lambda>i. \<not> missing i) (take n ls)), length (filter missing (take n ls)))"
    if "n \<le> length ls" for n
    using that
  proof (induction n)
    case (Suc n)
    have up: "(map ?out [0..<n] @ drop n ?v)[n := y] = map ?out [0..<n] @ y # drop (Suc n) ?v" for y
      using Suc.prems by (simp add: list_update_append Cons_nth_drop_Suc [symmetric])
    have t: "take (Suc n) ls = take n ls @ [ls ! n]" using Suc.prems by (simp add: take_Suc_conv_app_nth)
    show ?case
    proof (cases "missing (ls ! n)")
      case True
      then have "filter missing ls ! length (filter missing (take n ls)) = ls ! n" using Suc.prems by (intro nth_filter_take) simp_all
      then show ?thesis using True Suc up by (simp add: t)
    next
      case False
      then show ?thesis using Suc up by (simp add: t)
    qed
  qed simp
  from this [of "length ls"] show ?thesis by (simp add: merge_missing_def place_sorted_def)
qed

lemma assign_entries:
  assumes "std_map_ok m" "std_map_ok es"
  shows "std_map_ok (fold (\<lambda>e. std_assign (fst e) (g e)) es m) \<and>
    std_find (fold (\<lambda>e. std_assign (fst e) (g e)) es m) r = (case std_find es r of Some x \<Rightarrow> Some (g (r, x)) | None \<Rightarrow> std_find m r)"
  using assms
proof (induction es arbitrary: m)
  case (Cons e es)
  have ok: "std_map_ok es" "fst e \<notin> fst ` set es" using Cons.prems(2) by (auto simp: std_map_ok_def std_keys_def)
  then have "std_find es (fst e) = None" by (simp add: map_of_eq_None_iff)
  with Cons.IH [of "std_assign (fst e) (g e) m"] ok(1) Cons.prems(1) show ?case
    by (cases e) (auto simp: std_find_assign split: option.split)
qed simp

lemma copy_record_eq:
  "copy_record treatment t e m = std_assign (fst e)
     (case treatment of
        IGNORE_MISSING \<Rightarrow> merge_missing (map snd (snd e)) (std_at (fst e) [] (TmpRecIdx_missing t)) (std_at (fst e) [] (sortValueMissingInRecord t))
          (vec_resize (length (snd e)) 0 (std_at (fst e) [] m))
      | _ \<Rightarrow> map snd (snd e)) m"
proof -
  have "map (\<lambda>i. snd (locs ! i)) [0..<length locs] = map snd locs" for locs :: "(real \<times> nat) list"
    by (rule nth_equalityI) simp_all
  then show ?thesis
    by (cases e; cases treatment) (simp_all add: copy_record_def Let_def fold_list_update)
qed

lemma std_find_map_values: "std_find (map (\<lambda>(k, x). (k, h k x)) m) r = map_option (h r) (std_find m r)"
  by (induction m) auto

lemma std_map_ok_map_values: "std_map_ok m \<Longrightarrow> std_map_ok (map (\<lambda>(k, x). (k, h k x)) m)"
  by (simp add: std_map_ok_def std_keys_def comp_def split_def)

section \<open>The sorted record index\<close>

definition sorted_record :: "MissingSortValueTreatment \<Rightarrow> string \<Rightarrow> real list \<Rightarrow> (nat \<Rightarrow> bool) \<Rightarrow> nat list \<Rightarrow> nat list option" where
  "sorted_record treatment order vals missing ls =
     (case treatment of
        SORT \<Rightarrow> nonempty_list (sorted_locs order vals ls)
      | NO_SORT \<Rightarrow> nonempty_list (if list_ex missing ls then ls else sorted_locs order vals ls)
      | IGNORE_MISSING \<Rightarrow>
          (if list_all missing ls then None
           else Some (place_sorted missing (sorted_locs order vals (filter (\<lambda>i. \<not> missing i) ls)) ls)))"


lemma buildSortedObsGroups_find:
  "std_map_ok (buildSortedObsGroups treatment order n recnums (vals, miss) []) \<and>
   std_find (buildSortedObsGroups treatment order n recnums (vals, miss) []) r
     = sorted_record treatment order vals ((!) miss) (record_locs recnums n r)"
proof -
  define t where "t = fold (tmp_location treatment recnums vals miss) [0..<n] no_records"
  let ?ign = "treatment = IGNORE_MISSING" and ?ls = "record_locs recnums n" and ?pair = "\<lambda>i. (vals ! i, i)"
  let ?kept = "\<lambda>k. filter (\<lambda>i. \<not> (?ign \<and> miss ! i)) (?ls k)"
  note maps = tmp_location_maps [where treatment = treatment and recnums = recnums and vals = vals and miss = miss
      and js = "[0..<n]" and t = no_records, folded t_def, unfolded tmp_records.simps]
  have filt: "filter (\<lambda>i. Q i \<and> recnums ! i = k) [0..<n] = filter Q (?ls k)" for Q k
    by (simp add: record_locs_def conj_commute)
  have T: "std_map_ok (TmpRecIdx t)" "std_find (TmpRecIdx t) k = nonempty_list (map ?pair (?kept k))" for k
    unfolding maps(1) using push_loop [of "\<lambda>i. \<not> (?ign \<and> miss ! i)" "(!) recnums" ?pair "[0..<n]" k, unfolded filt]
    by (blast, blast)
  have M: "std_at k [] (TmpRecIdx_missing t) = filter ((!) miss) (?ls k)" if ?ign for k
    unfolding maps(2) using push_loop [of "\<lambda>i. ?ign \<and> miss ! i" "(!) recnums" "\<lambda>i. i" "[0..<n]" k, unfolded filt] that
    by (intro std_at_nonempty) simp
  have F: "std_at k [] (sortValueMissingInRecord t) = map ((!) miss) (?ls k)" if ?ign for k
    unfolding maps(3) using push_loop [of "\<lambda>i. ?ign" "(!) recnums" "(!) miss" "[0..<n]" k, unfolded filt] that
    by (intro std_at_nonempty) simp
  have C: "std_at k False (recordContainsAtLeastOneMissingSortValue t) = list_ex ((!) miss) (?ls k)" if "treatment = NO_SORT" for k
    unfolding maps(4) std_at_def assign_loop [OF std_map_ok_Nil] using that by (auto simp: list_ex_iff record_locs_def)
  define h where "h k xs = (if treatment = NO_SORT \<and> list_ex ((!) miss) (?ls k) then xs
    else if order = ''ascending'' then std_sort pair_less xs else std_sort pair_descending xs)" for k xs
  have es: "sort_records treatment order t = map (\<lambda>(k, xs). (k, h k xs)) (TmpRecIdx t)"
    unfolding sort_records_def h_def using C by (intro map_cong) auto
  define g where "g e = (case treatment of IGNORE_MISSING \<Rightarrow> place_sorted ((!) miss) (map snd (snd e)) (?ls (fst e)) | _ \<Rightarrow> map snd (snd e))"
    for e :: "nat \<times> (real \<times> nat) list"
  have "copy_record treatment t e m = std_assign (fst e) (g e) m" for e m
    unfolding copy_record_eq g_def using M F by (cases treatment) (simp_all add: merge_missing_eq)
  then have run: "buildSortedObsGroups treatment order n recnums (vals, miss) []
      = fold (\<lambda>e. std_assign (fst e) (g e)) (map (\<lambda>(k, xs). (k, h k xs)) (TmpRecIdx t)) []"
    unfolding buildSortedObsGroups_def Let_def split t_def [symmetric] es by presburger
  have srt: "sorted_wrt (<) (?kept r)" by (simp add: record_locs_def sorted_wrt_filter)
  have h: "map snd (h r (map ?pair (?kept r))) = (if treatment = NO_SORT \<and> list_ex ((!) miss) (?ls r) then ?kept r else sorted_locs order vals (?kept r))"
    unfolding h_def sorted_pairs [OF srt] by (simp add: comp_def)
  have "std_find (buildSortedObsGroups treatment order n recnums (vals, miss) []) r
      = map_option (\<lambda>xs. g (r, h r xs)) (nonempty_list (map ?pair (?kept r)))"
    unfolding run using assign_entries [OF std_map_ok_Nil std_map_ok_map_values [OF T(1)], of g h r]
    by (simp add: std_find_map_values T(2) split: option.split)
  also have "\<dots> = sorted_record treatment order vals ((!) miss) (?ls r)"
  proof (cases treatment)
    case IGNORE_MISSING
    have k: "?kept r = [] \<longleftrightarrow> list_all ((!) miss) (?ls r)" using IGNORE_MISSING by (auto simp: filter_empty_conv list_all_iff)
    show ?thesis using h IGNORE_MISSING k by (simp add: nonempty_list_def g_def sorted_record_def)
  qed (use h in \<open>simp_all add: nonempty_list_def g_def sorted_record_def\<close>)
  finally show ?thesis unfolding run using assign_entries [OF std_map_ok_Nil std_map_ok_map_values [OF T(1)], of g h] by blast
qed


text \<open>Every location of a record that is in the index is in it once.\<close>

lemma place_sorted_mset:
  "length (filter (\<lambda>i. \<not> missing i) ls) \<le> length ps \<Longrightarrow>
   mset (place_sorted missing ps ls) = mset (filter missing ls) + mset (take (length (filter (\<lambda>i. \<not> missing i) ls)) ps)"
proof (induction ls rule: rev_induct)
  case (snoc l ls)
  have "place_sorted missing ps (ls @ [l])
      = place_sorted missing ps ls @ [if missing l then l else ps ! length (filter (\<lambda>i. \<not> missing i) ls)]"
    by (simp add: place_sorted_def nth_append)
  then show ?case using snoc by (cases "missing l") (simp_all add: take_Suc_conv_app_nth)
qed (simp add: place_sorted_def)

lemma sorted_record_mset:
  assumes "sorted_record treatment order vals missing ls = Some xs"
  shows "mset xs = mset ls"
proof (cases treatment)
  case IGNORE_MISSING
  let ?present = "filter (\<lambda>i. \<not> missing i) ls"
  have "mset xs = mset (filter missing ls) + mset (take (length ?present) (sorted_locs order vals ?present))"
    using assms IGNORE_MISSING place_sorted_mset [of missing ls "sorted_locs order vals ?present"]
    by (simp add: sorted_record_def split: if_splits)
  also have "\<dots> = mset (filter missing ls) + mset ?present" by simp
  also have "\<dots> = mset ls" using multiset_partition [of "mset ls" missing] by (simp add: mset_filter)
  finally show ?thesis .
qed (use assms in \<open>auto simp: sorted_record_def nonempty_list_def split: if_splits\<close>)

text \<open>The index and the record numbers agree: the vector of a record has exactly its locations, each once.\<close>

definition recidx_ok :: "nat list \<Rightarrow> rec_idx_map \<Rightarrow> bool" where
  "recidx_ok recnums recidx \<longleftrightarrow> std_map_ok recidx \<and>
     (\<forall>r xs. std_find recidx r = Some xs \<longrightarrow> mset xs = mset (record_locs recnums (length recnums) r))"

lemma recidx_ok_sorted: "recidx_ok recnums (buildSortedObsGroups treatment order (length recnums) recnums values [])"
  using buildSortedObsGroups_find [of treatment order "length recnums" recnums "fst values" "snd values"] sorted_record_mset
  unfolding recidx_ok_def prod.collapse by metis

lemma recidx_ok_unsorted: "recidx_ok recnums (buildRecIdxUnsorted (length recnums) recnums [])"
  by (auto simp: recidx_ok_def buildRecIdxUnsorted_find nonempty_list_def split: if_splits)

lemma recidx_all_recnums_eq:
  assumes "length recidx = n"
  shows "recidx_all_recnums n recidx = std_keys recidx"
proof -
  have "fold (\<lambda>irec (v, k). (v[k := fst irec], k + 1)) es (ys @ replicate (length es) 0, length ys) = (ys @ map fst es, length ys + length es)"
    for es :: rec_idx_map and ys
  proof (induction es arbitrary: ys)
    case (Cons e es)
    from Cons [of "ys @ [fst e]"] show ?case by (simp add: list_update_append)
  qed simp
  from this [of recidx "[]"] show ?thesis using assms by (simp add: recidx_all_recnums_def std_keys_def)
qed


section \<open>Companion records of an extended ObsSpace\<close>

text \<open>The members of an ObsSpace that \<open>extendObsSpace\<close> changes before it resizes the variables, on one rank. The replica
  distribution is a state \<open>'d\<close> with its two operations; \<open>master\<close> is \<open>isMyRecord\<close> of the distribution of the ObsSpace,
  \<open>origin\<close> the default point.\<close>

record obs_records =
  os_indx :: "nat list"
  os_recnums :: "nat list"
  os_recidx :: rec_idx_map
  os_nrecs :: nat

definition uniqueOriginalRecs :: "obs_records \<Rightarrow> nat list" where
  "uniqueOriginalRecs s = sort (remdups (os_recnums s))"

definition local_upper_bounds :: "nat \<Rightarrow> obs_records \<Rightarrow> nat \<times> nat" where
  "local_upper_bounds numOriginalLocs s =
     (if numOriginalLocs > 0 then (last (os_indx s) + 1, last (uniqueOriginalRecs s) + 1) else (0, 0))"

definition companion_level ::
    "(assign_call \<Rightarrow> 'd \<Rightarrow> 'd result) \<Rightarrow> ('d \<Rightarrow> nat \<Rightarrow> bool) \<Rightarrow> point2 \<Rightarrow> nat \<Rightarrow> nat \<Rightarrow> nat \<Rightarrow> nat \<Rightarrow> nat \<Rightarrow> nat \<Rightarrow>
     nat \<times> 'd \<times> obs_records \<Rightarrow> (nat \<times> 'd \<times> obs_records) result" where
  "companion_level assign isMy origin nlevs upperLocs upperRecs numOriginalLocs originalRec ilev acc =
     (let (companionLoc, d, s) = acc;
          companionRec = originalRec;
          extendedRec = upperRecs + companionRec;
          extendedLoc = numOriginalLocs + companionLoc;
          globalCompanionLoc = originalRec * nlevs + ilev;
          globalExtendedLoc = upperLocs + globalCompanionLoc
      in bind_result (assign (companionRec, globalCompanionLoc, origin) d) (\<lambda>d.
         if \<not> isMy d companionRec then Inl AssertionFailed
         else Inr (companionLoc + 1, d, s \<lparr> os_recnums := os_recnums s @ [extendedRec], os_indx := os_indx s @ [globalExtendedLoc],
                os_recidx := std_push extendedRec extendedLoc (os_recidx s) \<rparr>)))"

definition companion_record ::
    "(assign_call \<Rightarrow> 'd \<Rightarrow> 'd result) \<Rightarrow> ('d \<Rightarrow> nat \<Rightarrow> bool) \<Rightarrow> point2 \<Rightarrow> (nat \<Rightarrow> bool) \<Rightarrow> nat \<Rightarrow> nat \<Rightarrow> nat \<Rightarrow> nat \<Rightarrow> nat \<Rightarrow>
     nat \<times> 'd \<times> obs_records \<Rightarrow> (nat \<times> 'd \<times> obs_records) result" where
  "companion_record assign isMy origin master nlevs upperLocs upperRecs numOriginalLocs originalRec acc =
     (let (companionLoc, d, s) = acc; extendedRec = upperRecs + originalRec
      in if \<not> master originalRec then Inl AssertionFailed
         else let s = s \<lparr> os_nrecs := os_nrecs s + 1, os_recidx := std_insert extendedRec [] (os_recidx s) \<rparr>
              in fold_result (companion_level assign isMy origin nlevs upperLocs upperRecs numOriginalLocs originalRec) [0..<nlevs]
                   (companionLoc, d, s))"

definition create_companions ::
    "(assign_call \<Rightarrow> 'd \<Rightarrow> 'd result) \<Rightarrow> ('d \<Rightarrow> nat \<Rightarrow> bool) \<Rightarrow> point2 \<Rightarrow> (nat \<Rightarrow> bool) \<Rightarrow> nat \<Rightarrow> nat \<Rightarrow> nat \<Rightarrow>
     'd \<Rightarrow> obs_records \<Rightarrow> (nat \<times> 'd \<times> obs_records) result" where
  "create_companions assign isMy origin master nlevs upperLocs upperRecs d s =
     fold_result (companion_record assign isMy origin master nlevs upperLocs upperRecs (length (os_recnums s)))
       (uniqueOriginalRecs s) (0, d, s)"

text \<open>The values of a variable: the first value of a record that is not missing is copied to all locations of its
  companion. The lookup of the companion creates an entry if there is none.\<close>

definition first_present :: "'x \<Rightarrow> 'x list \<Rightarrow> nat list \<Rightarrow> 'x" where
  "first_present missing varVals locs =
     (case find (\<lambda>jloc. varVals ! jloc \<noteq> missing) locs of Some jloc \<Rightarrow> varVals ! jloc | None \<Rightarrow> missing)"

definition extendVariable :: "'x \<Rightarrow> nat \<Rightarrow> rec_idx_map \<Rightarrow> 'x list \<Rightarrow> 'x list \<times> rec_idx_map" where
  "extendVariable missing upperRecs recidx varVals =
     fold (\<lambda>recordindex (varVals, recidx).
         let fillValue = first_present missing varVals (snd recordindex)
         in if fillValue \<noteq> missing
            then (fold (\<lambda>jloc v. v[jloc := fillValue]) (std_at (fst recordindex + upperRecs) [] recidx) varVals,
                  std_insert (fst recordindex + upperRecs) [] recidx)
            else (varVals, recidx))
       (takeWhile (\<lambda>recordindex. fst recordindex < upperRecs) recidx) (varVals, recidx)"

subsection \<open>The records that are added\<close>

locale companion_distribution =
  fixes assign :: "assign_call \<Rightarrow> 'd \<Rightarrow> 'd result" and isMy :: "'d \<Rightarrow> nat \<Rightarrow> bool" and master :: "nat \<Rightarrow> bool"
  assumes accepts: "master r \<Longrightarrow> \<exists>d'. assign (r, l, p) d = Inr d' \<and> isMy d' r"

definition add_companion :: "nat \<Rightarrow> nat \<Rightarrow> nat \<Rightarrow> nat \<Rightarrow> nat \<times> nat \<Rightarrow> obs_records \<Rightarrow> obs_records" where
  "add_companion nlevs upperLocs upperRecs k cr s =
     (let (loc, r) = cr
      in s \<lparr> os_recnums := os_recnums s @ replicate k (upperRecs + r),
             os_indx := os_indx s @ map (\<lambda>ilev. upperLocs + (r * nlevs + ilev)) [0..<k],
             os_recidx := std_assign (upperRecs + r) [loc..<loc + k] (os_recidx s) \<rparr>)"

fun companions :: "nat \<Rightarrow> nat \<Rightarrow> nat \<Rightarrow> nat \<Rightarrow> nat list \<Rightarrow> obs_records \<Rightarrow> obs_records" where
  "companions nlevs upperLocs upperRecs n [] s = s"
| "companions nlevs upperLocs upperRecs n (r # rs) s =
     companions nlevs upperLocs upperRecs (n + nlevs) rs (add_companion nlevs upperLocs upperRecs nlevs (n, r) s)"

lemma std_assign_again [simp]: "std_assign k v (std_assign k w m) = std_assign k v m"
  by (induction m) auto

lemma std_insert_new: "std_find m k = None \<Longrightarrow> std_insert k v m = std_assign k v m"
  by (induction m) (auto split: if_splits)

context companion_distribution
begin

lemma companion_levels:
  assumes "master r" "std_map_ok (os_recidx s)" "std_find (os_recidx s) (upperRecs + r) = None"
  shows "\<exists>d'. fold_result (companion_level assign isMy origin nlevs upperLocs upperRecs n r) [0..<k]
      (c, d, s \<lparr> os_recidx := std_insert (upperRecs + r) [] (os_recidx s) \<rparr>)
    = Inr (c + k, d', add_companion nlevs upperLocs upperRecs k (n + c, r) s)"
proof (induction k)
  case 0
  then show ?case using assms(3) by (simp add: add_companion_def std_insert_new)
next
  case (Suc k)
  let ?s = "add_companion nlevs upperLocs upperRecs k (n + c, r) s"
  obtain d' where d': "fold_result (companion_level assign isMy origin nlevs upperLocs upperRecs n r) [0..<k]
      (c, d, s \<lparr> os_recidx := std_insert (upperRecs + r) [] (os_recidx s) \<rparr>) = Inr (c + k, d', ?s)" using Suc by blast
  obtain d'' where d'': "assign (r, r * nlevs + k, origin) d' = Inr d''" "isMy d'' r" using accepts [OF assms(1)] by blast
  have "std_at (upperRecs + r) [] (os_recidx ?s) = [n + c..<n + c + k]"
    using assms(2) by (simp add: add_companion_def std_at_def std_find_assign)
  then have "std_push (upperRecs + r) (n + (c + k)) (os_recidx ?s) = std_assign (upperRecs + r) [n + c..<n + c + Suc k] (os_recidx s)"
    by (simp add: std_push_def) (simp add: add_companion_def add.assoc)
  then have "companion_level assign isMy origin nlevs upperLocs upperRecs n r k (c + k, d', ?s)
      = Inr (c + Suc k, d'', add_companion nlevs upperLocs upperRecs (Suc k) (n + c, r) s)"
    using d'' by (simp add: companion_level_def) (simp add: add_companion_def replicate_append_same Let_def)
  with d' show ?case by (simp add: fold_result_append)
qed

lemma create_companions_run:
  assumes "\<forall>r \<in> set rs. master r \<and> std_find (os_recidx s) (upperRecs + r) = None" "distinct rs" "std_map_ok (os_recidx s)"
  shows "\<exists>d'. fold_result (companion_record assign isMy origin master nlevs upperLocs upperRecs n) rs (c, d, s)
    = Inr (c + length rs * nlevs, d',
        companions nlevs upperLocs upperRecs (n + c) rs (s \<lparr> os_nrecs := os_nrecs s + length rs \<rparr>))"
  using assms
proof (induction rs arbitrary: c d s)
  case (Cons r rs)
  let ?s0 = "s \<lparr> os_nrecs := os_nrecs s + 1 \<rparr>"
  let ?s1 = "add_companion nlevs upperLocs upperRecs nlevs (n + c, r) ?s0"
  have r: "master r" "std_map_ok (os_recidx ?s0)" "std_find (os_recidx ?s0) (upperRecs + r) = None" using Cons.prems by simp_all
  obtain d1 where d1: "fold_result (companion_level assign isMy origin nlevs upperLocs upperRecs n r) [0..<nlevs]
      (c, d, ?s0 \<lparr> os_recidx := std_insert (upperRecs + r) [] (os_recidx ?s0) \<rparr>) = Inr (c + nlevs, d1, ?s1)"
    using companion_levels [OF r] by blast
  then have step: "companion_record assign isMy origin master nlevs upperLocs upperRecs n r (c, d, s) = Inr (c + nlevs, d1, ?s1)"
    using r(1) by (simp add: companion_record_def)
  have s1: "\<forall>r' \<in> set rs. master r' \<and> std_find (os_recidx ?s1) (upperRecs + r') = None" "std_map_ok (os_recidx ?s1)"
    using Cons.prems by (auto simp: add_companion_def std_find_assign)
  obtain d2 where d2: "fold_result (companion_record assign isMy origin master nlevs upperLocs upperRecs n) rs (c + nlevs, d1, ?s1)
    = Inr (c + nlevs + length rs * nlevs, d2,
        companions nlevs upperLocs upperRecs (n + (c + nlevs)) rs (?s1 \<lparr> os_nrecs := os_nrecs ?s1 + length rs \<rparr>))"
    using Cons.IH [OF s1(1) _ s1(2)] Cons.prems(2) by auto
  have "?s1 \<lparr> os_nrecs := os_nrecs ?s1 + length rs \<rparr>
      = add_companion nlevs upperLocs upperRecs nlevs (n + c, r) (s \<lparr> os_nrecs := os_nrecs s + length (r # rs) \<rparr>)"
    by (simp add: add_companion_def)
  then show ?case using step d2 by (simp add: add.assoc)
qed simp

end


lemma record_locs_append:
  "record_locs (xs @ ys) (length xs + length ys) q = record_locs xs (length xs) q @ map ((+) (length xs)) (record_locs ys (length ys) q)"
proof -
  have "[0..<length xs + length ys] = [0..<length xs] @ map ((+) (length xs)) [0..<length ys]"
    by (rule nth_equalityI) (simp_all add: nth_append)
  moreover have "filter (\<lambda>i. (xs @ ys) ! i = q) [0..<length xs] = filter (\<lambda>i. xs ! i = q) [0..<length xs]"
    by (rule filter_cong) (auto simp: nth_append)
  ultimately show ?thesis by (simp add: record_locs_def filter_map comp_def)
qed

lemma record_locs_replicate: "record_locs (replicate k v) k q = (if q = v then [0..<k] else [])"
  by (auto simp: record_locs_def filter_empty_conv filter_id_conv)

lemma add_companion_ok:
  fixes nlevs upperLocs :: nat
  assumes "recidx_ok (os_recnums s) (os_recidx s)" "upperRecs + r \<notin> set (os_recnums s)"
  defines "s' \<equiv> add_companion nlevs upperLocs upperRecs nlevs (length (os_recnums s), r) s"
  shows "recidx_ok (os_recnums s') (os_recidx s')"
proof -
  let ?n = "length (os_recnums s)" and ?q = "upperRecs + r"
  have none: "record_locs (os_recnums s) ?n ?q = []" using assms(2) by (auto simp: record_locs_def filter_empty_conv in_set_conv_nth)
  have locs: "record_locs (os_recnums s') (length (os_recnums s')) q = (if q = ?q then [?n..<?n + nlevs] else record_locs (os_recnums s) ?n q)" for q
  proof -
    have rn: "os_recnums s' = os_recnums s @ replicate nlevs ?q" by (simp add: s'_def add_companion_def)
    have "map ((+) ?n) [0..<nlevs] = [?n..<?n + nlevs]" by (rule nth_equalityI) simp_all
    then show ?thesis
      using record_locs_append [of "os_recnums s" "replicate nlevs ?q" q] none by (simp add: rn record_locs_replicate)
  qed
  have ok: "std_map_ok (os_recidx s)" using assms(1) by (simp add: recidx_ok_def)
  have ri: "os_recidx s' = std_assign ?q [?n..<?n + nlevs] (os_recidx s)" by (simp add: s'_def add_companion_def)
  show ?thesis
    unfolding recidx_ok_def locs unfolding ri
    using assms(1) ok by (auto simp: recidx_ok_def std_find_assign)
qed

lemma companions_result:
  fixes nlevs upperLocs :: nat
  assumes "recidx_ok (os_recnums s) (os_recidx s)" "distinct rs" "\<forall>r \<in> set rs. upperRecs + r \<notin> set (os_recnums s)"
    "length (os_indx s) = length (os_recnums s)"
  defines "s' \<equiv> companions nlevs upperLocs upperRecs (length (os_recnums s)) rs s"
  shows "recidx_ok (os_recnums s') (os_recidx s')"
    "os_recnums s' = os_recnums s @ concat (map (\<lambda>r. replicate nlevs (upperRecs + r)) rs)"
    "os_indx s' = os_indx s @ concat (map (\<lambda>r. map (\<lambda>ilev. upperLocs + (r * nlevs + ilev)) [0..<nlevs]) rs)"
    "os_nrecs s' = os_nrecs s" "\<And>q. q \<notin> (+) upperRecs ` set rs \<Longrightarrow> std_find (os_recidx s') q = std_find (os_recidx s) q"
    "\<And>r. r \<in> set rs \<Longrightarrow> \<exists>locs. std_find (os_recidx s') (upperRecs + r) = Some locs \<and> length locs = nlevs"
proof -
  have "recidx_ok (os_recnums s') (os_recidx s') \<and>
    os_recnums s' = os_recnums s @ concat (map (\<lambda>r. replicate nlevs (upperRecs + r)) rs) \<and>
    os_indx s' = os_indx s @ concat (map (\<lambda>r. map (\<lambda>ilev. upperLocs + (r * nlevs + ilev)) [0..<nlevs]) rs) \<and>
    os_nrecs s' = os_nrecs s \<and> (\<forall>q. q \<notin> (+) upperRecs ` set rs \<longrightarrow> std_find (os_recidx s') q = std_find (os_recidx s) q) \<and>
    (\<forall>r \<in> set rs. \<exists>locs. std_find (os_recidx s') (upperRecs + r) = Some locs \<and> length locs = nlevs)"
    using assms(1-4) unfolding s'_def
  proof (induction rs arbitrary: s)
    case (Cons r rs)
    let ?s1 = "add_companion nlevs upperLocs upperRecs nlevs (length (os_recnums s), r) s"
    have ok: "std_map_ok (os_recidx s)" using Cons.prems(1) by (simp add: recidx_ok_def)
    have f: "os_recnums ?s1 = os_recnums s @ replicate nlevs (upperRecs + r)" "os_nrecs ?s1 = os_nrecs s"
      "os_indx ?s1 = os_indx s @ map (\<lambda>ilev. upperLocs + (r * nlevs + ilev)) [0..<nlevs]"
      "os_recidx ?s1 = std_assign (upperRecs + r) [length (os_recnums s)..<length (os_recnums s) + nlevs] (os_recidx s)"
      by (simp_all add: add_companion_def)
    have ok1: "recidx_ok (os_recnums ?s1) (os_recidx ?s1)" using Cons.prems by (intro add_companion_ok) simp_all
    have "\<forall>r' \<in> set rs. upperRecs + r' \<notin> set (os_recnums ?s1)" using Cons.prems(2,3) by (auto simp: f)
    note IH = Cons.IH [OF ok1 _ this]
    have len: "length (os_recnums ?s1) = length (os_recnums s) + nlevs" "length (os_indx ?s1) = length (os_recnums ?s1)"
      using Cons.prems(4) by (simp_all add: f)
    have nr: "upperRecs + r \<notin> (+) upperRecs ` set rs" using Cons.prems(2) by auto
    have at_r: "std_find (os_recidx ?s1) (upperRecs + r) = Some [length (os_recnums s)..<length (os_recnums s) + nlevs]"
      "\<And>q. q \<noteq> upperRecs + r \<Longrightarrow> std_find (os_recidx ?s1) q = std_find (os_recidx s) q"
      using ok by (simp_all add: f std_find_assign)
    define s2 where "s2 = companions nlevs upperLocs upperRecs (length (os_recnums s) + nlevs) rs ?s1"
    have dr: "distinct rs" using Cons.prems(2) by simp
    have IH: "recidx_ok (os_recnums s2) (os_recidx s2)"
      "os_recnums s2 = os_recnums ?s1 @ concat (map (\<lambda>r. replicate nlevs (upperRecs + r)) rs)"
      "os_indx s2 = os_indx ?s1 @ concat (map (\<lambda>r. map (\<lambda>ilev. upperLocs + (r * nlevs + ilev)) [0..<nlevs]) rs)"
      "os_nrecs s2 = os_nrecs ?s1" "\<And>q. q \<notin> (+) upperRecs ` set rs \<Longrightarrow> std_find (os_recidx s2) q = std_find (os_recidx ?s1) q"
      "\<And>r. r \<in> set rs \<Longrightarrow> \<exists>locs. std_find (os_recidx s2) (upperRecs + r) = Some locs \<and> length locs = nlevs"
      using IH [OF dr len(2), unfolded len(1), folded s2_def] by (elim conjE; blast)+
    have "\<exists>locs. std_find (os_recidx s2) (upperRecs + r) = Some locs \<and> length locs = nlevs"
      using IH(5) [OF nr] at_r(1) by simp
    moreover have "std_find (os_recidx s2) q = std_find (os_recidx s) q" if "q \<notin> (+) upperRecs ` set (r # rs)" for q
      using IH(5) [of q] at_r(2) [of q] that by simp
    moreover have "os_recnums s2 = os_recnums s @ concat (map (\<lambda>r. replicate nlevs (upperRecs + r)) (r # rs))"
      "os_indx s2 = os_indx s @ concat (map (\<lambda>r. map (\<lambda>ilev. upperLocs + (r * nlevs + ilev)) [0..<nlevs]) (r # rs))" "os_nrecs s2 = os_nrecs s"
      by (simp_all add: IH(2-4) f)
    ultimately show ?case
      unfolding companions.simps s2_def [symmetric] using IH(1,6) by (intro conjI allI impI ballI) (auto simp only: set_simps)
  qed simp
  then show "recidx_ok (os_recnums s') (os_recidx s')"
    "os_recnums s' = os_recnums s @ concat (map (\<lambda>r. replicate nlevs (upperRecs + r)) rs)"
    "os_indx s' = os_indx s @ concat (map (\<lambda>r. map (\<lambda>ilev. upperLocs + (r * nlevs + ilev)) [0..<nlevs]) rs)"
    "os_nrecs s' = os_nrecs s" "\<And>q. q \<notin> (+) upperRecs ` set rs \<Longrightarrow> std_find (os_recidx s') q = std_find (os_recidx s) q"
    "\<And>r. r \<in> set rs \<Longrightarrow> \<exists>locs. std_find (os_recidx s') (upperRecs + r) = Some locs \<and> length locs = nlevs"
    by (elim conjE; blast)+
qed


lemma distinct_companion_indices:
  "distinct rs \<Longrightarrow> distinct (concat (map (\<lambda>r. map (\<lambda>ilev. upperLocs + (r * nlevs + ilev)) [0..<nlevs]) rs))" for upperLocs nlevs :: nat
proof (induction rs)
  case (Cons r rs)
  have "r = q" if "r * nlevs + i = q * nlevs + j" "i < nlevs" "j < nlevs" for q i j
    using that by (metis div_mult_self3 div_less add_0_right add.commute not_less_zero)
  then show ?case using Cons by (auto simp: distinct_map inj_on_def) blast
qed simp

interpretation replica: companion_distribution
  "\<lambda>c d. Inr (ReplicaOfGeneralDistribution_assignRecord isMy c d)" ReplicaOfGeneralDistribution_isMyRecord isMy
  for isMy
  by unfold_locales (simp add: ReplicaOfGeneralDistribution_assignRecord_def ReplicaOfGeneralDistribution_isMyRecord_def)

interpretation nonov_replica: companion_distribution
  "\<lambda>c d. Inr (NonoverlappingDistribution_assignRecord (ReplicaOfNonoverlappingDistribution_isMyRecord isMy) c d)"
  "\<lambda>d. ReplicaOfNonoverlappingDistribution_isMyRecord isMy" isMy
  for isMy
  by unfold_locales (simp add: ReplicaOfNonoverlappingDistribution_isMyRecord_def)

text \<open>The state an ObsSpace has before it is extended.\<close>

definition extensible :: "nat \<Rightarrow> nat \<Rightarrow> obs_records \<Rightarrow> bool" where
  "extensible upperLocs upperRecs s \<longleftrightarrow> recidx_ok (os_recnums s) (os_recidx s) \<and> length (os_indx s) = length (os_recnums s) \<and>
     (\<forall>r \<in> set (os_recnums s). r < upperRecs) \<and> (\<forall>r. recidx_has (os_recidx s) r \<longrightarrow> r < upperRecs) \<and>
     distinct (os_indx s) \<and> (\<forall>i \<in> set (os_indx s). i < upperLocs)"

context companion_distribution
begin

lemma create_companions_result:
  assumes "extensible upperLocs upperRecs s" "\<forall>r \<in> set (os_recnums s). master r"
  shows "\<exists>d' s'. create_companions assign isMy origin master nlevs upperLocs upperRecs d s = Inr (card (set (os_recnums s)) * nlevs, d', s') \<and>
    recidx_ok (os_recnums s') (os_recidx s') \<and> os_nrecs s' = os_nrecs s + card (set (os_recnums s)) \<and>
    length (os_recnums s') = length (os_recnums s) + card (set (os_recnums s)) * nlevs \<and>
    length (os_indx s') = length (os_recnums s') \<and> distinct (os_indx s') \<and>
    (\<forall>r < upperRecs. std_find (os_recidx s') r = std_find (os_recidx s) r) \<and>
    (\<forall>r \<in> set (os_recnums s). \<exists>locs. std_find (os_recidx s') (upperRecs + r) = Some locs \<and> length locs = nlevs)"
proof -
  let ?rs = "uniqueOriginalRecs s"
  note e = assms(1) [unfolded extensible_def]
  have rs: "set ?rs = set (os_recnums s)" "distinct ?rs" "length ?rs = card (set (os_recnums s))"
    by (simp_all add: uniqueOriginalRecs_def length_remdups_card_conv)
  have new: "\<forall>r \<in> set ?rs. master r \<and> std_find (os_recidx s) (upperRecs + r) = None"
    unfolding rs(1) using assms(2) e by (metis recidx_has_def add_lessD1 add.commute less_add_same_cancel1 not_add_less1)
  have ok: "std_map_ok (os_recidx s)" using e by (simp add: recidx_ok_def)
  let ?s0 = "s \<lparr> os_nrecs := os_nrecs s + length ?rs \<rparr>"
  define s' where "s' = companions nlevs upperLocs upperRecs (length (os_recnums s)) ?rs ?s0"
  obtain d' where run: "create_companions assign isMy origin master nlevs upperLocs upperRecs d s = Inr (length ?rs * nlevs, d', s')"
    using create_companions_run [OF new rs(2) ok, of origin nlevs upperLocs "length (os_recnums s)" 0 d]
    unfolding create_companions_def s'_def by auto
  have fresh: "\<forall>r \<in> set ?rs. upperRecs + r \<notin> set (os_recnums ?s0)" using e by force
  have "recidx_ok (os_recnums ?s0) (os_recidx ?s0)" "length (os_indx ?s0) = length (os_recnums ?s0)" using e by simp_all
  note c = companions_result [where nlevs = nlevs and upperLocs = upperLocs, OF this(1) rs(2) fresh this(2), simplified, folded s'_def]
  have dist: "distinct (os_indx s')" unfolding c(3) using e distinct_companion_indices [OF rs(2)] by (auto simp: distinct_append)
  have len: "length (os_recnums s') = length (os_recnums s) + length ?rs * nlevs" "length (os_indx s') = length (os_recnums s')"
    using e by (simp_all add: c(2,3) length_concat comp_def sum_list_triv)
  have keep: "\<forall>r < upperRecs. std_find (os_recidx s') r = std_find (os_recidx s) r" using c(5) by force
  have "\<forall>r \<in> set (os_recnums s). \<exists>locs. std_find (os_recidx s') (upperRecs + r) = Some locs \<and> length locs = nlevs"
    using c(6) by (simp only: rs(1)) blast
  then show ?thesis
    using run c(1,4) dist len keep unfolding rs(3) by (intro exI [of _ d'] exI [of _ s']) simp
qed

end


subsection \<open>Values of the companion records\<close>

lemma std_insert_present: "std_map_ok m \<Longrightarrow> std_find m k \<noteq> None \<Longrightarrow> std_insert k v m = m"
proof (induction m)
  case (Cons e m)
  show ?case
  proof (cases "k = fst e")
    case False
    then have k: "std_find m k \<noteq> None" using Cons.prems(2) by (cases e) auto
    then have "k \<in> fst ` set m" by (simp add: map_of_eq_None_iff)
    then have "fst e < k" using Cons.prems(1) by (auto simp: std_map_ok_def std_keys_def)
    moreover have "std_map_ok m" using Cons.prems(1) by (simp add: std_map_ok_def std_keys_def)
    ultimately show ?thesis using Cons.IH k False by (cases e) auto
  qed (cases e, simp)
qed simp

lemma fold_set_all: "fold (\<lambda>j v. v[j := x]) js v = map (\<lambda>j. if j \<in> set js then x else v ! j) [0..<length v]"
proof (induction js arbitrary: v)
  case Nil
  then show ?case by (simp add: map_nth)
next
  case (Cons j js)
  show ?case unfolding fold_simps Cons by (rule nth_equalityI) (auto simp: nth_list_update)
qed

lemma first_present_cong: "\<forall>j \<in> set js. v ! j = w ! j \<Longrightarrow> first_present missing v js = first_present missing w js"
  by (induction js) (auto simp: first_present_def)

lemma record_locs_set: "set (record_locs recnums n r) = {j. j < n \<and> recnums ! j = r}"
  by (auto simp: record_locs_def)

lemma recidx_ok_set:
  assumes "recidx_ok recnums recidx" "std_find recidx r = Some js"
  shows "set js = {j. j < length recnums \<and> recnums ! j = r}"
proof -
  have "mset js = mset (record_locs recnums (length recnums) r)" using assms by (simp add: recidx_ok_def)
  from mset_eq_setD [OF this] show ?thesis by (simp add: record_locs_set)
qed

definition companion_value :: "'x \<Rightarrow> nat \<Rightarrow> rec_idx_map \<Rightarrow> nat list \<Rightarrow> 'x list \<Rightarrow> nat \<Rightarrow> 'x" where
  "companion_value missing upperRecs es recnums varVals j =
     (if upperRecs \<le> recnums ! j
      then case std_find es (recnums ! j - upperRecs) of
             Some js \<Rightarrow> if first_present missing varVals js \<noteq> missing then first_present missing varVals js else varVals ! j
           | None \<Rightarrow> varVals ! j
      else varVals ! j)"

lemma extendVariable_loop:
  fixes missing upperRecs
  defines "step \<equiv> \<lambda>recordindex (varVals, recidx).
      let fillValue = first_present missing varVals (snd recordindex)
      in if fillValue \<noteq> missing
         then (fold (\<lambda>jloc v. v[jloc := fillValue]) (std_at (fst recordindex + upperRecs) [] recidx) varVals,
               std_insert (fst recordindex + upperRecs) [] recidx)
         else (varVals, recidx)"
  assumes ok: "recidx_ok recnums recidx" "length varVals = length recnums"
    and es: "distinct (map fst es)" "\<forall>e \<in> set es. fst e < upperRecs \<and> std_find recidx (fst e) = Some (snd e)"
    and comp: "\<forall>e \<in> set es. std_find recidx (fst e + upperRecs) \<noteq> None"
  shows "fold step es (varVals, recidx) = (map (companion_value missing upperRecs es recnums varVals) [0..<length recnums], recidx)"
  using es comp
proof (induction es rule: rev_induct)
  case Nil
  have "companion_value missing upperRecs [] recnums varVals = (!) varVals" by (rule ext) (simp add: companion_value_def)
  then show ?case using ok(2) by (simp add: map_nth flip: ok(2))
next
  case (snoc e es)
  obtain r js where e: "e = (r, js)" by (cases e)
  let ?v = "map (companion_value missing upperRecs es recnums varVals) [0..<length recnums]"
  have IH: "fold step es (varVals, recidx) = (?v, recidx)" using snoc by auto
  have r: "r < upperRecs" "std_find recidx r = Some js" "r \<notin> fst ` set es" using snoc.prems by (auto simp: e)
  obtain ks where ks: "std_find recidx (r + upperRecs) = Some ks" using snoc.prems(3) by (auto simp: e)
  note sets = recidx_ok_set [OF ok(1) r(2)] recidx_ok_set [OF ok(1) ks]
  have mok: "std_map_ok recidx" using ok(1) by (simp add: recidx_ok_def)
  have fp: "first_present missing ?v js = first_present missing varVals js"
    using sets(1) r(1) by (intro first_present_cong) (auto simp: companion_value_def)
  let ?fill = "first_present missing varVals js"
  have new: "companion_value missing upperRecs (es @ [e]) recnums varVals j
      = (if recnums ! j = r + upperRecs \<and> ?fill \<noteq> missing then ?fill else companion_value missing upperRecs es recnums varVals j)" for j
  proof (cases "recnums ! j = r + upperRecs")
    case True
    have "std_find es r = None" using r(3) by (simp add: map_of_eq_None_iff)
    then show ?thesis using True by (simp add: companion_value_def e map_add_def)
  next
    case False
    then have "std_find (es @ [e]) (recnums ! j - upperRecs) = std_find es (recnums ! j - upperRecs)" if "upperRecs \<le> recnums ! j"
      using that by (auto simp: e map_add_def split: option.split)
    then show ?thesis using False by (simp add: companion_value_def)
  qed
  show ?case
  proof (cases "?fill = missing")
    case True
    then have "map (companion_value missing upperRecs (es @ [e]) recnums varVals) [0..<length recnums] = ?v" by (simp add: new)
    moreover have "step e (?v, recidx) = (?v, recidx)" using True fp by (simp add: step_def e)
    ultimately show ?thesis using IH by simp
  next
    case False
    have "fold step (es @ [e]) (varVals, recidx)
        = (map (\<lambda>j. if j \<in> set ks then ?fill else ?v ! j) [0..<length recnums], recidx)"
      using False std_insert_present [OF mok, of "r + upperRecs" "[]"] ks
      by (simp add: IH) (simp add: step_def e fp std_at_def fold_set_all del: map_map)
    also have "map (\<lambda>j. if j \<in> set ks then ?fill else ?v ! j) [0..<length recnums]
        = map (companion_value missing upperRecs (es @ [e]) recnums varVals) [0..<length recnums]"
      using False sets(2) by (intro map_cong) (auto simp: new)
    finally show ?thesis .
  qed
qed


lemma takeWhile_sorted_keys:
  fixes m :: "(nat, 'v) std_map"
  assumes "std_map_ok m"
  shows "takeWhile (\<lambda>e. fst e < b) m = filter (\<lambda>e. fst e < b) m"
  using assms
proof (induction m)
  case (Cons e m)
  then have m: "std_map_ok m" "\<forall>e' \<in> set m. fst e < fst e'" by (auto simp: std_map_ok_def std_keys_def)
  have "filter (\<lambda>e. fst e < b) m = []" if "b \<le> fst e" using m(2) that by (force simp: filter_empty_conv)
  then show ?case using Cons.IH m(1) by (auto simp: not_less)
qed simp

section \<open>Properties\<close>

text \<open>C31. The sorted record index holds for every record the locations of this record in the stable order of their sort
  values, ascending or descending: all of them; unchanged for a record with a missing value that is not to be sorted;
  or only the locations with a value, in the places of these. A record is left out when it has no location, or no
  location with a value when missing values are ignored.\<close>

theorem buildSortedObsGroups_sorts:
  "std_find (buildSortedObsGroups treatment order n recnums (vals, miss) []) r =
     sorted_record treatment order vals ((!) miss) (record_locs recnums n r)"
  using buildSortedObsGroups_find by blast

text \<open>C33. The record index of an ObsSpace, sorted or not, agrees with the record numbers: the vector of a record that is
  in the index has every location of the record once.\<close>

theorem recidx_complete:
  assumes "recidx_vector recidx r = Inr locs"
    "recidx = buildRecIdxUnsorted (length recnums) recnums [] \<or>
     recidx = buildSortedObsGroups treatment order (length recnums) recnums values []"
  shows "distinct locs \<and> (\<forall>i. i \<in> set locs \<longleftrightarrow> i < length recnums \<and> recnums ! i = r)"
proof -
  have ok: "recidx_ok recnums recidx" using assms(2) by (elim disjE) (simp_all only: recidx_ok_sorted recidx_ok_unsorted)
  have find: "std_find recidx r = Some locs" using assms(1) by (simp add: recidx_vector_def split: option.splits)
  have "mset locs = mset (record_locs recnums (length recnums) r)" using ok find by (simp add: recidx_ok_def)
  from mset_eq_imp_distinct_iff [OF this] recidx_ok_set [OF ok find] show ?thesis by (simp add: record_locs_def)
qed

theorem recidx_complete_witness:
  "recidx_vector (buildRecIdxUnsorted 3 [4, 7, 4] []) 4 = Inr [0, 2] \<and> distinct [0, 2 :: nat] \<and>
   (\<forall>i. i \<in> set [0, 2] \<longleftrightarrow> i < 3 \<and> [4, 7, 4] ! i = (4 :: nat))"
proof -
  have v: "recidx_vector (buildRecIdxUnsorted 3 [4, 7, 4] []) 4 = Inr [0, 2]"
    by (simp add: recidx_vector_def buildRecIdxUnsorted_def std_push_def std_at_def numeral_3_eq_3)
  from recidx_complete [OF v, of "[4, 7, 4]"] v show ?thesis by (simp add: numeral_3_eq_3)
qed



text \<open>C34. Extending a variable copies the first value of a record that is not missing to all locations of its companion
  and changes no other value.\<close>

theorem extendVariable_fills:
  assumes "recidx_ok recnums recidx" "length varVals = length recnums"
    "\<forall>r < upperRecs. recidx_has recidx r \<longrightarrow> recidx_has recidx (upperRecs + r)"
  shows "extendVariable missing upperRecs recidx varVals =
    (map (\<lambda>j. if upperRecs \<le> recnums ! j
              then case std_find recidx (recnums ! j - upperRecs) of
                     Some locs \<Rightarrow> if recnums ! j - upperRecs < upperRecs \<and> first_present missing varVals locs \<noteq> missing
                                   then first_present missing varVals locs else varVals ! j
                   | None \<Rightarrow> varVals ! j
              else varVals ! j) [0..<length recnums], recidx)"
proof -
  let ?es = "filter (\<lambda>e. fst e < upperRecs) recidx"
  have ok: "std_map_ok recidx" using assms(1) by (simp add: recidx_ok_def)
  then have dist: "distinct (map fst recidx)" by (simp add: std_map_ok_def std_keys_def strict_sorted_iff)
  have es: "\<forall>e \<in> set ?es. fst e < upperRecs \<and> std_find recidx (fst e) = Some (snd e)" using dist by (auto simp: map_of_eq_Some_iff)
  have find: "std_find ?es q = (if q < upperRecs then std_find recidx q else None)" for q
    by (induction recidx) auto
  have "\<forall>e \<in> set ?es. std_find recidx (fst e + upperRecs) \<noteq> None"
    using assms(3) es by (auto simp: recidx_has_def add.commute)
  from extendVariable_loop [OF assms(1,2) _ es this, of missing] dist
  have "extendVariable missing upperRecs recidx varVals
      = (map (companion_value missing upperRecs ?es recnums varVals) [0..<length recnums], recidx)"
    by (simp add: extendVariable_def takeWhile_sorted_keys [OF ok] distinct_map_filter)
  also have "map (companion_value missing upperRecs ?es recnums varVals) [0..<length recnums] =
    map (\<lambda>j. if upperRecs \<le> recnums ! j
              then case std_find recidx (recnums ! j - upperRecs) of
                     Some locs \<Rightarrow> if recnums ! j - upperRecs < upperRecs \<and> first_present missing varVals locs \<noteq> missing
                                   then first_present missing varVals locs else varVals ! j
                   | None \<Rightarrow> varVals ! j
              else varVals ! j) [0..<length recnums]"
    by (intro map_cong refl) (simp add: companion_value_def find split: option.split)
  finally show ?thesis .
qed

theorem extendVariable_fills_witness:
  "extendVariable (-9) 2 [(0, [0, 2]), (1, [1]), (2, [3, 4]), (3, [5])] [-9, -9, 7, -9, -9, -9 :: int]
    = ([-9, -9, 7, 7, 7, -9], [(0, [0, 2]), (1, [1]), (2, [3, 4]), (3, [5])])"
proof -
  have "recidx_ok [0, 1, 0, 2, 2, 3] [(0, [0, 2]), (1, [1]), (2, [3, 4]), (3, [5])]"
    using recidx_ok_unsorted [of "[0, 1, 0, 2, 2, 3]"] by (simp add: buildRecIdxUnsorted_def std_push_def std_at_def eval_nat_numeral)
  from extendVariable_fills [OF this, of "[-9, -9, 7, -9, -9, -9 :: int]" 2 "- 9"] show ?thesis
    by (simp add: recidx_has_def first_present_def eval_nat_numeral less_Suc_eq)
qed

end
