(* ===== verification/Ioda_Pool.thy ===== *)
theory Ioda_Pool
  imports Ioda_Rows Ioda_Mpi
begin

text \<open>
  The pool of processes that write a file (\<open>IoPoolBase.cpp\<close>, \<open>WriterPool.cpp\<close>) and the collection of the data of a
  variable from all processes (\<open>WriterUtils.cpp\<close>). Each process of the pool owns a block of consecutive ranks; the
  ranks outside the pool send the rows of their patch to the owner of their block. The main result is that the
  buffers of the pool, joined in the order of the pool, are the patch rows of all ranks in the order of the ranks,
  whatever the order in which the messages arrive.
\<close>

section \<open>Message passing\<close>

text \<open>
  The communicators belong to another package. The operations that only move values are functions on the list of
  the ranks' values; \<open>comm_split\<close> gives each rank its number in the new communicator and the size of that communicator.
\<close>

record pool_comm =
  comm_allGather :: "nat list \<Rightarrow> nat list"
  comm_gather :: "nat list \<Rightarrow> nat list"
  comm_scatter :: "nat list \<Rightarrow> nat list"
  comm_broadcast :: "nat \<Rightarrow> nat"
  comm_split :: "nat list \<Rightarrow> (nat \<times> nat) list"

text \<open>The documented behaviour: values arrive as they were sent, and a split numbers the ranks of a colour in their
  order.\<close>

definition split_ranks :: "nat list \<Rightarrow> (nat \<times> nat) list" where
  "split_ranks cs = map (\<lambda>r. (length (filter (\<lambda>q. cs ! q = cs ! r) [0..<r]), length (filter (\<lambda>c. c = cs ! r) cs))) [0..<length cs]"

definition mpi_pool_comm :: "pool_comm \<Rightarrow> bool" where
  "mpi_pool_comm c \<longleftrightarrow> (\<forall>xs. comm_allGather c xs = xs \<and> comm_gather c xs = xs \<and> comm_scatter c xs = xs) \<and>
     (\<forall>x. comm_broadcast c x = x) \<and> (\<forall>cs. comm_split c cs = split_ranks cs)"

definition seq_pool_comm :: pool_comm where
  "seq_pool_comm = \<lparr> comm_allGather = id, comm_gather = id, comm_scatter = id, comm_broadcast = id, comm_split = split_ranks \<rparr>"

lemma mpi_pool_comm_seq: "mpi_pool_comm seq_pool_comm"
  by (simp add: mpi_pool_comm_def seq_pool_comm_def)

text \<open>
  Point to point messages. A message waits in the network until a request with the same sender, receiver
  and tag takes it; its data then stand in the receiver's buffer from the place named by the request. Any pair of a
  message and a request that match can be next.
\<close>

record 'a message =
  msg_from :: nat
  msg_to :: nat
  msg_tag :: nat
  msg_data :: "'a list"

record request =
  req_from :: nat
  req_to :: nat
  req_tag :: nat
  req_start :: nat
  req_count :: nat

definition matches :: "request \<Rightarrow> 'a message \<Rightarrow> bool" where
  "matches q m \<longleftrightarrow> req_from q = msg_from m \<and> req_to q = msg_to m \<and> req_tag q = msg_tag m"

definition overwrite :: "nat \<Rightarrow> 'a list \<Rightarrow> 'a list \<Rightarrow> 'a list" where
  "overwrite s ys xs = take s xs @ ys @ drop (s + length ys) xs"

type_synonym 'a exchange_state = "'a message list \<times> request list \<times> 'a list list"

inductive deliver :: "'a exchange_state \<Rightarrow> 'a exchange_state \<Rightarrow> bool" where
  deliver: "\<lbrakk> m \<in> set net; q \<in> set reqs; matches q m; length (msg_data m) \<le> req_count q \<rbrakk> \<Longrightarrow>
     deliver (net, reqs, bufs)
       (remove1 m net, remove1 q reqs, bufs[req_to q := overwrite (req_start q) (msg_data m) (bufs ! req_to q)])"

inductive_cases deliverE: "deliver (net, reqs, bufs) s"

section \<open>The pool\<close>

record io_pool =
  rank_all :: nat
  size_all :: nat
  target_pool_size :: nat
  pool_nlocs :: nat
  patch_nlocs :: nat
  total_nlocs :: nat
  global_nlocs :: nat
  nlocs_start :: nat
  rank_pool :: int
  size_pool :: int
  rank_assignment :: "(nat \<times> nat) list"
  patchObsVec :: "bool list"
  is_parallel_io :: bool
  create_multiple_files :: bool

text \<open>The members as the constructors leave them before the first call; \<open>rank_pool\<close> and the members after it get
  their values in the calls.\<close>

definition IoPoolBase :: "nat \<Rightarrow> nat \<Rightarrow> bool list \<Rightarrow> io_pool" where
  "IoPoolBase rank n patch = \<lparr> rank_all = rank, size_all = n, target_pool_size = 0, pool_nlocs = length patch,
     patch_nlocs = length (filter id patch), total_nlocs = 0, global_nlocs = 0, nlocs_start = 0, rank_pool = -1, size_pool = -1,
     rank_assignment = [], patchObsVec = patch, is_parallel_io = False, create_multiple_files = False \<rparr>"

definition defaultMaxPoolSize :: int where
  "defaultMaxPoolSize = 10"

definition poolColor :: nat where "poolColor = 1"

definition nonPoolColor :: nat where "nonPoolColor = 2"

definition setTargetPoolSize :: "pool_comm \<Rightarrow> int \<Rightarrow> io_pool list \<Rightarrow> io_pool list" where
  "setTargetPoolSize c maxParam ps =
     (let maxPoolSize = (if maxParam > 0 then maxParam else defaultMaxPoolSize);
          n = size_all (ps ! 0);
          poolSize = (if int n \<le> maxPoolSize then n else nat maxPoolSize)
      in map (\<lambda>p. p \<lparr> target_pool_size := comm_broadcast c poolSize \<rparr>) ps)"

definition group_step :: "nat \<Rightarrow> nat \<Rightarrow> nat \<Rightarrow> nat \<times> (nat, nat list) std_map \<Rightarrow> nat \<times> (nat, nat list) std_map" where
  "group_step base_assign_size rem_assign_size i acc =
     (let (start, rankGrouping) = acc;
          count = base_assign_size + (if i < rem_assign_size then 1 else 0)
      in (start + count, std_insert start [start + 1..<start + count] rankGrouping))"

definition groupRanks :: "io_pool \<Rightarrow> (nat, nat list) std_map" where
  "groupRanks p =
     (let base_assign_size = size_all p div target_pool_size p;
          rem_assign_size = size_all p mod target_pool_size p
      in snd (fold (group_step base_assign_size rem_assign_size) [0..<target_pool_size p] (0, [])))"

definition assign_group :: "nat list \<Rightarrow> nat \<times> nat list \<Rightarrow>
    (nat \<times> nat) list list \<times> nat list \<Rightarrow> (nat \<times> nat) list list \<times> nat list" where
  "assign_group allNlocs rankGroup acc =
     (let (rankAssignments, rankAssignSizes) =
        fold (\<lambda>nonPoolRank (ra, sz). (ra[nonPoolRank := [(fst rankGroup, allNlocs ! nonPoolRank)]], sz[nonPoolRank := 1]))
          (snd rankGroup) acc;
        rankGroupPairs = map (\<lambda>nonPoolRank. (nonPoolRank, allNlocs ! nonPoolRank)) (snd rankGroup)
      in (rankAssignments[fst rankGroup := rankGroupPairs], rankAssignSizes[fst rankGroup := length rankGroupPairs]))"

definition assignRanksToIoPool :: "pool_comm \<Rightarrow> (nat, nat list) std_map \<Rightarrow> io_pool list \<Rightarrow> io_pool list" where
  "assignRanksToIoPool c rankGrouping ps =
     (let allNlocs = comm_allGather c (map patch_nlocs ps);
          (rankAssignments, rankAssignSizes) =
            fold (assign_group allNlocs) rankGrouping (replicate (length ps) [], replicate (length ps) 0);
          sizes = comm_scatter c rankAssignSizes
      in map (\<lambda>p. p \<lparr> rank_assignment :=
            (if rank_all p = 0 then rankAssignments ! 0
             else if sizes ! rank_all p > 0 then take (rankAssignSizes ! rank_all p) (rankAssignments ! rank_all p)
             else []) \<rparr>) ps)"

definition createIoPool :: "pool_comm \<Rightarrow> (nat, nat list) std_map \<Rightarrow> io_pool list \<Rightarrow> io_pool list" where
  "createIoPool c rankGrouping ps =
     (let splitColors = fold (\<lambda>rankGroup cs. cs[fst rankGroup := poolColor]) rankGrouping (replicate (length ps) nonPoolColor);
          myColors = comm_scatter c splitColors;
          comms = comm_split c myColors
      in map (\<lambda>p. if myColors ! rank_all p = nonPoolColor then p \<lparr> rank_pool := -1, size_pool := -1 \<rparr>
            else p \<lparr> rank_pool := int (fst (comms ! rank_all p)), size_pool := int (snd (comms ! rank_all p)) \<rparr>) ps)"

definition setTotalNlocs :: "io_pool \<Rightarrow> io_pool" where
  "setTotalNlocs p =
     (if rank_pool p < 0 then p \<lparr> total_nlocs := 0 \<rparr>
      else p \<lparr> total_nlocs := fold (\<lambda>a n. n + snd a) (rank_assignment p) (patch_nlocs p) \<rparr>)"

definition collectSingleFileInfo :: "pool_comm \<Rightarrow> io_pool list \<Rightarrow> io_pool list" where
  "collectSingleFileInfo c ps =
     (let totalNlocs = comm_gather c (map total_nlocs (filter (\<lambda>p. rank_pool p \<ge> 0) ps));
          (glob, starts, _) = fold (\<lambda>i (glob, starts, start). (glob + totalNlocs ! i, starts[i := start], start + totalNlocs ! i))
            [0..<length totalNlocs] (0, replicate (length totalNlocs) 0, 0);
          nlocsStarts = comm_scatter c starts
      in map (\<lambda>p. if rank_pool p \<ge> 0
            then p \<lparr> global_nlocs := comm_broadcast c glob, nlocs_start := nlocsStarts ! nat (rank_pool p) \<rparr> else p) ps)"

definition setFlags :: "bool \<Rightarrow> io_pool \<Rightarrow> io_pool" where
  "setFlags writeMultipleFiles p =
     p \<lparr> is_parallel_io := (rank_pool p \<ge> 0 \<and> \<not> writeMultipleFiles \<and> size_pool p > 1),
         create_multiple_files := (rank_pool p \<ge> 0 \<and> writeMultipleFiles \<and> size_pool p > 1) \<rparr>"

definition WriterPool :: "pool_comm \<Rightarrow> int \<Rightarrow> bool \<Rightarrow> bool list list \<Rightarrow> io_pool list" where
  "WriterPool c maxPoolSize writeMultipleFiles patches =
     (let ps = map (\<lambda>r. IoPoolBase r (length patches) (patches ! r)) [0..<length patches];
          ps = setTargetPoolSize c maxPoolSize ps;
          rankGrouping = groupRanks (ps ! 0);
          ps = assignRanksToIoPool c rankGrouping ps;
          ps = createIoPool c rankGrouping ps;
          ps = map setTotalNlocs ps;
          ps = collectSingleFileInfo c ps
      in map (setFlags writeMultipleFiles) ps)"

section \<open>Collecting the data of a variable\<close>

text \<open>Conversions to \<open>int\<close> and to \<open>std::size_t\<close>.\<close>

definition to_int32 :: "int \<Rightarrow> int" where
  "to_int32 x = (x + 2 ^ 31) mod 2 ^ 32 - 2 ^ 31"

definition to_size_t :: "int \<Rightarrow> nat" where
  "to_size_t x = nat (x mod 2 ^ 64)"

definition createBlockSelection :: "nat list \<Rightarrow> nat \<Rightarrow> nat \<Rightarrow> bool \<Rightarrow> user_selection" where
  "createBlockSelection varShape blockStart blockCount isFile =
     (let blockCounts = varShape[0 := blockCount];
          blockStarts = (replicate (length blockCounts) 0)[0 := blockStart];
          blockExtent = (if isFile then varShape else blockCounts)
      in Selection_select (SingleSelection_slab blockStarts blockCounts) (Selection_extent blockExtent Selection_new))"

text \<open>\<open>std::accumulate\<close> starts with the \<open>int\<close> 1, so every partial product is converted to \<open>int\<close>.\<close>

definition dim_factor :: "nat list \<Rightarrow> int" where
  "dim_factor srcDims = (if length srcDims > 1 then fold (\<lambda>d acc. to_int32 (acc * int d)) (tl srcDims) 1 else 1)"

definition calcVarStartsCounts :: "io_pool \<Rightarrow> nat list \<Rightarrow> nat list \<times> nat list \<times> int" where
  "calcVarStartsCounts p srcDims =
     (let dimFactor = dim_factor srcDims;
          start = (if rank_pool p \<ge> 0 then to_size_t (int (patch_nlocs p) * dimFactor) else 0);
          (varStarts, varCounts, _) = fold (\<lambda>rankAssignment (varStarts, varCounts, start).
            let count = (if rank_pool p \<ge> 0 then to_size_t (int (snd rankAssignment) * dimFactor)
                         else to_size_t (int (patch_nlocs p) * dimFactor))
            in (varStarts @ [start], varCounts @ [count], start + count)) (rank_assignment p) ([], [], start)
      in (varStarts, varCounts, dimFactor))"

definition selectPatchValues :: "io_pool \<Rightarrow> int \<Rightarrow> 'a list \<Rightarrow> 'a list" where
  "selectPatchValues p dimFactor totalVarData =
     fold (\<lambda>i varData. if patchObsVec p ! i
         then fold (\<lambda>j varData. varData @ [totalVarData ! (i * to_size_t dimFactor + j)]) [0..<to_size_t dimFactor] varData
         else varData) [0..<length (patchObsVec p)] []"

definition transfer_tag :: "nat \<Rightarrow> nat \<Rightarrow> nat" where
  "transfer_tag varNumber rank = 20000 + varNumber * 100 + rank"

text \<open>The messages that a rank outside the pool sends for a variable, and the requests of a rank of the pool.\<close>

definition transfer_sends :: "nat \<Rightarrow> io_pool \<Rightarrow> nat list \<Rightarrow> nat list \<Rightarrow> 'a list \<Rightarrow> 'a message list" where
  "transfer_sends varNumber p varStarts varCounts varData =
     (if rank_pool p \<ge> 0 then []
      else map (\<lambda>i. \<lparr> msg_from = rank_all p, msg_to = fst (rank_assignment p ! i), msg_tag = transfer_tag varNumber (rank_all p),
             msg_data = take (varCounts ! i) (drop (varStarts ! i) varData) \<rparr>) [0..<length (rank_assignment p)])"

definition transfer_receives :: "nat \<Rightarrow> io_pool \<Rightarrow> nat list \<Rightarrow> nat list \<Rightarrow> request list" where
  "transfer_receives varNumber p varStarts varCounts =
     (if rank_pool p \<ge> 0
      then map (\<lambda>i. \<lparr> req_from = fst (rank_assignment p ! i), req_to = rank_all p,
             req_tag = transfer_tag varNumber (fst (rank_assignment p ! i)), req_start = varStarts ! i, req_count = varCounts ! i \<rparr>)
             [0..<length (rank_assignment p)]
      else [])"

text \<open>What \<open>transferVarDataMPI\<close> starts with on all ranks: the patch values of each rank, resized on the ranks of the
  pool, and the messages and requests that are issued. \<open>dflt\<close> is the value of an element that \<open>resize\<close> creates.\<close>

definition transfer_local :: "'a \<Rightarrow> io_pool \<Rightarrow> nat list \<Rightarrow> 'a list \<Rightarrow> io_pool \<times> nat list \<times> nat list \<times> 'a list \<times> 'a list" where
  "transfer_local dflt p srcDims totalVarData =
     (let (varStarts, varCounts, dimFactor) = calcVarStartsCounts p srcDims;
          varData = selectPatchValues p dimFactor totalVarData
      in (p, varStarts, varCounts, varData,
          if rank_pool p \<ge> 0 then vec_resize (to_size_t (int (total_nlocs p) * dimFactor)) dflt varData else varData))"

definition transfer_start :: "nat \<Rightarrow> 'a \<Rightarrow> (io_pool \<times> nat list \<times> 'a list) list \<Rightarrow> 'a exchange_state" where
  "transfer_start varNumber dflt xs =
     (let locals = map (\<lambda>(p, srcDims, totalVarData). transfer_local dflt p srcDims totalVarData) xs
      in (concat (map (\<lambda>(p, starts, counts, varData, _). transfer_sends varNumber p starts counts varData) locals),
          concat (map (\<lambda>(p, starts, counts, _, _). transfer_receives varNumber p starts counts) locals),
          map (\<lambda>(_, _, _, _, buf). buf) locals))"

section \<open>The blocks of ranks\<close>

definition block_lo :: "nat \<Rightarrow> nat \<Rightarrow> nat \<Rightarrow> nat" where
  "block_lo n t i = i * (n div t) + min i (n mod t)"

lemma block_lo_0 [simp]: "block_lo n t 0 = 0"
  by (simp add: block_lo_def)

lemma block_lo_Suc: "block_lo n t (Suc i) = block_lo n t i + (n div t + (if i < n mod t then 1 else 0))"
  by (simp add: block_lo_def)

lemma block_lo_top: "0 < t \<Longrightarrow> block_lo n t t = n"
  using mod_less_divisor [of t n] mult_div_mod_eq [of t n] by (simp add: block_lo_def)

lemma block_lo_step: "0 < t \<Longrightarrow> t \<le> n \<Longrightarrow> block_lo n t i < block_lo n t (Suc i)"
  by (simp add: block_lo_Suc div_greater_zero_iff)

lemma block_lo_mono: "0 < t \<Longrightarrow> t \<le> n \<Longrightarrow> i < j \<Longrightarrow> block_lo n t i < block_lo n t j"
  by (rule lift_Suc_mono_less [of "block_lo n t"]) (rule block_lo_step)

lemma block_lo_less_iff: "0 < t \<Longrightarrow> t \<le> n \<Longrightarrow> block_lo n t i < block_lo n t j \<longleftrightarrow> i < j"
  using block_lo_mono [of t n i j] block_lo_mono [of t n j i] by (cases i j rule: linorder_cases) auto

lemma block_lo_eq_iff [simp]: "0 < t \<Longrightarrow> t \<le> n \<Longrightarrow> block_lo n t i = block_lo n t j \<longleftrightarrow> i = j"
  using block_lo_less_iff [of t n i j] block_lo_less_iff [of t n j i] by (cases i j rule: linorder_cases) auto

lemma block_lo_bound: "0 < t \<Longrightarrow> t \<le> n \<Longrightarrow> i < t \<Longrightarrow> block_lo n t i < n \<and> block_lo n t (Suc i) \<le> n"
  using block_lo_mono [of t n i t] block_lo_less_iff [of t n t "Suc i"] block_lo_top [of t n] by simp

lemma block_lo_blocks: "0 < t \<Longrightarrow> t \<le> n \<Longrightarrow> concat (map (\<lambda>i. [block_lo n t i..<block_lo n t (Suc i)]) [0..<j]) = [0..<block_lo n t j]"
proof (induction j)
  case (Suc j)
  have "block_lo n t j \<le> block_lo n t (Suc j)" using Suc.prems block_lo_step [of t n j] by simp
  then show ?case using Suc upt_add_eq_append [of 0 "block_lo n t j" "block_lo n t (Suc j) - block_lo n t j"] by simp
qed simp

lemma block_exists:
  assumes "0 < t" "t \<le> n" "r < n"
  obtains i where "i < t" "block_lo n t i \<le> r" "r < block_lo n t (Suc i)"
proof -
  have "r \<in> set (concat (map (\<lambda>i. [block_lo n t i..<block_lo n t (Suc i)]) [0..<t]))"
    using assms unfolding block_lo_blocks [OF assms(1,2)] by (simp add: block_lo_top)
  then show ?thesis using that by auto
qed

text \<open>The owners of the blocks, counted.\<close>

lemma block_owners:
  assumes "0 < t" "t \<le> n" "j \<le> t"
  shows "filter (\<lambda>q. q \<in> block_lo n t ` {..<t}) [0..<block_lo n t j] = map (block_lo n t) [0..<j]"
proof -
  let ?xs = "map (block_lo n t) [0..<j]"
  have "sorted_wrt (<) ?xs" using assms by (simp add: sorted_wrt_map sorted_wrt_iff_nth_less block_lo_less_iff)
  moreover have "set ?xs \<subseteq> {..<block_lo n t j}" using assms by (auto simp: block_lo_less_iff)
  ultimately have "?xs = filter (\<lambda>g. g \<in> set ?xs) [0..<block_lo n t j]" by (rule strict_sorted_as_filter)
  also have "\<dots> = filter (\<lambda>q. q \<in> block_lo n t ` {..<t}) [0..<block_lo n t j]"
    using assms by (intro filter_cong) (auto simp: block_lo_less_iff)
  finally show ?thesis ..
qed

definition blocks :: "nat \<Rightarrow> nat \<Rightarrow> (nat, nat list) std_map" where
  "blocks n t = map (\<lambda>i. (block_lo n t i, [block_lo n t i + 1..<block_lo n t (Suc i)])) [0..<t]"

lemma std_insert_last: "\<forall>k' \<in> set (map fst m). k' < k \<Longrightarrow> std_insert k v m = m @ [(k, v)]"
  by (induction m) auto

lemma groupRanks_blocks:
  assumes "0 < target_pool_size p" "target_pool_size p \<le> size_all p"
  shows "groupRanks p = blocks (size_all p) (target_pool_size p)"
proof -
  let ?n = "size_all p" and ?t = "target_pool_size p"
  let ?f = "\<lambda>i. (block_lo ?n ?t i, [block_lo ?n ?t i + 1..<block_lo ?n ?t (Suc i)])"
  have "fold (group_step (?n div ?t) (?n mod ?t)) [0..<j] (0, []) = (block_lo ?n ?t j, map ?f [0..<j])" for j
  proof (induction j)
    case (Suc j)
    have "std_insert (block_lo ?n ?t j) v (map ?f [0..<j]) = map ?f [0..<j] @ [(block_lo ?n ?t j, v)]" for v
      by (rule std_insert_last) (use assms in \<open>auto simp: block_lo_less_iff\<close>)
    note ins = this
    have "fold (group_step (?n div ?t) (?n mod ?t)) [0..<Suc j] (0, []) = group_step (?n div ?t) (?n mod ?t) j (block_lo ?n ?t j, map ?f [0..<j])"
      by (simp add: Suc)
    also have "\<dots> = (block_lo ?n ?t (Suc j), std_insert (block_lo ?n ?t j) [block_lo ?n ?t j + 1..<block_lo ?n ?t (Suc j)] (map ?f [0..<j]))"
      by (simp only: group_step_def prod.case Let_def block_lo_Suc)
    also have "\<dots> = (block_lo ?n ?t (Suc j), map ?f [0..<Suc j])" unfolding ins by simp
    finally show ?case .
  qed simp
  then show ?thesis by (simp add: groupRanks_def blocks_def)
qed

lemma blocks_cover: "0 < t \<Longrightarrow> t \<le> n \<Longrightarrow> concat (map (\<lambda>(p, rs). p # rs) (blocks n t)) = [0..<n]"
proof -
  assume t: "0 < t" "t \<le> n"
  have "concat (map (\<lambda>(p, rs). p # rs) (blocks n t)) = concat (map (\<lambda>i. [block_lo n t i..<block_lo n t (Suc i)]) [0..<t])"
    unfolding blocks_def map_map using block_lo_step [OF t] by (intro arg_cong [of _ _ concat] map_cong) (auto simp: upt_conv_Cons)
  then show ?thesis using t by (simp add: block_lo_blocks block_lo_top)
qed

section \<open>The assignment of ranks\<close>

lemma fold_assign_nth: "x < length v \<Longrightarrow> fold (\<lambda>r v. v[p r := f r]) rs v ! x = (if x \<in> p ` set rs then f (last (filter (\<lambda>r. p r = x) rs)) else v ! x)"
proof (induction rs arbitrary: v)
  case (Cons r rs)
  show ?case
  proof (cases "x \<in> p ` set rs")
    case True
    then have "filter (\<lambda>r. p r = x) rs \<noteq> []" by (auto simp: filter_empty_conv)
    then show ?thesis using Cons True by simp
  next
    case False
    then have "filter (\<lambda>r. p r = x) rs = []" by (auto simp: filter_empty_conv)
    then show ?thesis using Cons False by (auto simp: nth_list_update)
  qed
qed simp

lemma fold_assign_self: "x < length v \<Longrightarrow> fold (\<lambda>r v. v[r := f r]) rs v ! x = (if x \<in> set rs then f x else v ! x)"
  by (induction rs arbitrary: v) (auto simp: nth_list_update)

lemma length_fold_assign [simp]: "length (fold (\<lambda>r v. v[p r := f r]) rs v) = length v"
  by (induction rs arbitrary: v) auto

lemma assign_group_eq:
  "assign_group nl (p, rs) (ra, sz) =
     ((fold (\<lambda>r ra. ra[r := [(p, nl ! r)]]) rs ra)[p := map (\<lambda>r. (r, nl ! r)) rs], (fold (\<lambda>r sz. sz[r := 1]) rs sz)[p := length rs])"
proof -
  have "fold (\<lambda>r (ra, sz). (ra[r := [(p, nl ! r)]], sz[r := 1])) rs (ra, sz)
      = (fold (\<lambda>r ra. ra[r := [(p, nl ! r)]]) rs ra, fold (\<lambda>r sz. sz[r := 1]) rs sz)"
    by (induction rs arbitrary: ra sz) auto
  then show ?thesis by (simp add: assign_group_def)
qed

definition assigned_to :: "nat list \<Rightarrow> (nat, nat list) std_map \<Rightarrow> (nat \<times> nat) list list \<Rightarrow> nat list \<Rightarrow> bool" where
  "assigned_to nl gs ra sz \<longleftrightarrow> (\<forall>p rs. (p, rs) \<in> set gs \<longrightarrow> ra ! p = map (\<lambda>r. (r, nl ! r)) rs \<and> sz ! p = length rs \<and>
     (\<forall>r \<in> set rs. ra ! r = [(p, nl ! r)] \<and> sz ! r = 1))"

lemma assign_groups:
  assumes "distinct (concat (map (\<lambda>(p, rs). p # rs) gs))" "set (concat (map (\<lambda>(p, rs). p # rs) gs)) \<subseteq> {..<n}"
    "length ra = n" "length sz = n" "fold (assign_group nl) gs (ra, sz) = (ra', sz')"
  shows "length ra' = n \<and> length sz' = n \<and> assigned_to nl gs ra' sz'"
  using assms
proof (induction gs arbitrary: ra' sz' rule: rev_induct)
  case Nil
  then show ?case by (simp add: assigned_to_def)
next
  case (snoc g gs)
  obtain p rs where g: "g = (p, rs)" by (cases g)
  obtain ra1 sz1 where 1: "fold (assign_group nl) gs (ra, sz) = (ra1, sz1)" by (cases "fold (assign_group nl) gs (ra, sz)")
  have ih: "length ra1 = n" "length sz1 = n" "assigned_to nl gs ra1 sz1" using snoc.IH [OF _ _ _ _ 1] snoc.prems by simp_all
  have app: "concat (map (\<lambda>(p, rs). p # rs) (gs @ [g])) = concat (map (\<lambda>(p, rs). p # rs) gs) @ (p # rs)" by (simp add: g)
  have dis: "distinct (p # rs)" "set (p # rs) \<inter> set (concat (map (\<lambda>(p, rs). p # rs) gs)) = {}" "set (p # rs) \<subseteq> {..<n}"
    using snoc.prems(1,2) unfolding app distinct_append set_append by blast+
  have ra': "ra' = (fold (\<lambda>r ra. ra[r := [(p, nl ! r)]]) rs ra1)[p := map (\<lambda>r. (r, nl ! r)) rs]"
    and sz': "sz' = (fold (\<lambda>r sz. sz[r := 1]) rs sz1)[p := length rs]"
    using snoc.prems(5) by (simp_all add: 1 g assign_group_eq)
  have at: "x < n \<Longrightarrow> ra' ! x = (if x = p then map (\<lambda>r. (r, nl ! r)) rs else if x \<in> set rs then [(p, nl ! x)] else ra1 ! x)"
    "x < n \<Longrightarrow> sz' ! x = (if x = p then length rs else if x \<in> set rs then 1 else sz1 ! x)" for x
    using ih(1,2) by (simp_all add: ra' sz' nth_list_update fold_assign_self)
  have other: "ra' ! x = ra1 ! x" "sz' ! x = sz1 ! x" if "x \<in> set (concat (map (\<lambda>(p, rs). p # rs) gs))" for x
  proof -
    have "x < n" using that snoc.prems(2) unfolding app set_append by blast
    moreover have "x \<noteq> p" "x \<notin> set rs" using that dis(2) by (simp_all del: set_concat, blast+)
    ultimately show "ra' ! x = ra1 ! x" "sz' ! x = sz1 ! x" using at [of x] by simp_all
  qed
  have "assigned_to nl gs ra' sz'"
    unfolding assigned_to_def
  proof (intro allI impI)
    fix q qs assume q: "(q, qs) \<in> set gs"
    then have "x \<in> set (concat (map (\<lambda>(p, rs). p # rs) gs))" if "x = q \<or> x \<in> set qs" for x using that by auto
    then show "ra' ! q = map (\<lambda>r. (r, nl ! r)) qs \<and> sz' ! q = length qs \<and> (\<forall>r \<in> set qs. ra' ! r = [(q, nl ! r)] \<and> sz' ! r = 1)"
      using ih(3) q other unfolding assigned_to_def by simp
  qed
  moreover have "assigned_to nl [(p, rs)] ra' sz'" using at dis(1,3) by (auto simp: assigned_to_def)
  ultimately show ?case using ih(1,2) by (auto simp: assigned_to_def g ra' sz')
qed


definition ranked :: "io_pool list \<Rightarrow> bool" where
  "ranked ps \<longleftrightarrow> (\<forall>r < length ps. rank_all (ps ! r) = r)"

lemma mpi_pool_commD:
  assumes "mpi_pool_comm c"
  shows "comm_allGather c xs = xs" "comm_gather c xs = xs" "comm_scatter c xs = xs" "comm_broadcast c x = x" "comm_split c xs = split_ranks xs"
  using assms by (simp_all add: mpi_pool_comm_def)

lemma blocks_mem: "i < t \<Longrightarrow> (block_lo n t i, [block_lo n t i + 1..<block_lo n t (Suc i)]) \<in> set (blocks n t)"
  by (simp add: blocks_def)

lemma assignRanks_nth:
  assumes "mpi_pool_comm c" "ranked ps" "0 < t" "t \<le> length ps" "i < t"
  shows "assignRanksToIoPool c (blocks (length ps) t) ps ! block_lo (length ps) t i = (ps ! block_lo (length ps) t i)
      \<lparr> rank_assignment := map (\<lambda>r. (r, patch_nlocs (ps ! r))) [block_lo (length ps) t i + 1..<block_lo (length ps) t (Suc i)] \<rparr>"
    "block_lo (length ps) t i < r \<Longrightarrow> r < block_lo (length ps) t (Suc i) \<Longrightarrow>
     assignRanksToIoPool c (blocks (length ps) t) ps ! r = (ps ! r) \<lparr> rank_assignment := [(block_lo (length ps) t i, patch_nlocs (ps ! r))] \<rparr>"
proof -
  let ?n = "length ps" and ?nl = "map patch_nlocs ps"
  obtain ra sz where f: "fold (assign_group ?nl) (blocks ?n t) (replicate ?n [], replicate ?n 0) = (ra, sz)" by (metis surj_pair)
  have "distinct (concat (map (\<lambda>(p, rs). p # rs) (blocks ?n t)))" "set (concat (map (\<lambda>(p, rs). p # rs) (blocks ?n t))) \<subseteq> {..<?n}"
    unfolding blocks_cover [OF assms(3,4)] by auto
  from assign_groups [OF this _ _ f] have a: "assigned_to ?nl (blocks ?n t) ra sz" by simp
  note a = a [unfolded assigned_to_def, rule_format, OF blocks_mem [OF assms(5)]]
  have lo: "block_lo ?n t i < ?n" "block_lo ?n t (Suc i) \<le> ?n" using block_lo_bound [OF assms(3,4,5)] by auto
  have eq: "assignRanksToIoPool c (blocks ?n t) ps = map (\<lambda>p. p \<lparr> rank_assignment :=
      (if rank_all p = 0 then ra ! 0 else if sz ! rank_all p > 0 then take (sz ! rank_all p) (ra ! rank_all p) else []) \<rparr>) ps"
    by (simp add: assignRanksToIoPool_def mpi_pool_commD [OF assms(1)] f)
  have at: "r < ?n \<Longrightarrow> sz ! r = length (ra ! r) \<Longrightarrow> assignRanksToIoPool c (blocks ?n t) ps ! r = (ps ! r) \<lparr> rank_assignment := ra ! r \<rparr>" for r
    using assms(2) by (simp add: eq ranked_def)
  show "assignRanksToIoPool c (blocks ?n t) ps ! block_lo ?n t i = (ps ! block_lo ?n t i)
      \<lparr> rank_assignment := map (\<lambda>r. (r, patch_nlocs (ps ! r))) [block_lo ?n t i + 1..<block_lo ?n t (Suc i)] \<rparr>"
    using a at [OF lo(1)] lo by (simp cong: map_cong)
  assume r: "block_lo ?n t i < r" "r < block_lo ?n t (Suc i)"
  then show "assignRanksToIoPool c (blocks ?n t) ps ! r = (ps ! r) \<lparr> rank_assignment := [(block_lo ?n t i, patch_nlocs (ps ! r))] \<rparr>"
    using a at [of r] lo by simp
qed

lemma createIoPool_nth:
  assumes "mpi_pool_comm c" "ranked ps" "0 < t" "t \<le> length ps" "i < t"
  shows "createIoPool c (blocks (length ps) t) ps ! block_lo (length ps) t i = (ps ! block_lo (length ps) t i) \<lparr> rank_pool := int i, size_pool := int t \<rparr>"
    "block_lo (length ps) t i < r \<Longrightarrow> r < block_lo (length ps) t (Suc i) \<Longrightarrow>
     createIoPool c (blocks (length ps) t) ps ! r = (ps ! r) \<lparr> rank_pool := -1, size_pool := -1 \<rparr>"
proof -
  let ?n = "length ps" and ?lo = "block_lo (length ps) t"
  define cs where "cs = fold (\<lambda>rankGroup cs. cs[fst rankGroup := poolColor]) (blocks ?n t) (replicate ?n nonPoolColor)"
  have len: "length cs = ?n" by (simp add: cs_def)
  have keys: "fst ` set (blocks ?n t) = ?lo ` {..<t}" by (force simp: blocks_def)
  have cs: "cs ! x = (if x \<in> ?lo ` {..<t} then 1 else 2)" if "x < ?n" for x
    using that unfolding cs_def by (subst fold_assign_nth) (simp_all add: keys poolColor_def nonPoolColor_def)
  have lo: "?lo i < ?n" "?lo (Suc i) \<le> ?n" using block_lo_bound [OF assms(3,4,5)] by auto
  have eq: "createIoPool c (blocks ?n t) ps = map (\<lambda>p. if cs ! rank_all p = 2 then p \<lparr> rank_pool := -1, size_pool := -1 \<rparr>
      else p \<lparr> rank_pool := int (fst (split_ranks cs ! rank_all p)), size_pool := int (snd (split_ranks cs ! rank_all p)) \<rparr>) ps"
    unfolding createIoPool_def mpi_pool_commD [OF assms(1)] cs_def [symmetric] Let_def by (simp only: nonPoolColor_def)
  have owner: "cs ! ?lo i = 1" using lo assms(5) by (simp add: cs)
  have "length (filter (\<lambda>q. cs ! q = cs ! ?lo i) [0..<?lo i]) = length (filter (\<lambda>q. q \<in> ?lo ` {..<t}) [0..<?lo i])"
    unfolding owner using lo by (intro arg_cong [of _ _ length] filter_cong) (auto simp: cs)
  also have "\<dots> = i" using block_owners [OF assms(3,4), of i] assms(5) by simp
  finally have rk: "length (filter (\<lambda>q. cs ! q = cs ! ?lo i) [0..<?lo i]) = i" .
  have "length (filter (\<lambda>x. x = cs ! ?lo i) cs) = length (filter (\<lambda>x. x = 1) (map ((!) cs) [0..<?n]))"
    using owner len map_nth [of cs] by simp
  also have "\<dots> = length (filter (\<lambda>q. q \<in> ?lo ` {..<t}) [0..<?n])"
    unfolding filter_map length_map comp_def by (intro arg_cong [of _ _ length] filter_cong) (auto simp: cs)
  also have "\<dots> = t" using block_owners [OF assms(3,4), of t] assms(3) by (simp add: block_lo_top)
  finally have sz: "length (filter (\<lambda>x. x = cs ! ?lo i) cs) = t" .
  have "split_ranks cs ! ?lo i = (i, t)" using lo len rk sz by (simp add: split_ranks_def)
  then show "createIoPool c (blocks ?n t) ps ! ?lo i = (ps ! ?lo i) \<lparr> rank_pool := int i, size_pool := int t \<rparr>"
    using lo assms(2) owner by (simp add: eq ranked_def)
  assume r: "?lo i < r" "r < ?lo (Suc i)"
  have "r \<notin> ?lo ` {..<t}"
  proof
    assume "r \<in> ?lo ` {..<t}"
    then obtain j where "r = ?lo j" by auto
    then show False using r assms(3,4) by (simp add: block_lo_less_iff)
  qed
  then show "createIoPool c (blocks ?n t) ps ! r = (ps ! r) \<lparr> rank_pool := -1, size_pool := -1 \<rparr>"
    using r lo assms(2) cs by (simp add: eq ranked_def)
qed


lemma starts_loop:
  fixes T :: "nat list"
  assumes "j \<le> length T"
  shows "fold (\<lambda>i (glob, starts, start). (glob + T ! i, starts[i := start], start + T ! i)) [0..<j] (0, replicate (length T) 0, 0)
    = (sum_list (take j T), take j (exscan T) @ replicate (length T - j) 0, sum_list (take j T))"
  using assms
proof (induction j)
  case (Suc j)
  have e: "replicate (length T - j) 0 = 0 # replicate (length T - Suc j) (0 :: nat)"
    using Suc.prems by (metis Suc_diff_Suc Suc_le_lessD replicate_Suc)
  have "(take j (exscan T) @ 0 # replicate (length T - Suc j) 0)[j := x]
      = take j (exscan T) @ x # replicate (length T - Suc j) 0" for x
    using Suc.prems by (simp add: list_update_append)
  then show ?case using Suc by (simp add: e take_Suc_conv_app_nth)
qed simp

lemma collectSingleFileInfo_nth:
  assumes "mpi_pool_comm c" "0 < t" "t \<le> length ps" "\<And>i. i < t \<Longrightarrow> rank_pool (ps ! block_lo (length ps) t i) = int i"
    "\<And>i r. i < t \<Longrightarrow> block_lo (length ps) t i < r \<Longrightarrow> r < block_lo (length ps) t (Suc i) \<Longrightarrow> rank_pool (ps ! r) = -1"
  shows "i < t \<Longrightarrow> collectSingleFileInfo c ps ! block_lo (length ps) t i = (ps ! block_lo (length ps) t i)
      \<lparr> global_nlocs := sum_list (map (\<lambda>i. total_nlocs (ps ! block_lo (length ps) t i)) [0..<t]),
        nlocs_start := sum_list (map (\<lambda>i. total_nlocs (ps ! block_lo (length ps) t i)) [0..<i]) \<rparr>"
    "i < t \<Longrightarrow> block_lo (length ps) t i < r \<Longrightarrow> r < block_lo (length ps) t (Suc i) \<Longrightarrow> collectSingleFileInfo c ps ! r = ps ! r"
proof -
  let ?n = "length ps" and ?lo = "block_lo (length ps) t"
  have iff: "rank_pool (ps ! r) \<ge> 0 \<longleftrightarrow> r \<in> ?lo ` {..<t}" if r: "r < ?n" for r
  proof -
    obtain i where i: "i < t" "?lo i \<le> r" "r < ?lo (Suc i)" by (rule block_exists [OF assms(2,3) r])
    show ?thesis
    proof (cases "r = ?lo i")
      case False
      then have "?lo i < r" using i(2) by simp
      then have "r \<notin> ?lo ` {..<t}" using i(3) assms(2,3) by (auto simp: block_lo_less_iff)
      then show ?thesis using assms(5) [of i r] i False by simp
    qed (use i assms(4) in auto)
  qed
  have "filter (\<lambda>p. rank_pool p \<ge> 0) ps = map ((!) ps) (filter (\<lambda>r. rank_pool (ps ! r) \<ge> 0) [0..<?n])"
    using filter_map [of "\<lambda>p. rank_pool p \<ge> 0" "(!) ps" "[0..<?n]"] map_nth [of ps] by (simp add: comp_def)
  also have "filter (\<lambda>r. rank_pool (ps ! r) \<ge> 0) [0..<?n] = filter (\<lambda>r. r \<in> ?lo ` {..<t}) [0..<?n]"
    by (rule filter_cong) (simp_all add: iff)
  also have "\<dots> = map ?lo [0..<t]" using block_owners [OF assms(2,3), of t] assms(2) by (simp add: block_lo_top)
  finally have members: "map total_nlocs (filter (\<lambda>p. rank_pool p \<ge> 0) ps) = map (\<lambda>i. total_nlocs (ps ! ?lo i)) [0..<t]"
    by simp
  let ?T = "map (\<lambda>i. total_nlocs (ps ! ?lo i)) [0..<t]"
  have ev: "collectSingleFileInfo c ps = map (\<lambda>p. if rank_pool p \<ge> 0
      then p \<lparr> global_nlocs := sum_list ?T, nlocs_start := exscan ?T ! nat (rank_pool p) \<rparr> else p) ps"
    unfolding collectSingleFileInfo_def mpi_pool_commD [OF assms(1)] members Let_def starts_loop [OF order_refl] prod.case by simp
  show "i < t \<Longrightarrow> collectSingleFileInfo c ps ! ?lo i = (ps ! ?lo i) \<lparr> global_nlocs := sum_list ?T,
      nlocs_start := sum_list (map (\<lambda>i. total_nlocs (ps ! ?lo i)) [0..<i]) \<rparr>"
    using block_lo_bound [OF assms(2,3), of i] assms(4) [of i] by (simp add: ev take_map)
  show "i < t \<Longrightarrow> ?lo i < r \<Longrightarrow> r < ?lo (Suc i) \<Longrightarrow> collectSingleFileInfo c ps ! r = ps ! r"
    using block_lo_bound [OF assms(2,3), of i] assms(5) [of i r] by (simp add: ev)
qed

text \<open>The members of the pool objects when the constructor returns.\<close>

definition patch_count :: "bool list list \<Rightarrow> nat \<Rightarrow> nat" where
  "patch_count patches r = length (filter id (patches ! r))"

definition pool_size :: "int \<Rightarrow> nat \<Rightarrow> nat" where
  "pool_size maxPoolSize n = nat (min (int n) (if maxPoolSize > 0 then maxPoolSize else 10))"

definition owner_state :: "bool \<Rightarrow> bool list list \<Rightarrow> nat \<Rightarrow> nat \<Rightarrow> io_pool" where
  "owner_state multi patches t i =
     (let n = length patches; lo = block_lo n t i; hi = block_lo n t (Suc i)
      in \<lparr> rank_all = lo, size_all = n, target_pool_size = t, pool_nlocs = length (patches ! lo), patch_nlocs = patch_count patches lo,
           total_nlocs = sum_list (map (patch_count patches) [lo..<hi]), global_nlocs = sum_list (map (patch_count patches) [0..<n]),
           nlocs_start = sum_list (map (patch_count patches) [0..<lo]), rank_pool = int i, size_pool = int t,
           rank_assignment = map (\<lambda>r. (r, patch_count patches r)) [lo + 1..<hi], patchObsVec = patches ! lo,
           is_parallel_io = (\<not> multi \<and> 1 < t), create_multiple_files = (multi \<and> 1 < t) \<rparr>)"

definition sender_state :: "bool list list \<Rightarrow> nat \<Rightarrow> nat \<Rightarrow> nat \<Rightarrow> io_pool" where
  "sender_state patches t i r = \<lparr> rank_all = r, size_all = length patches, target_pool_size = t, pool_nlocs = length (patches ! r),
     patch_nlocs = patch_count patches r, total_nlocs = 0, global_nlocs = 0, nlocs_start = 0, rank_pool = -1, size_pool = -1,
     rank_assignment = [(block_lo (length patches) t i, patch_count patches r)], patchObsVec = patches ! r,
     is_parallel_io = False, create_multiple_files = False \<rparr>"

lemma pool_size_bounds: "0 < n \<Longrightarrow> 0 < pool_size m n \<and> pool_size m n \<le> n"
  by (auto simp: pool_size_def)

lemma sum_block_totals:
  assumes "0 < t" "t \<le> n"
  shows "sum_list (map (\<lambda>i. sum_list (map f [block_lo n t i..<block_lo n t (Suc i)])) [0..<j]) = (sum_list (map f [0..<block_lo n t j]) :: nat)"
  unfolding block_lo_blocks [OF assms, of j, symmetric] by (simp add: map_concat sum_list_concat comp_def)

lemma length_stages [simp]:
  "length (setTargetPoolSize c m ps) = length ps" "length (assignRanksToIoPool c g ps) = length ps" "length (createIoPool c g ps) = length ps"
  "length (collectSingleFileInfo c ps) = length ps"
  by (simp_all add: setTargetPoolSize_def assignRanksToIoPool_def createIoPool_def collectSingleFileInfo_def Let_def split_def)

lemma ranked_assign: "ranked ps \<Longrightarrow> ranked (assignRanksToIoPool c g ps)"
  by (simp add: ranked_def assignRanksToIoPool_def Let_def split_def)

lemma fold_add_counts: "fold (\<lambda>a n. n + snd a) (map (\<lambda>r. (r, f r)) rs) x = x + (sum_list (map f rs) :: nat)"
  by (induction rs arbitrary: x) auto


lemma WriterPool_nth:
  fixes maxPoolSize :: int
  assumes "mpi_pool_comm c" "patches \<noteq> []"
  defines "n \<equiv> length patches" and "t \<equiv> pool_size maxPoolSize (length patches)"
  shows "length (WriterPool c maxPoolSize multi patches) = n"
    "i < t \<Longrightarrow> WriterPool c maxPoolSize multi patches ! block_lo n t i = owner_state multi patches t i"
    "i < t \<Longrightarrow> block_lo n t i < r \<Longrightarrow> r < block_lo n t (Suc i) \<Longrightarrow> WriterPool c maxPoolSize multi patches ! r = sender_state patches t i r"
proof -
  have n: "0 < n" using assms(2) by (simp add: n_def)
  have t: "0 < t" "t \<le> n" using pool_size_bounds [OF n] by (simp_all add: t_def n_def)
  define ps0 where "ps0 = map (\<lambda>r. (IoPoolBase r n (patches ! r)) \<lparr> target_pool_size := t \<rparr>) [0..<n]"
  have 0: "setTargetPoolSize c maxPoolSize (map (\<lambda>r. IoPoolBase r (length patches) (patches ! r)) [0..<length patches]) = ps0"
    using n by (auto simp: setTargetPoolSize_def mpi_pool_commD [OF assms(1)] ps0_def t_def pool_size_def n_def IoPoolBase_def defaultMaxPoolSize_def Let_def)
  have len: "length ps0 = n" by (simp add: ps0_def)
  have at0: "ps0 ! r = (IoPoolBase r n (patches ! r)) \<lparr> target_pool_size := t \<rparr>" if "r < n" for r using that by (simp add: ps0_def)
  have g: "groupRanks (ps0 ! 0) = blocks n t"
    using groupRanks_blocks [of "ps0 ! 0"] t n by (simp add: at0 IoPoolBase_def)
  define ps1 where "ps1 = assignRanksToIoPool c (blocks n t) ps0"
  define ps2 where "ps2 = createIoPool c (blocks n t) ps1"
  define ps3 where "ps3 = map setTotalNlocs ps2"
  have lens: "length ps1 = n" "length ps2 = n" "length ps3 = n" by (simp_all add: ps1_def ps2_def ps3_def len)
  have W: "WriterPool c maxPoolSize multi patches = map (setFlags multi) (collectSingleFileInfo c ps3)"
    unfolding WriterPool_def 0 Let_def g ps1_def [symmetric] ps2_def [symmetric] ps3_def [symmetric] ..
  have r0: "ranked ps0" by (simp add: ranked_def len at0 IoPoolBase_def)
  have r1: "ranked ps1" unfolding ps1_def by (rule ranked_assign [OF r0])
  have bound: "block_lo n t i < n" "block_lo n t (Suc i) \<le> n" if "i < t" for i using block_lo_bound [OF t that] by auto
  have pc: "patch_nlocs (ps0 ! r) = patch_count patches r" if "r < n" for r using that by (simp add: at0 IoPoolBase_def patch_count_def)
  have own: "ps3 ! block_lo n t i = (ps0 ! block_lo n t i)
      \<lparr> rank_assignment := map (\<lambda>r. (r, patch_count patches r)) [block_lo n t i + 1..<block_lo n t (Suc i)], rank_pool := int i, size_pool := int t,
        total_nlocs := sum_list (map (patch_count patches) [block_lo n t i..<block_lo n t (Suc i)]) \<rparr>" if i: "i < t" for i
  proof -
    have m: "map (\<lambda>r. (r, patch_nlocs (ps0 ! r))) [block_lo n t i + 1..<block_lo n t (Suc i)] = map (\<lambda>r. (r, patch_count patches r)) [block_lo n t i + 1..<block_lo n t (Suc i)]"
      using bound(2) [OF i] by (intro map_cong) (simp_all add: pc)
    have s: "[block_lo n t i..<block_lo n t (Suc i)] = block_lo n t i # [block_lo n t i + 1..<block_lo n t (Suc i)]"
      using block_lo_step [OF t, of i] by (simp add: upt_conv_Cons)
    have "ps1 ! block_lo n t i = (ps0 ! block_lo n t i)
        \<lparr> rank_assignment := map (\<lambda>r. (r, patch_count patches r)) [block_lo n t i + 1..<block_lo n t (Suc i)] \<rparr>"
      using assignRanks_nth(1) [OF assms(1) r0 t(1) _ i] t(2) unfolding len ps1_def [symmetric] m by simp
    then show ?thesis
      using createIoPool_nth(1) [OF assms(1) r1 t(1) _ i] bound(1) [OF i] t(2)
      by (simp add: ps3_def ps2_def lens len setTotalNlocs_def s fold_add_counts pc)
  qed
  have snd: "ps3 ! r = (ps0 ! r) \<lparr> rank_assignment := [(block_lo n t i, patch_count patches r)], rank_pool := -1, size_pool := -1, total_nlocs := 0 \<rparr>"
    if i: "i < t" and r: "block_lo n t i < r" "r < block_lo n t (Suc i)" for i r
    using createIoPool_nth(2) [OF assms(1) r1 t(1) _ i, of r] assignRanks_nth(2) [OF assms(1) r0 t(1) _ i, of r] bound(2) [OF i] t r
    by (simp add: ps3_def ps2_def lens len setTotalNlocs_def pc flip: ps1_def)
  have rp: "rank_pool (ps3 ! block_lo (length ps3) t i) = int i" if "i < t" for i using own [OF that] by (simp add: lens)
  have rn: "rank_pool (ps3 ! r) = -1" if "i < t" "block_lo (length ps3) t i < r" "r < block_lo (length ps3) t (Suc i)" for i r
    using snd [OF that(1)] that(2,3) by (simp add: lens)
  have tot: "map (\<lambda>i. total_nlocs (ps3 ! block_lo n t i)) [0..<j] = map (\<lambda>i. sum_list (map (patch_count patches) [block_lo n t i..<block_lo n t (Suc i)])) [0..<j]"
    if "j \<le> t" for j using that by (intro map_cong) (simp_all add: own)
  have coll: "i < t \<Longrightarrow> collectSingleFileInfo c ps3 ! block_lo n t i = (ps3 ! block_lo n t i)
      \<lparr> global_nlocs := sum_list (map (\<lambda>i. total_nlocs (ps3 ! block_lo n t i)) [0..<t]),
        nlocs_start := sum_list (map (\<lambda>i. total_nlocs (ps3 ! block_lo n t i)) [0..<i]) \<rparr>"
    "i < t \<Longrightarrow> block_lo n t i < r \<Longrightarrow> r < block_lo n t (Suc i) \<Longrightarrow> collectSingleFileInfo c ps3 ! r = ps3 ! r" for i r
    using collectSingleFileInfo_nth [OF assms(1) t(1), of ps3] rp rn t(2) unfolding lens by blast+
  show "length (WriterPool c maxPoolSize multi patches) = n" by (simp add: W lens)
  show "WriterPool c maxPoolSize multi patches ! block_lo n t i = owner_state multi patches t i" if i: "i < t"
    using bound(1) [OF i] i coll(1) [OF i] own [OF i] at0 [OF bound(1) [OF i]]
    by (simp add: W lens tot sum_block_totals [OF t] block_lo_top [OF t(1)] owner_state_def Let_def setFlags_def IoPoolBase_def patch_count_def flip: n_def)
  show "WriterPool c maxPoolSize multi patches ! r = sender_state patches t i r" if "i < t" "block_lo n t i < r" "r < block_lo n t (Suc i)"
    using bound(2) [OF that(1)] that coll(2) [OF that] snd [OF that] at0 [of r]
    by (simp add: W lens sender_state_def setFlags_def IoPoolBase_def patch_count_def flip: n_def)
qed


section \<open>Delivery in any order\<close>

lemma length_overwrite: "s + length ys \<le> length xs \<Longrightarrow> length (overwrite s ys xs) = length xs"
  by (simp add: overwrite_def)

lemma overwrite_in: "s + length ys \<le> length xs \<Longrightarrow> j < length ys \<Longrightarrow> overwrite s ys xs ! (s + j) = ys ! j"
  by (simp add: overwrite_def nth_append)

lemma overwrite_out: "s + length ys \<le> length xs \<Longrightarrow> k < length xs \<Longrightarrow> k < s \<or> s + length ys \<le> k \<Longrightarrow> overwrite s ys xs ! k = xs ! k"
  by (auto simp: overwrite_def nth_append)

definition req_key :: "request \<Rightarrow> nat \<times> nat \<times> nat" where
  "req_key q = (req_from q, req_to q, req_tag q)"

lemma matches_key: "matches q m \<longleftrightarrow> req_key q = (msg_from m, msg_to m, msg_tag m)"
  by (auto simp: matches_def req_key_def)

text \<open>Requests that can all be served: each has a message, every message it matches carries the same data, and the places of
  two requests in a buffer do not overlap.\<close>

definition exchange_ok :: "(request \<Rightarrow> 'a list) \<Rightarrow> 'a exchange_state \<Rightarrow> bool" where
  "exchange_ok data s \<longleftrightarrow> (case s of (net, reqs, bufs) \<Rightarrow>
     distinct (map req_key reqs) \<and>
     (\<forall>q \<in> set reqs. req_to q < length bufs \<and> req_start q + req_count q \<le> length (bufs ! req_to q) \<and> length (data q) = req_count q) \<and>
     (\<forall>q \<in> set reqs. \<exists>m \<in> set net. matches q m) \<and> (\<forall>q \<in> set reqs. \<forall>m \<in> set net. matches q m \<longrightarrow> msg_data m = data q) \<and>
     (\<forall>q \<in> set reqs. \<forall>q' \<in> set reqs. q \<noteq> q' \<longrightarrow> req_to q = req_to q' \<longrightarrow>
        req_start q + req_count q \<le> req_start q' \<or> req_start q' + req_count q' \<le> req_start q))"

definition served :: "(request \<Rightarrow> 'a list) \<Rightarrow> request set \<Rightarrow> request set \<Rightarrow> 'a list list \<Rightarrow> 'a list list \<Rightarrow> bool" where
  "served data R D bufs0 bufs \<longleftrightarrow> map length bufs = map length bufs0 \<and>
     (\<forall>q \<in> D. \<forall>j < req_count q. bufs ! req_to q ! (req_start q + j) = data q ! j) \<and>
     (\<forall>p < length bufs0. \<forall>k < length (bufs0 ! p). (\<forall>q \<in> R. req_to q = p \<longrightarrow> k < req_start q \<or> req_start q + req_count q \<le> k) \<longrightarrow>
        bufs ! p ! k = bufs0 ! p ! k)"

lemma exchange_ok_request:
  assumes "exchange_ok data (net, reqs, bufs)" "q \<in> set reqs"
  shows "req_to q < length bufs" "req_start q + req_count q \<le> length (bufs ! req_to q)" "length (data q) = req_count q"
    "m \<in> set net \<Longrightarrow> matches q m \<Longrightarrow> msg_data m = data q"
  using assms by (auto simp: exchange_ok_def)

lemma exchange_ok_step:
  assumes ok: "exchange_ok data (net, reqs, bufs)" and m: "m \<in> set net" and q: "q \<in> set reqs" and mt: "matches q m"
  shows "exchange_ok data (remove1 m net, remove1 q reqs, bufs[req_to q := overwrite (req_start q) (msg_data m) (bufs ! req_to q)])"
proof -
  let ?bufs = "bufs[req_to q := overwrite (req_start q) (msg_data m) (bufs ! req_to q)]"
  have dk: "distinct (map req_key reqs)" using ok by (simp add: exchange_ok_def)
  then have dr: "distinct reqs" by (simp add: distinct_map)
  have rest: "set (remove1 q reqs) = set reqs - {q}" using dr by simp
  note q' = exchange_ok_request [OF ok q]
  have len: "length (bufs ! req_to q) = length (overwrite (req_start q) (msg_data m) (bufs ! req_to q))"
    using q'(2,3) q'(4) [OF m mt] by (simp add: length_overwrite)
  have bl: "length (?bufs ! p) = length (bufs ! p)" for p
    using q'(1) by (cases "p = req_to q") (simp_all add: len)
  have sub: "set (remove1 m net) \<subseteq> set net" by (rule set_remove1_subset)
  have ex: "\<exists>m' \<in> set (remove1 m net). matches x m'" if x: "x \<in> set (remove1 q reqs)" for x
  proof -
    have xr: "x \<in> set reqs" "x \<noteq> q" using x rest by auto
    then obtain m' where m': "m' \<in> set net" "matches x m'" using ok unfolding exchange_ok_def by auto
    have "req_key x \<noteq> req_key q" using dk xr q by (auto simp: distinct_map inj_on_def)
    then have "m' \<noteq> m" using m'(2) mt by (auto simp: matches_key)
    then show ?thesis using m' by auto
  qed
  have dis: "distinct (map req_key (remove1 q reqs))" using dk dr by (auto simp: distinct_map inj_on_def)
  have fit: "\<forall>x \<in> set (remove1 q reqs). req_to x < length ?bufs \<and> req_start x + req_count x \<le> length (?bufs ! req_to x) \<and> length (data x) = req_count x"
    unfolding bl using ok rest by (simp add: exchange_ok_def)
  have dat: "\<forall>x \<in> set (remove1 q reqs). \<forall>m' \<in> set (remove1 m net). matches x m' \<longrightarrow> msg_data m' = data x"
    using ok sub unfolding exchange_ok_def prod.case rest by blast
  have disj: "\<forall>x \<in> set (remove1 q reqs). \<forall>y \<in> set (remove1 q reqs). x \<noteq> y \<longrightarrow> req_to x = req_to y \<longrightarrow>
      req_start x + req_count x \<le> req_start y \<or> req_start y + req_count y \<le> req_start x"
    using ok unfolding exchange_ok_def prod.case rest by (elim conjE) blast
  show ?thesis unfolding exchange_ok_def prod.case using dis fit ex dat disj by (intro conjI ballI) simp_all
qed

lemma served_step:
  assumes ok: "exchange_ok data (net, reqs, bufs)" and m: "m \<in> set net" and q: "q \<in> set reqs" and mt: "matches q m"
    and sv: "served data R (R - set reqs) bufs0 bufs" and R: "set reqs \<subseteq> R"
    and disj: "\<forall>q \<in> R. \<forall>q' \<in> R. q \<noteq> q' \<longrightarrow> req_to q = req_to q' \<longrightarrow>
        req_start q + req_count q \<le> req_start q' \<or> req_start q' + req_count q' \<le> req_start q"
    and fit: "\<forall>q \<in> R. req_start q + req_count q \<le> length (bufs0 ! req_to q)"
  shows "served data R (R - set (remove1 q reqs)) bufs0 (bufs[req_to q := overwrite (req_start q) (msg_data m) (bufs ! req_to q)])"
proof -
  let ?sp = "overwrite (req_start q) (msg_data m) (bufs ! req_to q)"
  have dr: "distinct reqs" using ok by (auto simp: exchange_ok_def distinct_map)
  note q' = exchange_ok_request [OF ok q]
  have dat: "msg_data m = data q" using q'(4) [OF m mt] .
  have fits: "req_start q + length (msg_data m) \<le> length (bufs ! req_to q)" using q' dat by simp
  have lens: "length bufs = length bufs0" "\<And>p. p < length bufs0 \<Longrightarrow> length (bufs ! p) = length (bufs0 ! p)"
    using sv unfolding served_def list_eq_iff_nth_eq by auto
  have "map length (bufs[req_to q := ?sp]) = map length (bufs[req_to q := bufs ! req_to q])"
    unfolding map_update length_overwrite [OF fits] ..
  then have "map length (bufs[req_to q := ?sp]) = map length bufs0" using sv by (simp add: served_def)
  moreover have "bufs[req_to q := ?sp] ! req_to x ! (req_start x + j) = data x ! j"
    if x: "x \<in> R - set (remove1 q reqs)" and j: "j < req_count x" for x j
  proof (cases "x = q")
    case True
    then show ?thesis using j q' dat overwrite_in [OF fits, of j] by simp
  next
    case False
    then have xR: "x \<in> R - set reqs" "x \<in> R" "q \<in> R" using x dr q R by auto
    have old: "bufs ! req_to x ! (req_start x + j) = data x ! j" using sv xR(1) j unfolding served_def by blast
    show ?thesis
    proof (cases "req_to x = req_to q")
      case True
      have "req_start x + req_count x \<le> req_start q \<or> req_start q + req_count q \<le> req_start x"
        using disj xR(2,3) False True by blast
      then have "req_start x + j < req_start q \<or> req_start q + length (msg_data m) \<le> req_start x + j" using j q'(3) dat by auto
      moreover have "req_start x + j < length (bufs ! req_to q)"
        using fit xR(2) j True lens(2) [of "req_to q"] lens(1) q'(1) by fastforce
      ultimately show ?thesis using overwrite_out [OF fits, of "req_start x + j"] old q'(1) True by simp
    qed (use old in simp)
  qed
  moreover have "bufs[req_to q := ?sp] ! p ! k = bufs0 ! p ! k"
    if p: "p < length bufs0" "k < length (bufs0 ! p)" and out: "\<forall>q \<in> R. req_to q = p \<longrightarrow> k < req_start q \<or> req_start q + req_count q \<le> k" for p k
  proof -
    have old: "bufs ! p ! k = bufs0 ! p ! k" using sv p out unfolding served_def by blast
    show ?thesis
    proof (cases "p = req_to q")
      case True
      have "k < req_start q \<or> req_start q + length (msg_data m) \<le> k" using out q R True q'(3) dat by auto
      then show ?thesis using overwrite_out [OF fits, of k] old True q'(1) p lens(2) by simp
    qed (use old in simp)
  qed
  ultimately show ?thesis unfolding served_def by blast
qed

lemma deliver_served:
  assumes "deliver\<^sup>*\<^sup>* (net0, reqs0, bufs0) s" "exchange_ok data (net0, reqs0, bufs0)"
  shows "case s of (net, reqs, bufs) \<Rightarrow> exchange_ok data s \<and> set reqs \<subseteq> set reqs0 \<and> served data (set reqs0) (set reqs0 - set reqs) bufs0 bufs"
  using assms(1)
proof (induction rule: rtranclp_induct)
  case base
  then show ?case using assms(2) by (simp add: served_def)
next
  case (step s s')
  obtain net reqs bufs where s: "s = (net, reqs, bufs)" by (cases s)
  have disj: "\<forall>q \<in> set reqs0. \<forall>q' \<in> set reqs0. q \<noteq> q' \<longrightarrow> req_to q = req_to q' \<longrightarrow>
      req_start q + req_count q \<le> req_start q' \<or> req_start q' + req_count q' \<le> req_start q"
    "\<forall>q \<in> set reqs0. req_start q + req_count q \<le> length (bufs0 ! req_to q)"
    using assms(2) unfolding exchange_ok_def by auto
  from step.hyps(2) obtain m q where st: "m \<in> set net" "q \<in> set reqs" "matches q m"
    "s' = (remove1 m net, remove1 q reqs, bufs[req_to q := overwrite (req_start q) (msg_data m) (bufs ! req_to q)])"
    unfolding s by (rule deliverE)
  have ih: "exchange_ok data (net, reqs, bufs)" "set reqs \<subseteq> set reqs0" "served data (set reqs0) (set reqs0 - set reqs) bufs0 bufs"
    using step.IH by (simp_all add: s)
  show ?case
    using exchange_ok_step [OF ih(1) st(1,2,3)] served_step [OF ih(1) st(1,2,3) ih(3,2) disj] ih(2) set_remove1_subset [of q reqs]
    unfolding st(4) by auto
qed

text \<open>No run gets stuck: while a request is left, some message can be delivered.\<close>

lemma deliver_completes:
  "exchange_ok data (net, reqs, bufs) \<Longrightarrow> \<exists>net' bufs'. deliver\<^sup>*\<^sup>* (net, reqs, bufs) (net', [], bufs')"
proof (induction "length reqs" arbitrary: net reqs bufs)
  case 0
  then show ?case by auto
next
  case (Suc n)
  then obtain q qs where reqs: "reqs = q # qs" by (cases reqs) auto
  then obtain m where m: "m \<in> set net" "matches q m" using Suc.prems unfolding exchange_ok_def by auto
  have q: "q \<in> set reqs" by (simp add: reqs)
  have "length (msg_data m) \<le> req_count q"
    using exchange_ok_request(4) [OF Suc.prems q m] exchange_ok_request(3) [OF Suc.prems q] by simp
  then have st: "deliver (net, reqs, bufs) (remove1 m net, remove1 q reqs, bufs[req_to q := overwrite (req_start q) (msg_data m) (bufs ! req_to q)])"
    using m q by (intro deliver.deliver)
  have "n = length (remove1 q reqs)" using Suc.hyps(2) by (simp add: reqs)
  from Suc.hyps(1) [OF this exchange_ok_step [OF Suc.prems m(1) q m(2)]] show ?case
    using st by (meson converse_rtranclp_into_rtranclp)
qed


section \<open>What is sent and where it is put\<close>

lemma to_int32_small: "x < 2 ^ 31 \<Longrightarrow> to_int32 (int x) = int x"
  by (simp add: to_int32_def)

lemma to_int32_cong: "x mod 2 ^ 32 = y mod 2 ^ 32 \<Longrightarrow> to_int32 x = to_int32 y"
  unfolding to_int32_def by (simp add: mod_add_cong)

lemma to_int32_mod: "to_int32 x mod 2 ^ 32 = x mod 2 ^ 32"
  unfolding to_int32_def by (simp add: mod_diff_left_eq)

lemma dim_factor_eq: "dim_factor (n # ds) = to_int32 (int (prod_list ds))"
proof -
  have "fold (\<lambda>d acc. to_int32 (acc * int d)) ds (to_int32 x) = to_int32 (x * int (prod_list ds))" for x
  proof (induction ds arbitrary: x)
    case (Cons d ds)
    have "to_int32 (to_int32 x * int d) = to_int32 (x * int d)"
      by (rule to_int32_cong) (rule mod_mult_cong [OF to_int32_mod refl])
    then show ?case using Cons [of "x * int d"] by (simp add: mult.assoc)
  qed simp
  from this [of 1] show ?thesis by (cases ds) (simp_all add: dim_factor_def to_int32_def)
qed

lemma to_size_t_small: "x < 2 ^ 64 \<Longrightarrow> to_size_t (int x) = x"
  by (simp add: to_size_t_def)

definition patch_rows :: "nat \<Rightarrow> bool list \<Rightarrow> 'a list \<Rightarrow> 'a list" where
  "patch_rows w patch data = rows_at w (filter ((!) patch) [0..<length patch]) data"

lemma length_patch_rows: "length (patch_rows w patch data) = length (filter id patch) * w"
proof -
  have "length (filter ((!) patch) [0..<length patch]) = length (filter id (map ((!) patch) [0..<length patch]))"
    by (simp add: filter_map comp_def)
  then show ?thesis by (simp add: patch_rows_def map_nth mult.commute)
qed

lemma selectPatchValues_rows:
  assumes "w < 2 ^ 64"
  shows "selectPatchValues p (int w) data = patch_rows w (patchObsVec p) data"
proof -
  have push: "fold (\<lambda>j v. v @ [data ! (i * w + j)]) js acc = acc @ map (\<lambda>j. data ! (i * w + j)) js" for i js acc
    by (induction js arbitrary: acc) auto
  have "fold (\<lambda>i v. if patchObsVec p ! i then fold (\<lambda>j v. v @ [data ! (i * w + j)]) [0..<w] v else v) is acc
      = acc @ rows_at w (filter ((!) (patchObsVec p)) is) data" for "is" acc
    by (induction "is" arbitrary: acc) (simp_all add: push rows_at_def datum_indices_def)
  from this [of "[0..<length (patchObsVec p)]" "[]"] show ?thesis
    unfolding selectPatchValues_def to_size_t_small [OF assms] patch_rows_def by simp
qed

lemma starts_counts_loop:
  "fold (\<lambda>a (ss, cs, s). let count = f a in (ss @ [s], cs @ [count], s + count)) as (ss, cs, s)
    = (ss @ map (\<lambda>i. s + sum_list (map f (take i as))) [0..<length as], cs @ map f as, s + (sum_list (map f as) :: nat))"
proof (induction "as" arbitrary: ss cs s)
  case (Cons a as)
  have "[0..<length (a # as)] = 0 # map Suc [0..<length as]" by (simp add: map_Suc_upt upt_conv_Cons del: upt_Suc)
  then show ?case using Cons [of "ss @ [s]" "cs @ [f a]" "s + f a"] by (simp add: Let_def add.assoc comp_def del: upt_Suc)
qed simp

lemma sum_list_times: "sum_list (map (\<lambda>x. f x * c) xs) = sum_list (map f xs) * (c :: nat)"
  by (induction xs) (simp_all add: add_mult_distrib)


text \<open>For one variable whose rows have \<open>w\<close> elements: \<open>dat r\<close> are the data of rank \<open>r\<close>, \<open>own r\<close> its patch rows.\<close>

definition block_request :: "nat \<Rightarrow> nat \<Rightarrow> bool list list \<Rightarrow> nat \<Rightarrow> nat \<Rightarrow> nat \<Rightarrow> request" where
  "block_request varNumber w patches t i r = \<lparr> req_from = r, req_to = block_lo (length patches) t i, req_tag = transfer_tag varNumber r,
     req_start = sum_list (map (patch_count patches) [block_lo (length patches) t i..<r]) * w, req_count = patch_count patches r * w \<rparr>"

definition block_message :: "nat \<Rightarrow> nat \<Rightarrow> bool list list \<Rightarrow> (nat \<Rightarrow> 'a list) \<Rightarrow> nat \<Rightarrow> nat \<Rightarrow> nat \<Rightarrow> 'a message" where
  "block_message varNumber w patches dat t i r = \<lparr> msg_from = r, msg_to = block_lo (length patches) t i, msg_tag = transfer_tag varNumber r,
     msg_data = patch_rows w (patches ! r) (dat r) \<rparr>"

lemma calc_owner:
  assumes "prod_list ds < 2 ^ 31" "sum_list (map (patch_count patches) [0..<length patches]) * prod_list ds < 2 ^ 64"
    "0 < t" "t \<le> length patches" "i < t"
  shows "transfer_receives vn (owner_state multi patches t i) (fst (calcVarStartsCounts (owner_state multi patches t i) (k # ds)))
      (fst (snd (calcVarStartsCounts (owner_state multi patches t i) (k # ds))))
    = map (block_request vn (prod_list ds) patches t i) [block_lo (length patches) t i + 1..<block_lo (length patches) t (Suc i)]"
    "snd (snd (calcVarStartsCounts (owner_state multi patches t i) (k # ds))) = int (prod_list ds)"
    "to_size_t (int (total_nlocs (owner_state multi patches t i)) * int (prod_list ds))
      = sum_list (map (patch_count patches) [block_lo (length patches) t i..<block_lo (length patches) t (Suc i)]) * prod_list ds"
proof -
  let ?w = "prod_list ds" and ?n = "length patches" and ?lo = "block_lo (length patches) t" and ?c = "patch_count patches"
  let ?rs = "[?lo i + 1..<?lo (Suc i)]"
  have lo: "?lo (Suc i) \<le> ?n" "?lo i < ?lo (Suc i)" using block_lo_bound [OF assms(3-5)] block_lo_step [OF assms(3,4)] by auto
  have sum: "sum_list (map ?c [a..<b]) * ?w < 2 ^ 64" if "b \<le> ?n" for a b
  proof -
    have "sum_list (map ?c [a..<b]) \<le> sum_list (map ?c [0..<?n])"
      unfolding sum_set_upt_conv_sum_list_nat [symmetric] using that by (intro sum_mono2) auto
    then show ?thesis using assms(2) by (meson mult_le_mono1 le_less_trans)
  qed
  have sz: "to_size_t (int (sum_list (map ?c [a..<b])) * int ?w) = sum_list (map ?c [a..<b]) * ?w" if "b \<le> ?n" for a b
    using to_size_t_small [OF sum [OF that, of a]] by simp
  have one: "to_size_t (int (?c r) * int ?w) = ?c r * ?w" if "r < ?n" for r
    using sz [of "Suc r" r] that by simp
  have df: "dim_factor (k # ds) = int ?w" unfolding dim_factor_eq by (rule to_int32_small [OF assms(1)])
  let ?f = "\<lambda>a. to_size_t (int (snd a) * int ?w)"
  have calc: "calcVarStartsCounts (owner_state multi patches t i) (k # ds)
      = (map (\<lambda>j. ?c (?lo i) * ?w + sum_list (map ?f (take j (map (\<lambda>r. (r, ?c r)) ?rs)))) [0..<length ?rs], map ?f (map (\<lambda>r. (r, ?c r)) ?rs), int ?w)"
    using one [of "?lo i"] lo unfolding calcVarStartsCounts_def df
    by (simp add: owner_state_def Let_def starts_counts_loop [unfolded Let_def])
  have counts: "map ?f (map (\<lambda>r. (r, ?c r)) ?rs) = map (\<lambda>r. ?c r * ?w) ?rs" using lo by (auto intro!: one)
  have start: "?c (?lo i) * ?w + sum_list (map ?f (take j (map (\<lambda>r. (r, ?c r)) ?rs))) = sum_list (map ?c [?lo i..<?lo i + 1 + j]) * ?w"
    if j: "j < length ?rs" for j
  proof -
    have tk: "take j ?rs = [?lo i + 1..<?lo i + 1 + j]" using j by (simp add: take_upt)
    have "map ?f (take j (map (\<lambda>r. (r, ?c r)) ?rs)) = map (\<lambda>r. ?c r * ?w) [?lo i + 1..<?lo i + 1 + j]"
      unfolding take_map tk map_map comp_def snd_conv using lo j by (intro map_cong refl one) auto
    moreover have "[?lo i..<?lo i + 1 + j] = ?lo i # [?lo i + 1..<?lo i + 1 + j]" by (simp add: upt_conv_Cons)
    ultimately show ?thesis by (simp add: sum_list_times add_mult_distrib del: upt_Suc)
  qed
  have starts: "map (\<lambda>j. ?c (?lo i) * ?w + sum_list (map ?f (take j (map (\<lambda>r. (r, ?c r)) ?rs)))) [0..<length ?rs]
      = map (\<lambda>j. sum_list (map ?c [?lo i..<?lo i + 1 + j]) * ?w) [0..<length ?rs]"
    by (rule map_cong [OF refl]) (rule start, simp)
  show "snd (snd (calcVarStartsCounts (owner_state multi patches t i) (k # ds))) = int ?w" by (simp add: calc)
  show "to_size_t (int (total_nlocs (owner_state multi patches t i)) * int ?w) = sum_list (map ?c [?lo i..<?lo (Suc i)]) * ?w"
    using sz [OF lo(1), of "?lo i"] by (simp add: owner_state_def Let_def)
  have own: "rank_pool (owner_state multi patches t i) \<ge> 0" "rank_assignment (owner_state multi patches t i) = map (\<lambda>r. (r, ?c r)) ?rs"
    "rank_all (owner_state multi patches t i) = ?lo i" by (simp_all add: owner_state_def Let_def)
  show "transfer_receives vn (owner_state multi patches t i) (fst (calcVarStartsCounts (owner_state multi patches t i) (k # ds)))
      (fst (snd (calcVarStartsCounts (owner_state multi patches t i) (k # ds)))) = map (block_request vn ?w patches t i) ?rs"
    unfolding transfer_receives_def calc fst_conv snd_conv counts own(2,3) length_map starts
    by (rule nth_equalityI) (use own(1) in \<open>simp_all add: block_request_def del: upt_Suc\<close>)
qed


lemma calc_sender:
  assumes "prod_list ds < 2 ^ 31" "patch_count patches r * prod_list ds < 2 ^ 64"
  shows "transfer_sends vn (sender_state patches t i r) (fst (calcVarStartsCounts (sender_state patches t i r) (k # ds)))
      (fst (snd (calcVarStartsCounts (sender_state patches t i r) (k # ds)))) (patch_rows (prod_list ds) (patches ! r) (dat r))
    = [block_message vn (prod_list ds) patches dat t i r]"
    "snd (snd (calcVarStartsCounts (sender_state patches t i r) (k # ds))) = int (prod_list ds)"
proof -
  let ?w = "prod_list ds"
  have df: "dim_factor (k # ds) = int ?w" unfolding dim_factor_eq by (rule to_int32_small [OF assms(1)])
  have sz: "to_size_t (int (patch_count patches r) * int ?w) = patch_count patches r * ?w" using to_size_t_small [OF assms(2)] by simp
  have calc: "calcVarStartsCounts (sender_state patches t i r) (k # ds) = ([0], [patch_count patches r * ?w], int ?w)"
    by (simp add: calcVarStartsCounts_def df sender_state_def Let_def sz)
  show "snd (snd (calcVarStartsCounts (sender_state patches t i r) (k # ds))) = int ?w" by (simp add: calc)
  show "transfer_sends vn (sender_state patches t i r) (fst (calcVarStartsCounts (sender_state patches t i r) (k # ds)))
      (fst (snd (calcVarStartsCounts (sender_state patches t i r) (k # ds)))) (patch_rows ?w (patches ! r) (dat r))
    = [block_message vn ?w patches dat t i r]"
    unfolding calc by (simp add: transfer_sends_def sender_state_def block_message_def length_patch_rows patch_count_def)
qed

definition own_rows :: "nat \<Rightarrow> bool list list \<Rightarrow> (nat \<Rightarrow> 'a list) \<Rightarrow> nat \<Rightarrow> 'a list" where
  "own_rows w patches dat r = patch_rows w (patches ! r) (dat r)"

lemma length_own_rows [simp]: "length (own_rows w patches dat r) = patch_count patches r * w"
  by (simp add: own_rows_def length_patch_rows patch_count_def)

lemma concat_map_concat: "concat (map F (concat (map G xs))) = concat (map (\<lambda>x. concat (map F (G x))) xs)"
  by (induction xs) auto

lemma concat_blocks:
  assumes "0 < t" "t \<le> n"
  shows "concat (map F [0..<n]) = concat (map (\<lambda>i. F (block_lo n t i) @ concat (map F [block_lo n t i + 1..<block_lo n t (Suc i)])) [0..<t])"
proof -
  have "concat (map F [0..<n]) = concat (map F (concat (map (\<lambda>i. [block_lo n t i..<block_lo n t (Suc i)]) [0..<t])))"
    using assms by (simp add: block_lo_blocks block_lo_top)
  also have "\<dots> = concat (map (\<lambda>i. concat (map F [block_lo n t i..<block_lo n t (Suc i)])) [0..<t])"
    by (rule concat_map_concat)
  also have "\<dots> = concat (map (\<lambda>i. F (block_lo n t i) @ concat (map F [block_lo n t i + 1..<block_lo n t (Suc i)])) [0..<t])"
    using block_lo_step [OF assms] by (intro arg_cong [of _ _ concat] map_cong refl) (simp add: upt_conv_Cons del: upt_Suc)
  finally show ?thesis .
qed

lemma transfer_start_eq:
  fixes maxPoolSize :: int and multi :: bool
  assumes "mpi_pool_comm c" "patches \<noteq> []" "prod_list ds < 2 ^ 31"
    "sum_list (map (patch_count patches) [0..<length patches]) * prod_list ds < 2 ^ 64"
  defines "n \<equiv> length patches" and "t \<equiv> pool_size maxPoolSize (length patches)" and "w \<equiv> prod_list ds"
    and "ps \<equiv> WriterPool c maxPoolSize multi patches"
  shows "\<exists>bufs. transfer_start vn dflt (map (\<lambda>r. (ps ! r, k r # ds, dat r)) [0..<n]) =
      (concat (map (\<lambda>i. map (block_message vn w patches dat t i) [block_lo n t i + 1..<block_lo n t (Suc i)]) [0..<t]),
       concat (map (\<lambda>i. map (block_request vn w patches t i) [block_lo n t i + 1..<block_lo n t (Suc i)]) [0..<t]), bufs) \<and>
    length bufs = n \<and>
    (\<forall>i < t. bufs ! block_lo n t i
       = vec_resize (sum_list (map (patch_count patches) [block_lo n t i..<block_lo n t (Suc i)]) * w) dflt (own_rows w patches dat (block_lo n t i)))"
proof -
  have n: "0 < n" using assms(2) by (simp add: n_def)
  have t: "0 < t" "t \<le> n" using pool_size_bounds [OF n] by (simp_all add: t_def n_def)
  have bound: "block_lo n t i < n" "block_lo n t (Suc i) \<le> n" if "i < t" for i using block_lo_bound [OF t that] by auto
  have cr: "patch_count patches r * prod_list ds < 2 ^ 64" if "r < n" for r
  proof -
    have "patch_count patches r \<le> sum_list (map (patch_count patches) [0..<length patches])"
      using that by (intro member_le_sum_list) (auto simp: n_def)
    then show ?thesis using assms(4) by (meson mult_le_mono1 le_less_trans)
  qed
  have w64: "w < 2 ^ 64" using assms(3) unfolding w_def by (rule less_trans) simp
  let ?loc = "\<lambda>r. transfer_local dflt (ps ! r) (k r # ds) (dat r)"
  let ?S = "\<lambda>r. case ?loc r of (p, starts, counts, varData, _) \<Rightarrow> transfer_sends vn p starts counts varData"
  let ?R = "\<lambda>r. case ?loc r of (p, starts, counts, _, _) \<Rightarrow> transfer_receives vn p starts counts"
  let ?B = "\<lambda>r. case ?loc r of (_, _, _, _, buf) \<Rightarrow> buf"
  have start: "transfer_start vn dflt (map (\<lambda>r. (ps ! r, k r # ds, dat r)) [0..<n]) = (concat (map ?S [0..<n]), concat (map ?R [0..<n]), map ?B [0..<n])"
    by (simp add: transfer_start_def comp_def split_def)
  note W = WriterPool_nth [OF assms(1,2), where maxPoolSize = maxPoolSize and multi = multi, folded n_def t_def ps_def]
  have own: "?S (block_lo n t i) = []" "?R (block_lo n t i) = map (block_request vn w patches t i) [block_lo n t i + 1..<block_lo n t (Suc i)]"
    "?B (block_lo n t i) = vec_resize (sum_list (map (patch_count patches) [block_lo n t i..<block_lo n t (Suc i)]) * w) dflt (own_rows w patches dat (block_lo n t i))"
    if i: "i < t" for i
  proof -
    let ?p = "owner_state multi patches t i"
    note c = calc_owner [OF assms(3,4) t(1) t(2) [unfolded n_def] i, folded n_def w_def]
    have p: "rank_pool ?p \<ge> 0" "patchObsVec ?p = patches ! block_lo n t i" by (simp_all add: owner_state_def Let_def n_def)
    obtain ss cs where e: "calcVarStartsCounts ?p (k (block_lo n t i) # ds) = (ss, cs, int w)"
      by (rule that [of "fst A" "fst (snd A)" for A]) (auto simp: prod_eq_iff c(2))
    have loc: "?loc (block_lo n t i) = (?p, ss, cs, own_rows w patches dat (block_lo n t i),
        vec_resize (sum_list (map (patch_count patches) [block_lo n t i..<block_lo n t (Suc i)]) * w) dflt (own_rows w patches dat (block_lo n t i)))"
      unfolding transfer_local_def W(2) [OF i] e Let_def prod.case selectPatchValues_rows [OF w64] p(2) c(3) own_rows_def using p(1) by simp
    show "?S (block_lo n t i) = []" unfolding loc prod.case using p(1) by (simp add: transfer_sends_def)
    show "?R (block_lo n t i) = map (block_request vn w patches t i) [block_lo n t i + 1..<block_lo n t (Suc i)]"
      unfolding loc prod.case using c(1) [where k = "k (block_lo n t i)" and vn = vn and multi = multi] by (simp add: e)
    show "?B (block_lo n t i) = vec_resize (sum_list (map (patch_count patches) [block_lo n t i..<block_lo n t (Suc i)]) * w) dflt (own_rows w patches dat (block_lo n t i))"
      unfolding loc prod.case ..
  qed
  have send: "?S r = [block_message vn w patches dat t i r]" "?R r = []" if i: "i < t" and r: "block_lo n t i < r" "r < block_lo n t (Suc i)" for i r
  proof -
    let ?p = "sender_state patches t i r"
    have rn: "r < n" using r(2) bound(2) [OF i] by simp
    note c = calc_sender [OF assms(3) cr [OF rn], folded w_def]
    have p: "rank_pool ?p = -1" "patchObsVec ?p = patches ! r" by (simp_all add: sender_state_def)
    obtain ss cs where e: "calcVarStartsCounts ?p (k r # ds) = (ss, cs, int w)"
      by (rule that [of "fst A" "fst (snd A)" for A]) (auto simp: prod_eq_iff c(2))
    have loc: "?loc r = (?p, ss, cs, patch_rows w (patches ! r) (dat r), patch_rows w (patches ! r) (dat r))"
      unfolding transfer_local_def W(3) [OF i r] e Let_def prod.case selectPatchValues_rows [OF w64] p by simp
    show "?S r = [block_message vn w patches dat t i r]" unfolding loc prod.case using c(1) [where k = "k r" and vn = vn and t = t and i = i and dat = dat] by (simp add: e)
    show "?R r = []" unfolding loc prod.case by (simp add: transfer_receives_def p(1))
  qed
  have S: "concat (map ?S [0..<n]) = concat (map (\<lambda>i. map (block_message vn w patches dat t i) [block_lo n t i + 1..<block_lo n t (Suc i)]) [0..<t])"
    unfolding concat_blocks [OF t]
  proof (rule arg_cong [of _ _ concat], rule map_cong [OF refl])
    fix i assume "i \<in> set [0..<t]"
    then have i: "i < t" by simp
    have sends: "map ?S [block_lo n t i + 1..<block_lo n t (Suc i)] = map (\<lambda>r. [block_message vn w patches dat t i r]) [block_lo n t i + 1..<block_lo n t (Suc i)]"
      by (rule map_cong [OF refl]) (rule send(1) [OF i], simp_all)
    show "?S (block_lo n t i) @ concat (map ?S [block_lo n t i + 1..<block_lo n t (Suc i)])
        = map (block_message vn w patches dat t i) [block_lo n t i + 1..<block_lo n t (Suc i)]"
      unfolding own(1) [OF i] sends by (simp add: concat_map_singleton)
  qed
  have R: "concat (map ?R [0..<n]) = concat (map (\<lambda>i. map (block_request vn w patches t i) [block_lo n t i + 1..<block_lo n t (Suc i)]) [0..<t])"
    unfolding concat_blocks [OF t]
  proof (rule arg_cong [of _ _ concat], rule map_cong [OF refl])
    fix i assume "i \<in> set [0..<t]"
    then have i: "i < t" by simp
    have none: "map ?R [block_lo n t i + 1..<block_lo n t (Suc i)] = map (\<lambda>r. []) [block_lo n t i + 1..<block_lo n t (Suc i)]"
      by (rule map_cong [OF refl]) (rule send(2) [OF i], simp_all)
    show "?R (block_lo n t i) @ concat (map ?R [block_lo n t i + 1..<block_lo n t (Suc i)])
        = map (block_request vn w patches t i) [block_lo n t i + 1..<block_lo n t (Suc i)]"
      unfolding own(2) [OF i] none by simp
  qed
  show ?thesis
    unfolding start S R using own(3) bound(1) by (intro exI [of _ "map ?B [0..<n]"] conjI refl allI impI) simp_all
qed


section \<open>The collected data\<close>

lemma block_requests_set:
  "q \<in> set (concat (map (\<lambda>i. map (f i) [lo i + 1..<hi i]) [0..<t])) \<longleftrightarrow> (\<exists>i r. i < t \<and> lo i < r \<and> r < hi i \<and> q = f i r)"
proof
  assume "q \<in> set (concat (map (\<lambda>i. map (f i) [lo i + 1..<hi i]) [0..<t]))"
  then obtain i where i: "i < t" "q \<in> set (map (f i) [lo i + 1..<hi i])" by auto
  from i(2) obtain r where "lo i < r" "r < hi i" "q = f i r" by (auto simp: Suc_le_eq)
  then show "\<exists>i r. i < t \<and> lo i < r \<and> r < hi i \<and> q = f i r" using i(1) by (intro exI [of _ i] exI [of _ r]) simp
next
  assume "\<exists>i r. i < t \<and> lo i < r \<and> r < hi i \<and> q = f i r"
  then obtain i r where r: "i < t" "lo i < r" "r < hi i" "q = f i r" by (elim exE conjE)
  then have "q \<in> set (map (f i) [lo i + 1..<hi i])" by simp
  moreover have "map (f i) [lo i + 1..<hi i] \<in> set (map (\<lambda>i. map (f i) [lo i + 1..<hi i]) [0..<t])" using r(1) by simp
  ultimately show "q \<in> set (concat (map (\<lambda>i. map (f i) [lo i + 1..<hi i]) [0..<t]))" unfolding set_concat by (rule UN_I [rotated])
qed

lemma transfer_tag_inj: "transfer_tag v r = transfer_tag v' r \<longleftrightarrow> v = v'"
  by (auto simp: transfer_tag_def)

lemma sum_counts_Suc: "a \<le> r \<Longrightarrow> sum_list (map f [a..<Suc r]) = sum_list (map f [a..<r]) + (f r :: nat)"
  by simp

lemma sum_counts_mono: "b \<le> b' \<Longrightarrow> sum_list (map f [a..<b]) \<le> (sum_list (map f [a..<b']) :: nat)"
  unfolding sum_set_upt_conv_sum_list_nat [symmetric] by (intro sum_mono2) auto

lemma transfer_exchange_ok:
  fixes patches :: "bool list list" and dat :: "nat \<Rightarrow> 'a list" and vn w t :: nat
  defines "n \<equiv> length patches"
  defines "net \<equiv> concat (map (\<lambda>i. map (block_message vn w patches dat t i) [block_lo n t i + 1..<block_lo n t (Suc i)]) [0..<t])"
    and "reqs \<equiv> concat (map (\<lambda>i. map (block_request vn w patches t i) [block_lo n t i + 1..<block_lo n t (Suc i)]) [0..<t])"
  assumes t: "0 < t" "t \<le> n" and len: "length bufs = n"
    and bufs: "\<And>i. i < t \<Longrightarrow> length (bufs ! block_lo n t i) = sum_list (map (patch_count patches) [block_lo n t i..<block_lo n t (Suc i)]) * w"
    and others: "\<forall>m \<in> set others. \<exists>v. v \<noteq> vn \<and> msg_tag m = transfer_tag v (msg_from m)"
  shows "exchange_ok (\<lambda>q. own_rows w patches dat (req_from q)) (net @ others, reqs, bufs)"
proof -
  let ?lo = "block_lo n t" and ?c = "patch_count patches"
  have in_reqs: "q \<in> set reqs \<longleftrightarrow> (\<exists>i r. i < t \<and> ?lo i < r \<and> r < ?lo (Suc i) \<and> q = block_request vn w patches t i r)" for q
    unfolding reqs_def by (rule block_requests_set [where lo = ?lo and hi = "\<lambda>i. ?lo (Suc i)" and f = "block_request vn w patches t"])
  have in_net: "m \<in> set net \<longleftrightarrow> (\<exists>i r. i < t \<and> ?lo i < r \<and> r < ?lo (Suc i) \<and> m = block_message vn w patches dat t i r)" for m
    unfolding net_def by (rule block_requests_set [where lo = ?lo and hi = "\<lambda>i. ?lo (Suc i)" and f = "block_message vn w patches dat t"])
  have same: "i = j" if "?lo i < r" "r < ?lo (Suc i)" "?lo j < r" "r < ?lo (Suc j)" for i j r
    using less_trans [OF that(1) that(4)] less_trans [OF that(3) that(2)] by (simp add: block_lo_less_iff [OF t])
  have "map req_from reqs = concat (map (\<lambda>i. [?lo i + 1..<?lo (Suc i)]) [0..<t])"
    by (simp add: reqs_def map_concat comp_def block_request_def)
  moreover have "distinct (concat (map (\<lambda>i. [?lo i + 1..<?lo (Suc i)]) [0..<t]))"
    by (rule distinct_concat_map_upt) (auto simp: Suc_le_eq intro: same)
  ultimately have "distinct (map req_from reqs)" by simp
  then have dk: "distinct (map req_key reqs)" by (auto simp: distinct_map inj_on_def req_key_def)
  have fit: "req_to q < length bufs \<and> req_start q + req_count q \<le> length (bufs ! req_to q) \<and> length (own_rows w patches dat (req_from q)) = req_count q"
    if qr: "q \<in> set reqs" for q
  proof -
    obtain i r where q: "i < t" "?lo i < r" "r < ?lo (Suc i)" "q = block_request vn w patches t i r" using qr [unfolded in_reqs] by (elim exE conjE) (rule that)
    have "sum_list (map ?c [?lo i..<Suc r]) \<le> sum_list (map ?c [?lo i..<?lo (Suc i)])" using q(3) by (intro sum_counts_mono) simp
    then have "(sum_list (map ?c [?lo i..<r]) + ?c r) * w \<le> sum_list (map ?c [?lo i..<?lo (Suc i)]) * w"
      unfolding sum_counts_Suc [OF less_imp_le [OF q(2)]] by (rule mult_le_mono1)
    then show ?thesis using bufs [OF q(1)] block_lo_bound [OF t q(1)] len q(4) by (simp add: block_request_def add_mult_distrib flip: n_def)
  qed
  have ex: "\<exists>m \<in> set (net @ others). matches q m" if qr: "q \<in> set reqs" for q
  proof -
    obtain i r where q: "i < t" "?lo i < r" "r < ?lo (Suc i)" "q = block_request vn w patches t i r" using qr [unfolded in_reqs] by (elim exE conjE) (rule that)
    have "block_message vn w patches dat t i r \<in> set net" unfolding in_net using q(1-3) by (intro exI [of _ i] exI [of _ r] conjI refl)
    moreover have "matches q (block_message vn w patches dat t i r)" by (simp add: q(4) matches_def block_request_def block_message_def)
    ultimately show ?thesis by (intro bexI [of _ "block_message vn w patches dat t i r"]) simp_all
  qed
  have dat: "msg_data m = own_rows w patches dat (req_from q)" if q: "q \<in> set reqs" and m: "m \<in> set (net @ others)" and mt: "matches q m" for q m
  proof -
    have "msg_tag m = transfer_tag vn (msg_from m)" using q mt unfolding in_reqs by (auto simp: matches_def block_request_def)
    then have "m \<notin> set others" using others by (auto simp: transfer_tag_inj)
    then have "m \<in> set net" using m by simp
    then show ?thesis using mt unfolding in_net by (auto simp: matches_def block_message_def own_rows_def)
  qed
  have disj: "req_start q + req_count q \<le> req_start q' \<or> req_start q' + req_count q' \<le> req_start q"
    if q: "q \<in> set reqs" and q': "q' \<in> set reqs" and ne: "q \<noteq> q'" and to: "req_to q = req_to q'" for q q'
  proof -
    obtain i r where a: "?lo i < r" "r < ?lo (Suc i)" "q = block_request vn w patches t i r" using q [unfolded in_reqs] by (elim exE conjE) (rule that)
    obtain i' r' where b: "?lo i' < r'" "r' < ?lo (Suc i')" "q' = block_request vn w patches t i' r'" using q' [unfolded in_reqs] by (elim exE conjE) (rule that)
    have i: "i' = i" using to t unfolding a(3) b(3) by (simp add: block_request_def flip: n_def)
    have step: "sum_list (map ?c [?lo i..<x]) * w + ?c x * w \<le> sum_list (map ?c [?lo i..<y]) * w" if "?lo i < x" "x < y" for x y
      using mult_le_mono1 [OF sum_counts_mono [of "Suc x" y ?c "?lo i"], of w] that(2)
      unfolding sum_counts_Suc [OF less_imp_le [OF that(1)]] add_mult_distrib by simp
    show ?thesis
    proof (cases r r' rule: linorder_cases)
      case equal
      then show ?thesis using ne a(3) b(3) i by simp
    qed (use step a b in \<open>auto simp: block_request_def i simp flip: n_def\<close>)
  qed
  have "\<forall>q \<in> set reqs. \<forall>m \<in> set (net @ others). matches q m \<longrightarrow> msg_data m = own_rows w patches dat (req_from q)"
    by (intro ballI impI) (rule dat)
  moreover have "\<forall>q \<in> set reqs. \<forall>q' \<in> set reqs. q \<noteq> q' \<longrightarrow> req_to q = req_to q' \<longrightarrow>
      req_start q + req_count q \<le> req_start q' \<or> req_start q' + req_count q' \<le> req_start q"
    by (intro ballI impI) (rule disj)
  ultimately show ?thesis unfolding exchange_ok_def prod.case using dk fit ex by (intro conjI ballI) simp_all
qed


lemma take_drop_eq:
  "s + length ys \<le> length xs \<Longrightarrow> (\<And>k. k < length ys \<Longrightarrow> xs ! (s + k) = ys ! k) \<Longrightarrow> take (length ys) (drop s xs) = ys"
  by (rule nth_equalityI) simp_all

lemma served_block:
  fixes patches :: "bool list list" and dat :: "nat \<Rightarrow> 'a list" and vn w t i :: nat
  defines "n \<equiv> length patches"
  defines "lo \<equiv> block_lo n t i" and "hi \<equiv> block_lo n t (Suc i)"
  assumes t: "0 < t" "t \<le> n" "i < t"
    and R: "\<And>q. q \<in> R \<longleftrightarrow> (\<exists>j r. j < t \<and> block_lo n t j < r \<and> r < block_lo n t (Suc j) \<and> q = block_request vn w patches t j r)"
    and sv: "served (\<lambda>q. own_rows w patches dat (req_from q)) R R bufs0 bufs" and len: "length bufs0 = n"
    and b0: "bufs0 ! lo = vec_resize (sum_list (map (patch_count patches) [lo..<hi]) * w) dflt (own_rows w patches dat lo)"
  shows "bufs ! lo = concat (map (own_rows w patches dat) [lo..<hi])"
proof -
  let ?c = "patch_count patches" and ?own = "own_rows w patches dat"
  have b: "lo < n" "hi \<le> n" "lo < hi" using block_lo_bound [OF t] block_lo_step [OF t(1,2)] by (simp_all add: lo_def hi_def)
  have "map length bufs ! lo = map length bufs0 ! lo" "length bufs = length bufs0"
    using sv unfolding served_def by (simp, metis length_map)
  then have lb: "length (bufs ! lo) = sum_list (map ?c [lo..<hi]) * w" using b(1) len b0 by simp
  have le: "sum_list (map ?c [lo..<r]) * w \<le> sum_list (map ?c [lo..<hi]) * w" if "r \<le> hi" for r
    by (intro mult_le_mono1 sum_counts_mono that)
  have first: "?c lo * w \<le> sum_list (map ?c [lo..<r]) * w" if "lo < r" for r
    using sum_counts_mono [of "Suc lo" r ?c lo] that by (intro mult_le_mono1) simp
  have "take (sum_list (map ?c [lo..<lo + 1 + d]) * w) (bufs ! lo) = concat (map ?own [lo..<lo + 1 + d])" if "lo + 1 + d \<le> hi" for d
    using that
  proof (induction d)
    case 0
    have "bufs ! lo ! k = ?own lo ! k" if k: "k < ?c lo * w" for k
    proof -
      have kb: "k < length (bufs0 ! lo)" unfolding b0 length_vec_resize using k first [OF b(3)] by (rule less_le_trans)
      have "k < req_start q" if qR: "q \<in> R" and to: "req_to q = lo" for q
      proof -
        obtain j r where q: "block_lo n t j < r" "q = block_request vn w patches t j r" using qR [unfolded R] by (elim exE conjE) (rule that)
        then have "lo < r" "req_start q = sum_list (map ?c [lo..<r]) * w" using to by (simp_all add: block_request_def flip: n_def)
        then show ?thesis using less_le_trans [OF k first] by simp
      qed
      then have "bufs ! lo ! k = bufs0 ! lo ! k" using sv b(1) len kb unfolding served_def by blast
      then show ?thesis using k less_le_trans [OF k first [OF b(3)]] unfolding b0 by (simp add: vec_resize_def nth_append)
    qed
    then have "take (?c lo * w) (bufs ! lo) = ?own lo"
      using lb first [OF b(3)] by (intro nth_equalityI) simp_all
    then show ?case by simp
  next
    case (Suc d)
    let ?r = "lo + 1 + d"
    have r: "lo < ?r" "?r < hi" using Suc.prems by simp_all
    have q: "block_request vn w patches t i ?r \<in> R" unfolding R using t(3) r by (intro exI [of _ i] exI [of _ ?r]) (simp add: lo_def hi_def)
    have at: "bufs ! lo ! (sum_list (map ?c [lo..<?r]) * w + k) = ?own ?r ! k" if "k < ?c ?r * w" for k
      using sv q that unfolding served_def by (elim conjE) (drule bspec [OF _ q], simp add: block_request_def lo_def flip: n_def)
    have nxt: "sum_list (map ?c [lo..<?r]) * w + ?c ?r * w = sum_list (map ?c [lo..<Suc ?r]) * w"
      using sum_counts_Suc [OF less_imp_le [OF r(1)], of ?c] by (simp only: add_mult_distrib)
    have "sum_list (map ?c [lo..<?r]) * w + length (?own ?r) \<le> length (bufs ! lo)"
      unfolding length_own_rows nxt lb using r(2) by (intro le) simp
    then have "take (length (?own ?r)) (drop (sum_list (map ?c [lo..<?r]) * w) (bufs ! lo)) = ?own ?r"
      using at by (intro take_drop_eq) (simp_all only: length_own_rows)
    then have "take (sum_list (map ?c [lo..<?r]) * w + ?c ?r * w) (bufs ! lo) = concat (map ?own [lo..<?r]) @ ?own ?r"
      using Suc.IH r(2) by (simp only: take_add length_own_rows)
    then show ?case unfolding nxt using r(1) by simp
  qed
  from this [of "hi - lo - 1"] show ?thesis using b(3) lb by simp
qed


lemma WriterPool_members:
  fixes maxPoolSize :: int and multi :: bool
  assumes "mpi_pool_comm c" "patches \<noteq> []"
  defines "t \<equiv> pool_size maxPoolSize (length patches)"
  shows "filter (\<lambda>p. rank_pool p \<ge> 0) (WriterPool c maxPoolSize multi patches) = map (owner_state multi patches t) [0..<t]"
proof -
  let ?ps = "WriterPool c maxPoolSize multi patches" and ?n = "length patches"
  have n: "0 < ?n" using assms(2) by simp
  have t: "0 < t" "t \<le> ?n" using pool_size_bounds [OF n] by (simp_all add: t_def)
  note W = WriterPool_nth [OF assms(1,2), where maxPoolSize = maxPoolSize and multi = multi, folded t_def]
  have iff: "rank_pool (?ps ! r) \<ge> 0 \<longleftrightarrow> r \<in> block_lo ?n t ` {..<t}" if r: "r < ?n" for r
  proof -
    obtain i where i: "i < t" "block_lo ?n t i \<le> r" "r < block_lo ?n t (Suc i)" by (rule block_exists [OF t r])
    show ?thesis
    proof (cases "r = block_lo ?n t i")
      case True
      then show ?thesis using i(1) W(2) [OF i(1)] by (auto simp: owner_state_def Let_def)
    next
      case False
      then have lt: "block_lo ?n t i < r" using i(2) by simp
      then have "r \<notin> block_lo ?n t ` {..<t}" using i(3) t by (auto simp: block_lo_less_iff)
      then show ?thesis using W(3) [OF i(1) lt i(3)] by (simp add: sender_state_def)
    qed
  qed
  have "filter (\<lambda>p. rank_pool p \<ge> 0) ?ps = map ((!) ?ps) (filter (\<lambda>r. rank_pool (?ps ! r) \<ge> 0) [0..<?n])"
    using filter_map [of "\<lambda>p. rank_pool p \<ge> 0" "(!) ?ps" "[0..<?n]"] map_nth [of ?ps] W(1) by (simp add: comp_def)
  also have "filter (\<lambda>r. rank_pool (?ps ! r) \<ge> 0) [0..<?n] = filter (\<lambda>r. r \<in> block_lo ?n t ` {..<t}) [0..<?n]"
    by (rule filter_cong) (simp_all add: iff)
  also have "\<dots> = map (block_lo ?n t) [0..<t]" using block_owners [OF t, of t] t by (simp add: block_lo_top)
  finally show ?thesis using W(2) by simp
qed

text \<open>The rows that all ranks own, in the order of the ranks.\<close>

definition all_patch_rows :: "nat \<Rightarrow> bool list list \<Rightarrow> (nat \<Rightarrow> 'a list) \<Rightarrow> 'a list" where
  "all_patch_rows w patches dat = concat (map (\<lambda>r. patch_rows w (patches ! r) (dat r)) [0..<length patches])"

lemma all_patch_rows_block:
  assumes "0 < t" "t \<le> length patches" "i < t"
  defines "lo \<equiv> block_lo (length patches) t i" and "hi \<equiv> block_lo (length patches) t (Suc i)"
  shows "take (sum_list (map (patch_count patches) [lo..<hi]) * w) (drop (sum_list (map (patch_count patches) [0..<lo]) * w) (all_patch_rows w patches dat))
    = concat (map (own_rows w patches dat) [lo..<hi])"
proof -
  let ?own = "own_rows w patches dat" and ?n = "length patches"
  have b: "lo \<le> hi" "hi \<le> ?n" using block_lo_bound [OF assms(1-3)] block_lo_step [OF assms(1,2), of i] by (simp_all add: lo_def hi_def)
  have len: "length (concat (map ?own rs)) = sum_list (map (patch_count patches) rs) * w" for rs
    by (induction rs) (simp_all add: add_mult_distrib)
  have "[0..<?n] = [0..<lo] @ [lo..<hi] @ [hi..<?n]"
    using upt_add_eq_append [of 0 lo "hi - lo"] upt_add_eq_append [of 0 hi "?n - hi"] b by simp
  then have "all_patch_rows w patches dat = concat (map ?own [0..<lo]) @ concat (map ?own [lo..<hi]) @ concat (map ?own [hi..<?n])"
    by (simp add: all_patch_rows_def own_rows_def [abs_def])
  then show ?thesis by (simp add: len)
qed

lemma transfer_run:
  fixes dat :: "nat \<Rightarrow> 'a list"
  assumes "mpi_pool_comm c" "patches \<noteq> []" "prod_list ds < 2 ^ 31"
    "sum_list (map (patch_count patches) [0..<length patches]) * prod_list ds < 2 ^ 64"
    "ps = WriterPool c maxPoolSize multi patches"
    "transfer_start vn dflt (map (\<lambda>r. (ps ! r, k r # ds, dat r)) [0..<length patches]) = (net, reqs, bufs)"
    "\<forall>m \<in> set others. \<exists>v. v \<noteq> vn \<and> msg_tag m = transfer_tag v (msg_from m)"
  defines "t \<equiv> pool_size maxPoolSize (length patches)"
  shows "exchange_ok (\<lambda>q. own_rows (prod_list ds) patches dat (req_from q)) (net @ others, reqs, bufs)"
    "deliver\<^sup>*\<^sup>* (net @ others, reqs, bufs) (net', [], bufs') \<Longrightarrow> i < t \<Longrightarrow> bufs' ! block_lo (length patches) t i
      = concat (map (own_rows (prod_list ds) patches dat) [block_lo (length patches) t i..<block_lo (length patches) t (Suc i)])"
proof -
  let ?w = "prod_list ds" and ?n = "length patches" and ?lo = "block_lo (length patches) t" and ?own = "own_rows (prod_list ds) patches dat"
  have n: "0 < ?n" using assms(2) by simp
  have t: "0 < t" "t \<le> ?n" using pool_size_bounds [OF n] by (simp_all add: t_def)
  obtain bufs0 where st: "net = concat (map (\<lambda>i. map (block_message vn ?w patches dat t i) [?lo i + 1..<?lo (Suc i)]) [0..<t])"
    "reqs = concat (map (\<lambda>i. map (block_request vn ?w patches t i) [?lo i + 1..<?lo (Suc i)]) [0..<t])"
    "bufs = bufs0" "length bufs0 = ?n" "\<And>i. i < t \<Longrightarrow> bufs0 ! ?lo i = vec_resize (sum_list (map (patch_count patches) [?lo i..<?lo (Suc i)]) * ?w) dflt (?own (?lo i))"
    using transfer_start_eq [OF assms(1-4), where maxPoolSize = maxPoolSize and multi = multi and vn = vn and dflt = dflt and k = k and dat = dat]
      assms(6) unfolding assms(5) t_def [symmetric] by auto
  show ok: "exchange_ok (\<lambda>q. own_rows ?w patches dat (req_from q)) (net @ others, reqs, bufs)"
    unfolding st(1-3) by (rule transfer_exchange_ok [OF t st(4) _ assms(7)]) (simp add: st(5))
  assume run: "deliver\<^sup>*\<^sup>* (net @ others, reqs, bufs) (net', [], bufs')" and i: "i < t"
  have sv: "served (\<lambda>q. own_rows ?w patches dat (req_from q)) (set reqs) (set reqs) bufs0 bufs'"
    using deliver_served [OF run ok] by (simp add: st(3))
  have R: "q \<in> set reqs \<longleftrightarrow> (\<exists>j r. j < t \<and> ?lo j < r \<and> r < ?lo (Suc j) \<and> q = block_request vn ?w patches t j r)" for q
    unfolding st(2) by (rule block_requests_set [where lo = ?lo and hi = "\<lambda>i. ?lo (Suc i)" and f = "block_request vn ?w patches t"])
  show "bufs' ! ?lo i = concat (map ?own [?lo i..<?lo (Suc i)])"
    by (rule served_block [OF t i R sv st(4) st(5) [OF i]])
qed

lemma owner_state_fields:
  "rank_all (owner_state multi patches t i) = block_lo (length patches) t i"
  "nlocs_start (owner_state multi patches t i) = sum_list (map (patch_count patches) [0..<block_lo (length patches) t i])"
  "total_nlocs (owner_state multi patches t i) = sum_list (map (patch_count patches) [block_lo (length patches) t i..<block_lo (length patches) t (Suc i)])"
  "global_nlocs (owner_state multi patches t i) = sum_list (map (patch_count patches) [0..<length patches])"
  "rank_pool (owner_state multi patches t i) = int i" "size_pool (owner_state multi patches t i) = int t"
  "is_parallel_io (owner_state multi patches t i) = (\<not> multi \<and> 1 < t)"
  by (simp_all add: owner_state_def Let_def)

lemma collected_rows:
  assumes "mpi_pool_comm c" "patches \<noteq> []" "prod_list ds < 2 ^ 31"
    "sum_list (map (patch_count patches) [0..<length patches]) * prod_list ds < 2 ^ 64"
    "ps = WriterPool c maxPoolSize multi patches"
    "transfer_start vn dflt (map (\<lambda>r. (ps ! r, k r # ds, dat r)) [0..<length patches]) = (net, reqs, bufs)"
    "\<forall>m \<in> set others. \<exists>v. v \<noteq> vn \<and> msg_tag m = transfer_tag v (msg_from m)"
    "deliver\<^sup>*\<^sup>* (net @ others, reqs, bufs) (net', [], bufs')" "p \<in> set ps" "rank_pool p \<ge> 0"
  shows "bufs' ! rank_all p = take (total_nlocs p * prod_list ds) (drop (nlocs_start p * prod_list ds) (all_patch_rows (prod_list ds) patches dat))"
proof -
  let ?t = "pool_size maxPoolSize (length patches)"
  have n: "0 < length patches" using assms(2) by simp
  have t: "0 < ?t" "?t \<le> length patches" using pool_size_bounds [OF n] by simp_all
  have "p \<in> set (map (owner_state multi patches ?t) [0..<?t])"
    unfolding WriterPool_members [OF assms(1,2), of maxPoolSize multi, symmetric] using assms(5,9,10) by simp
  then obtain i where i: "i < ?t" "p = owner_state multi patches ?t i" by auto
  show ?thesis
    unfolding i(2) owner_state_fields transfer_run(2) [OF assms(1-8) i(1)] by (rule all_patch_rows_block [OF t i(1), symmetric])
qed


definition example_patches :: "bool list list" where
  "example_patches = [[True, False], [True, True], [True]]"

definition example_data :: "nat list list" where
  "example_data = [[10, 11], [20, 21], [30]]"

lemma all_patch_rows_example: "all_patch_rows 1 example_patches ((!) example_data) = [10, 20, 21, 30]"
  by code_simp


section \<open>Writing the files\<close>

text \<open>
  What a process of the pool does with its buffer. With a single file it writes a block of rows to the file that the
  pool shares, through \<open>parallelWrite\<close> of the engine of that file; otherwise it writes the whole variable of its own file.
\<close>

definition write_buffer ::
    "(scalar list \<Rightarrow> obs_type \<Rightarrow> user_selection \<Rightarrow> user_selection \<Rightarrow> obs_variable \<Rightarrow> obs_variable result) \<Rightarrow> io_pool \<Rightarrow> scalar list \<Rightarrow>
     obs_variable \<Rightarrow> obs_variable result" where
  "write_buffer parallelWrite p varData destVar =
     (if is_parallel_io p
      then parallelWrite varData (dtype destVar) (createBlockSelection (dimensions destVar) 0 (total_nlocs p) False)
             (createBlockSelection (dimensions destVar) (nlocs_start p) (total_nlocs p) True) destVar
      else Backend_write varData (dtype destVar) select_all select_all destVar)"

text \<open>The documented effect of a write through two block selections: the rows of the block get the data, the others
  stay.\<close>

definition writes_blocks ::
    "(scalar list \<Rightarrow> obs_type \<Rightarrow> user_selection \<Rightarrow> user_selection \<Rightarrow> obs_variable \<Rightarrow> obs_variable result) \<Rightarrow> bool" where
  "writes_blocks parallelWrite \<longleftrightarrow> (\<forall>v n ds s c buf. plain_variable v \<longrightarrow> dimensions v = n # ds \<longrightarrow> n * prod_list ds \<le> 2 ^ 64 \<longrightarrow>
     s + c \<le> n \<longrightarrow> length buf = c * prod_list ds \<longrightarrow>
     parallelWrite buf (dtype v) (createBlockSelection (n # ds) 0 c False) (createBlockSelection (n # ds) s c True) v
       = Inr (set_data (overwrite (s * prod_list ds) buf (var_attr_data (var_data v))) v))"

lemma createBlockSelection_eq:
  "createBlockSelection (n # ds) s c isFile = \<lparr> sel_default = SELECT_ALL, sel_actions = [SingleSelection_slab (s # replicate (length ds) 0) (c # ds)],
     sel_extent = (if isFile then n # ds else c # ds) \<rparr>"
  by (simp add: createBlockSelection_def user_selection_defs Let_def)

text \<open>The write of the in-memory engine has this effect.\<close>

lemma Backend_write_blocks: "writes_blocks Backend_write"
  unfolding writes_blocks_def
proof (intro allI impI)
  fix v n ds s c and buf :: "scalar list"
  assume v: "plain_variable v" and dims: "dimensions v = n # ds" and big: "n * prod_list ds \<le> 2 ^ 64"
    and sc: "s + c \<le> n" and len: "length buf = c * prod_list ds"
  let ?P = "prod_list ds" and ?old = "var_attr_data (var_data v)"
  let ?m = "row_selection [0..<c] c ds" and ?f = "row_selection [s..<s + c] n ds"
  note v' = plain_variable_facts [OF v]
  have sel: "createObsStoreSelection SELECT_ALL [SingleSelection_slab (a # replicate (length ds) 0) (c # ds)] (b # ds) = Inr (row_selection [a..<a + c] b ds)" for a b
    by (rule createObsStoreSelection_slab) simp_all
  have wr: "Backend_write buf (dtype v) (createBlockSelection (n # ds) 0 c False) (createBlockSelection (n # ds) s c True) v
      = bind_result (VarAttrStore_write buf ?m ?f (var_data v)) (\<lambda>st. Inr (v \<lparr> var_data := st \<rparr>))"
    using sel [of 0 c] sel [of s n] dims
    by (simp add: Backend_write_def createBlockSelection_eq mem_dim_sizes_def npoints_row_selection Variable_write_def Type_eq_iff)
  have lo: "length ?old = n * ?P" using v'(4) dims by simp
  show "Backend_write buf (dtype v) (createBlockSelection (n # ds) 0 c False) (createBlockSelection (n # ds) s c True) v
      = Inr (set_data (overwrite (s * ?P) buf ?old) v)"
  proof (cases "c * ?P = 0")
    case True
    then have "buf = []" using len by auto
    then show ?thesis unfolding wr by (simp add: VarAttrStore_write_def set_data_def overwrite_def)
  next
    case False
    then have P: "0 < ?P" and c: "0 < c" by simp_all
    have xs: "[s..<s + c] \<noteq> []" "distinct [s..<s + c]" "\<forall>x \<in> set [s..<s + c]. x < n" using c sc by auto
    have cP: "c * ?P \<le> 2 ^ 64" using sc big by (meson le_trans le_add2 mult_le_mono1)
    note f = row_selection_facts [OF xs(3,2,1) P big]
    note m = row_selection_facts [of "[0..<c]" c ds]
    have buf: "buf \<noteq> []" using len False by auto
    have ms: "selection_wf ?m" "selection_points ?m = [0..<c * ?P]" "c * ?P \<le> transfer_fuel ?m"
      using m c P cP datum_indices_block [of ?P 0 c] by simp_all
    have fs: "selection_points ?f = [s * ?P..<s * ?P + c * ?P]" using f(2) datum_indices_block [of ?P s c] by (simp add: add_mult_distrib)
    have "VarAttrStore_write buf ?m ?f (var_data v)
        = Inr ((var_data v) \<lparr> var_attr_data := scatter buf (zip [0..<c * ?P] [s * ?P..<s * ?P + c * ?P]) ?old \<rparr>)"
      using VarAttrStore_write_scatter [OF ms(1) f(1), of buf "var_data v"] ms(2,3) fs buf v'(2) by simp
    moreover have "s * ?P + c * ?P \<le> length ?old" using mult_le_mono1 [OF sc, of ?P] lo by (simp add: add_mult_distrib)
    ultimately show ?thesis
      unfolding wr using scatter_block [of "s * ?P" "c * ?P" ?old buf] len by (simp add: set_data_def overwrite_def)
  qed
qed


lemma set_data_twice [simp]: "set_data d (set_data d' v) = set_data d v"
  by (simp add: set_data_def)

lemma set_data_id: "set_data (var_attr_data (var_data v)) v = v"
  by (simp add: set_data_def)

lemma fold_overwrite_rows:
  assumes "length d = length rows" "\<forall>x \<in> set xs. fst x + snd x \<le> length rows"
  defines "d' \<equiv> fold (\<lambda>x d. overwrite (fst x) (take (snd x) (drop (fst x) rows)) d) xs d"
  shows "length d' = length rows \<and>
    (\<forall>k < length rows. d' ! k = (if \<exists>x \<in> set xs. fst x \<le> k \<and> k < fst x + snd x then rows ! k else d ! k))"
  using assms(1,2) unfolding d'_def
proof (induction xs arbitrary: d)
  case (Cons x xs)
  let ?y = "take (snd x) (drop (fst x) rows)"
  have fit: "fst x + length ?y \<le> length d" "length ?y = snd x" using Cons.prems by auto
  have len: "length (overwrite (fst x) ?y d) = length rows" using length_overwrite [OF fit(1)] Cons.prems by simp
  have at: "overwrite (fst x) ?y d ! k = (if fst x \<le> k \<and> k < fst x + snd x then rows ! k else d ! k)" if k: "k < length rows" for k
  proof (cases "fst x \<le> k \<and> k < fst x + snd x")
    case True
    then have "k - fst x < snd x" by auto
    then show ?thesis using overwrite_in [OF fit(1), of "k - fst x", unfolded fit(2)] k True by simp
  next
    case False
    then show ?thesis using overwrite_out [OF fit(1), of k] fit(2) k Cons.prems by auto
  qed
  show ?case using Cons.IH [OF len] Cons.prems(2) at by auto
qed auto

lemma write_buffers:
  assumes "writes_blocks pw" "plain_variable v" "dimensions v = n # ds" "n * prod_list ds \<le> 2 ^ 64" "length rows = n * prod_list ds"
    "\<forall>p \<in> set order. is_parallel_io p \<and> nlocs_start p + total_nlocs p \<le> n \<and>
       b p = take (total_nlocs p * prod_list ds) (drop (nlocs_start p * prod_list ds) rows)"
  shows "fold_result (\<lambda>p. write_buffer pw p (b p)) order v = Inr (set_data (fold (\<lambda>x d. overwrite (fst x) (take (snd x) (drop (fst x) rows)) d)
      (map (\<lambda>p. (nlocs_start p * prod_list ds, total_nlocs p * prod_list ds)) order) (var_attr_data (var_data v))) v)"
  using assms(2,3,6)
proof (induction order arbitrary: v)
  case Nil
  then show ?case by (simp add: set_data_id)
next
  case (Cons p order)
  let ?P = "prod_list ds"
  have p: "is_parallel_io p" "nlocs_start p + total_nlocs p \<le> n" "b p = take (total_nlocs p * ?P) (drop (nlocs_start p * ?P) rows)"
    using Cons.prems(3) by simp_all
  have fit: "nlocs_start p * ?P + total_nlocs p * ?P \<le> length rows" using mult_le_mono1 [OF p(2), of ?P] assms(5) by (simp add: add_mult_distrib)
  then have lb: "length (b p) = total_nlocs p * ?P" by (simp add: p(3))
  let ?d = "overwrite (nlocs_start p * ?P) (b p) (var_attr_data (var_data v))"
  have w: "write_buffer pw p (b p) v = Inr (set_data ?d v)"
    using assms(1) [unfolded writes_blocks_def, rule_format, OF Cons.prems(1,2) assms(4) p(2) lb] p(1) Cons.prems(2) by (simp add: write_buffer_def)
  have old: "length (var_attr_data (var_data v)) = n * ?P" using plain_variable_facts(4) [OF Cons.prems(1)] Cons.prems(2) by simp
  have "length ?d = prod_list (dimensions v)" using length_overwrite [of "nlocs_start p * ?P" "b p" "var_attr_data (var_data v)"] fit lb old assms(5) Cons.prems(2) by simp
  then have pl: "plain_variable (set_data ?d v)" by (rule plain_set_data [OF Cons.prems(1)])
  show ?case using Cons.IH [OF pl] Cons.prems(2,3) w p(3) by simp
qed

lemma block_of_position:
  fixes g :: "nat \<Rightarrow> nat"
  shows "g 0 \<le> k \<Longrightarrow> k < g t \<Longrightarrow> \<exists>i < t. g i \<le> k \<and> k < g (Suc i)"
proof (induction t)
  case (Suc t)
  then show ?case by (cases "k < g t") (auto intro: less_SucI)
qed simp




section \<open>Strings\<close>

definition max_string_length :: "string list \<Rightarrow> nat" where
  "max_string_length varData = fold (\<lambda>s m. if length s > m then length s else m) varData 0"

text \<open>The length for a string variable, from the data of all ranks; \<open>allReduce\<close> is the maximum over the ranks.\<close>

definition calcMaxStringLengths :: "(nat list \<Rightarrow> nat) \<Rightarrow> string list list \<Rightarrow> nat" where
  "calcMaxStringLengths allReduce varDatas =
     (let globalMaxStringLen = allReduce (map max_string_length varDatas)
      in if globalMaxStringLen = 0 then 1 else globalMaxStringLen)"

definition nul :: char where
  "nul = CHR 0x00"

text \<open>The buffer that a rank outside the pool sends.\<close>

definition send_strings :: "nat \<Rightarrow> nat \<Rightarrow> string list \<Rightarrow> string" where
  "send_strings maxStringLength count varData =
     fold (\<lambda>i buf. fold (\<lambda>j buf. buf[i * maxStringLength + j := varData ! i ! j]) [0..<length (varData ! i)] buf)
       [0..<length varData] (replicate (count * maxStringLength) nul)"

definition receive_string :: "nat \<Rightarrow> string \<Rightarrow> nat \<Rightarrow> string result" where
  "receive_string maxStringLength strBuffer j =
     (let rest = drop (j * maxStringLength) strBuffer
      in if nul \<in> set rest then Inr (takeWhile (\<lambda>c. c \<noteq> nul) rest)
         else Inl (Exception ''End of string not found during MPI transfer''))"

definition receive_strings :: "nat \<Rightarrow> nat \<Rightarrow> nat \<Rightarrow> string \<Rightarrow> string list \<Rightarrow> string list result" where
  "receive_strings maxStringLength count start strBuffer varData =
     fold_result (\<lambda>j varData. bind_result (receive_string maxStringLength strBuffer j) (\<lambda>str. Inr (varData[start + j := str]))) [0..<count] varData"

lemma max_string_length_ge: "s \<in> set xs \<Longrightarrow> length s \<le> max_string_length xs"
proof -
  have "m \<le> fold (\<lambda>s m. if length s > m then length s else m) xs m \<and>
      (\<forall>s \<in> set xs. length s \<le> fold (\<lambda>s m. if length s > m then length s else m) xs m)" for m
  proof (induction xs arbitrary: m)
    case (Cons x xs)
    show ?case using Cons [of "if length x > m then length x else m"] by (auto split: if_splits)
  qed simp
  then show "s \<in> set xs \<Longrightarrow> length s \<le> max_string_length xs" by (simp add: max_string_length_def)
qed

lemma calcMaxStringLengths_ge:
  assumes "mpi_max f" "d \<in> set ds" "s \<in> set d"
  shows "length s \<le> calcMaxStringLengths f ds"
proof -
  have "length s \<le> f (map max_string_length ds)"
    using max_string_length_ge [OF assms(3)] mpi_max_ge [OF assms(1), of "max_string_length d" "map max_string_length ds"] assms(2) by simp
  then show ?thesis by (simp add: calcMaxStringLengths_def Let_def)
qed

lemma fold_write_string:
  "p + length s \<le> length buf \<Longrightarrow> fold (\<lambda>j buf. buf[p + j := s ! j]) [0..<length s] buf = overwrite p s buf"
proof -
  assume fit: "p + length s \<le> length buf"
  have "m \<le> length s \<Longrightarrow> fold (\<lambda>j buf. buf[p + j := s ! j]) [0..<m] buf = overwrite p (take m s) buf" for m
  proof (induction m)
    case (Suc m)
    have "(overwrite p (take m s) buf)[p + m := s ! m] = overwrite p (take (Suc m) s) buf"
      by (rule nth_equalityI) (use Suc.prems fit in \<open>auto simp: overwrite_def nth_append nth_list_update take_Suc_conv_app_nth less_Suc_eq\<close>)
    then show ?case using Suc by simp
  qed (simp add: overwrite_def)
  from this [of "length s"] show ?thesis by simp
qed

text \<open>Each string stands in its own field of the buffer, followed by zeros.\<close>

lemma send_strings_fields:
  assumes "\<forall>s \<in> set varData. length s < M"
  shows "send_strings M (length varData) varData = concat (map (\<lambda>s. s @ replicate (M - length s) nul) varData)"
proof -
  let ?f = "\<lambda>s. s @ replicate (M - length s) nul"
  have lf: "length (?f s) = M" if "s \<in> set varData" for s using assms that by fastforce
  have lc: "set xs \<subseteq> set varData \<Longrightarrow> length (concat (map ?f xs)) = length xs * M" for xs
  proof (induction xs)
    case (Cons x xs)
    then show ?case using lf [of x] by simp
  qed simp
  have "m \<le> length varData \<Longrightarrow> fold (\<lambda>i buf. fold (\<lambda>j buf. buf[i * M + j := varData ! i ! j]) [0..<length (varData ! i)] buf) [0..<m]
      (replicate (length varData * M) nul) = concat (map ?f (take m varData)) @ replicate ((length varData - m) * M) nul" for m
  proof (induction m)
    case (Suc m)
    let ?s = "varData ! m" and ?pre = "concat (map ?f (take m varData))"
    have s: "?s \<in> set varData" "length ?s < M" using Suc.prems assms by auto
    have pre: "length ?pre = m * M" using lc [of "take m varData"] Suc.prems set_take_subset [of m varData] by simp
    have split: "(length varData - m) * M = M + (length varData - Suc m) * M"
      using Suc.prems by (metis Suc_diff_Suc Suc_le_lessD mult_Suc)
    have "fold (\<lambda>j buf. buf[m * M + j := ?s ! j]) [0..<length ?s] (?pre @ replicate ((length varData - m) * M) nul)
        = overwrite (m * M) ?s (?pre @ replicate ((length varData - m) * M) nul)"
      by (rule fold_write_string) (use pre s(2) split in simp)
    also have "\<dots> = ?pre @ ?f ?s @ replicate ((length varData - Suc m) * M) nul"
      using pre s(2) by (simp add: overwrite_def split flip: replicate_add)
    finally show ?case using Suc by (simp add: take_Suc_conv_app_nth)
  qed simp
  from this [of "length varData"] show ?thesis by (simp add: send_strings_def)
qed


lemma takeWhile_nul_padding: "0 < k \<Longrightarrow> takeWhile (\<lambda>c. c \<noteq> nul) (s @ replicate k nul @ rest) = takeWhile (\<lambda>c. c \<noteq> nul) s"
  by (induction s) (auto simp: gr0_conv_Suc)

lemma receive_string_field:
  assumes "\<forall>s \<in> set varData. length s < M" "j < length varData"
  shows "receive_string M (concat (map (\<lambda>s. s @ replicate (M - length s) nul) varData)) j = Inr (takeWhile (\<lambda>c. c \<noteq> nul) (varData ! j))"
proof -
  let ?f = "\<lambda>s. s @ replicate (M - length s) nul"
  have lc: "\<forall>s \<in> set xs. length s < M \<Longrightarrow> length (concat (map ?f xs)) = length xs * M" for xs
    by (induction xs) auto
  have "concat (map ?f varData) = concat (map ?f (take j varData)) @ ?f (varData ! j) @ concat (map ?f (drop (Suc j) varData))"
    using assms(2) by (subst id_take_nth_drop [of j varData]) simp_all
  moreover have "length (concat (map ?f (take j varData))) = j * M"
    using lc [of "take j varData"] assms by (auto dest: in_set_takeD)
  ultimately have dr: "drop (j * M) (concat (map ?f varData)) = ?f (varData ! j) @ concat (map ?f (drop (Suc j) varData))" by simp
  have "0 < M - length (varData ! j)" using assms by simp
  then show ?thesis
    unfolding receive_string_def dr Let_def using takeWhile_nul_padding [of "M - length (varData ! j)" "varData ! j"] by simp
qed

text \<open>C40. Strings sent to the pool. With the field length computed over all ranks, every string of a rank arrives at its place
  in the buffer of the pool, none is cut by the end of its field and no error is raised; what follows a zero character
  inside a string is lost.\<close>

theorem string_transfer:
  assumes "mpi_max allReduce" "M = calcMaxStringLengths allReduce varDatas + 1" "set sent \<subseteq> set (concat varDatas)"
    "start + length sent \<le> length varData"
  shows "receive_strings M (length sent) start (send_strings M (length sent) sent) varData
    = Inr (overwrite start (map (takeWhile (\<lambda>c. c \<noteq> nul)) sent) varData)"
proof -
  have short: "\<forall>s \<in> set sent. length s < M"
    using assms(2,3) calcMaxStringLengths_ge [OF assms(1)] by (fastforce simp: less_Suc_eq_le)
  let ?buf = "concat (map (\<lambda>s. s @ replicate (M - length s) nul) sent)" and ?g = "takeWhile (\<lambda>c. c \<noteq> nul)"
  have "m \<le> length sent \<Longrightarrow> receive_strings M m start ?buf varData = Inr (overwrite start (map ?g (take m sent)) varData)" for m
  proof (induction m)
    case (Suc m)
    have "(overwrite start (map ?g (take m sent)) varData)[start + m := ?g (sent ! m)] = overwrite start (map ?g (take (Suc m) sent)) varData"
      by (rule nth_equalityI) (use Suc.prems assms(4) in \<open>auto simp: overwrite_def nth_append nth_list_update take_Suc_conv_app_nth less_Suc_eq\<close>)
    then show ?case
      using Suc receive_string_field [OF short, of m] by (simp add: receive_strings_def fold_result_append)
  qed (simp add: receive_strings_def overwrite_def)
  from this [of "length sent"] show ?thesis unfolding send_strings_fields [OF short] by simp
qed

theorem string_transfer_witness:
  "receive_strings 4 2 1 (send_strings 4 2 [''ab'', []]) [''x'', ''y'', ''z''] = Inr [''x'', ''ab'', []]"
  using string_transfer [OF mpi_max_seq_max, of 4 "[[''abc''], [''ab'', []]]" "[''ab'', []]" 1 "[''x'', ''y'', ''z'']"]
  by (simp add: calcMaxStringLengths_def max_string_length_def overwrite_def nul_def numeral_2_eq_2)

text \<open>C39. The pool that the constructor sets up, on any number of processes: the pool has as many processes as allowed and
  available; its members with the ranks assigned to them are all ranks, each once and in order; a rank is assigned to the
  member that lists it, with the size of its patch; two members differ by at most one in the number of assigned
  ranks; and the blocks of the members in the file follow each other without gaps and fill \<open>global_nlocs\<close> rows.\<close>

theorem WriterPool_assignment:
  assumes "mpi_pool_comm c" "patches \<noteq> []" "ps = WriterPool c maxPoolSize multi patches" "members = filter (\<lambda>p. rank_pool p \<ge> 0) ps"
  shows "int (length members) = min (int (length ps)) (if maxPoolSize > 0 then maxPoolSize else 10) \<and>
    concat (map (\<lambda>p. rank_all p # map fst (rank_assignment p)) members) = [0..<length patches] \<and>
    (\<forall>p \<in> set members. \<forall>(r, m) \<in> set (rank_assignment p).
       m = length (filter id (patches ! r)) \<and> rank_pool (ps ! r) = -1 \<and> rank_assignment (ps ! r) = [(rank_all p, m)]) \<and>
    (\<forall>p \<in> set members. \<forall>q \<in> set members. length (rank_assignment p) \<le> length (rank_assignment q) + 1) \<and>
    (\<forall>i < length members. nlocs_start (members ! i) = sum_list (map total_nlocs (take i members)) \<and>
       global_nlocs (members ! i) = sum_list (map total_nlocs members))"
proof -
  let ?n = "length patches" and ?t = "pool_size maxPoolSize (length patches)"
  let ?lo = "block_lo ?n ?t" and ?O = "owner_state multi patches ?t" and ?c = "patch_count patches"
  have n: "0 < ?n" using assms(2) by simp
  have t: "0 < ?t" "?t \<le> ?n" using pool_size_bounds [OF n] by simp_all
  note W = WriterPool_nth [OF assms(1,2), where maxPoolSize = maxPoolSize and multi = multi, folded assms(3)]
  have mem: "members = map ?O [0..<?t]" unfolding assms(3,4) by (rule WriterPool_members [OF assms(1,2)])
  have ra: "rank_assignment (?O i) = map (\<lambda>r. (r, ?c r)) [?lo i + 1..<?lo (Suc i)]" for i by (simp add: owner_state_def Let_def)
  have "int (length members) = min (int (length ps)) (if maxPoolSize > 0 then maxPoolSize else 10)"
    unfolding mem W(1) by (simp add: pool_size_def)
  moreover have "concat (map (\<lambda>p. rank_all p # map fst (rank_assignment p)) members) = [0..<?n]"
  proof -
    have "map (\<lambda>p. rank_all p # map fst (rank_assignment p)) members = map (\<lambda>(p, rs). p # rs) (blocks ?n ?t)"
      by (simp add: mem ra owner_state_fields blocks_def comp_def)
    then show ?thesis by (simp add: blocks_cover [OF t])
  qed
  moreover have "m = length (filter id (patches ! r)) \<and> rank_pool (ps ! r) = -1 \<and> rank_assignment (ps ! r) = [(rank_all p, m)]"
    if p: "p \<in> set members" "(r, m) \<in> set (rank_assignment p)" for p r m
  proof -
    obtain i where i: "i < ?t" "p = ?O i" using p(1) mem by auto
    have r: "?lo i < r" "r < ?lo (Suc i)" "m = ?c r" using p(2) unfolding i(2) ra by (auto simp: Suc_le_eq)
    show ?thesis using W(3) [OF i(1) r(1,2)] r(3) i(2) by (simp add: sender_state_def owner_state_fields patch_count_def)
  qed
  moreover have "length (rank_assignment p) \<le> length (rank_assignment q) + 1" if "p \<in> set members" "q \<in> set members" for p q
    using that unfolding mem by (auto simp: ra block_lo_Suc)
  moreover have "nlocs_start (members ! i) = sum_list (map total_nlocs (take i members)) \<and> global_nlocs (members ! i) = sum_list (map total_nlocs members)"
    if "i < length members" for i
  proof -
    have i: "i < ?t" using that mem by simp
    have "sum_list (map total_nlocs (map ?O [0..<j])) = sum_list (map ?c [0..<?lo j])" for j
      using sum_block_totals [OF t, of ?c j] by (simp add: comp_def owner_state_fields)
    from this [of i] this [of ?t] show ?thesis
      using i by (simp add: mem take_map owner_state_fields block_lo_top [OF t(1)])
  qed
  ultimately show ?thesis by auto
qed

theorem WriterPool_assignment_witness:
  "length (filter (\<lambda>p. rank_pool p \<ge> 0) (WriterPool seq_pool_comm 2 False example_patches)) = 2"
  using WriterPool_assignment [OF mpi_pool_comm_seq _ refl refl, of example_patches 2 False]
    WriterPool_nth(1) [OF mpi_pool_comm_seq, of example_patches 2 False]
  by (simp add: example_patches_def)

end
