(* ===== verification/Spec2Isabelle.thy ===== *)
theory Spec2Isabelle
  imports Ioda_Locations Ioda_VarUtils Ioda_Records Ioda_Pool
begin

text \<open>
  A verification library for ioda, the Interface for Observation Data Access. Paths below are relative to
  \<open>src/src/\<close> of the repository; \<open>ObsStore/\<close> stands for \<open>engines/ioda/src/ioda/Engines/ObsStore/\<close>, \<open>E/\<close> for
  \<open>engines/ioda/src/ioda/\<close> and \<open>I/\<close> for \<open>engines/ioda/include/ioda/\<close>.

  \<^bold>\<open>The program.\<close> An \<open>ObsSpace\<close> (\<open>ObsSpace.cc\<close>) holds the observations of one instrument. It is filled from a
  source, an \<open>ObsGroup\<close> of some engine, frame by frame (\<open>io/ObsFrameRead.cc\<close>): locations outside the time window are
  dropped, the rest get record numbers, and a \<open>Distribution\<close> (\<open>distribution/\<close>) decides which ranks of the
  communicator keep which records. The kept rows are written to an \<open>ObsGroup\<close> of the in-memory engine
  (\<open>ObsStore/\<close>), a tree of groups with typed, multidimensional variables whose axes are tied to dimension scales.
  Later the ObsSpace sorts the locations inside its records, adds companion records, and answers
  reductions over all ranks through the accumulators of its distribution.

  \<^bold>\<open>Theories, in the order of the imports.\<close>

  \<^item> \<open>Ioda_Prelude\<close>: errors as values (\<open>'a result\<close>), selection of a list by a mask, prefix sums, positions in
  concatenated lists. \<open>Ioda_Std\<close>: ordered maps, \<open>vector::resize\<close> and string searches of the C++ library.

  \<^item> \<open>Ioda_Mpi\<close>: a parallel program is a function from the list of the ranks' values to the list of the ranks'
  results; the collective operations of the message passing library are such functions.

  \<^item> \<open>Ioda_Distribution\<close>: the contract of a distribution as locales (\<open>distribution/Distribution.h\<close>), the accumulators
  (\<open>distribution/*Accumulator.h\<close>) and \<open>distribution/DistributionUtils.cc\<close>. A distribution that meets the contract
  has one patch owner per location, gather indices that agree with \<open>allGatherv\<close>, and sums that count every
  location once. The client lemmas are proved inside the locales.

  \<^item> \<open>Ioda_Nonoverlapping\<close>: \<open>NonoverlappingDistribution\<close>, \<open>RoundRobin\<close>, \<open>AtlasDistribution\<close>,
  \<open>ReplicaOfNonoverlappingDistribution\<close> and \<open>InefficientDistribution\<close>. \<open>Ioda_Halo\<close>: the overlapping \<open>Halo\<close>
  distribution, patch ownership by the nearest centre, consecutive global indices. \<open>Ioda_Replica\<close>:
  \<open>ReplicaOfGeneralDistribution\<close> and \<open>PairOfDistributions\<close>. Each class interprets the locales of the contract;
  the pair of a halo is shown to break it.

  \<^item> \<open>Ioda_Selection\<close>: the selections of the in-memory engine (\<open>ObsStore/Selection.cpp\<close>,
  \<open>ObsStore/ObsStore-selection.cpp\<close>) as a counter machine with its carry loop, and the addresses it delivers.

  \<^item> \<open>Ioda_Store\<close>: types, typed storage, attributes and variables (\<open>ObsStore/Type.cpp\<close>, \<open>VarAttrStore.hpp\<close>,
  \<open>Attributes.cpp\<close>, \<open>Variables.cpp\<close>). Writes and reads through a pair of selections are inverse to each other; what a
  resize keeps and what it fills. \<open>Ioda_Backend\<close>: the backends between the frontend and this storage.

  \<^item> \<open>Ioda_Group\<close> and \<open>Ioda_Listing\<close>: the tree of groups (\<open>ObsStore/Group.cpp\<close>) and the variables below it:
  create, open, exists, remove, rename, recursive listing.

  \<^item> \<open>Ioda_Strings\<close>: paths, strings and units (\<open>E/StringFuncs.cpp\<close>, \<open>I/Misc/UnitConversions.h\<close>). \<open>Ioda_Layout\<close>: the
  data layout policies (\<open>E/Layouts/\<close>), which translate the names of the clients to those of the store.

  \<^item> \<open>Ioda_ObsGroup\<close> and \<open>Ioda_Scales\<close>: \<open>E/Has_Variables.cpp\<close>, \<open>E/ObsGroup.cpp\<close>, dimension scales. The invariant
  is that every axis of every variable has the size and the limit of its scale; \<open>generate\<close>,
  \<open>createWithScales\<close> and \<open>resize\<close> keep it, and return a result on every input that meets their conditions.

  \<^item> \<open>Ioda_Rows\<close>: the row selections of \<open>io/ObsFrame.cc\<close> and what a transfer through them copies.
  \<open>Ioda_VarUtils\<close>: \<open>E/VarUtils.cpp\<close>, the inspection of a group. \<open>Ioda_Locations\<close>: \<open>io/ObsFrameRead.cc\<close>, locations,
  records and their distribution, over a locale that all distributions interpret.

  \<^item> \<open>Ioda_Records\<close>: the record index of \<open>ObsSpace.cc\<close>, sorting inside records, companion records.

  \<^bold>\<open>Representation.\<close> \<open>size_t\<close> and dimension sizes are natural numbers, limits of dimensions integers with \<open>-1\<close> for
  unlimited; floating point numbers are reals. Where the code narrows to \<open>int\<close> the bound \<open>2 ^ 31\<close> is written out.
  An exception is \<open>Inl\<close> of an error, and so is \<open>vector::at\<close> out of range. A \<open>std::map\<close> is a list in the order of
  its keys. Pointers to groups are paths, pointers to variables addresses of a heap, so two names can share a variable.
  Loops over containers are folds or structural recursion, so no function has fuel; the counter of a selection is
  iterated with \<open>npoints\<close> steps, and the theorem about it shows that it ends exactly there.

  \<^bold>\<open>Not modelled.\<close> The HDF5 engine and the ODC engine call libraries for storage and SQL, and their behaviour is that of
  those libraries. The language bindings (C, Python, Fortran) forward to the classes modelled here. The
  executables, the validator and the upgrade tools read files and print. The generators of synthetic
  observations draw random numbers. Marshalling of C++ types to bytes is replaced by one type of
  scalars. Message passing, time stamps, the mesh partition and the great-circle distance come from other packages
  and are parameters of the definitions.
\<close>

end
